(* ===== verification/Prelude_C.thy ===== *)
theory Prelude_C
  imports Main "HOL-Library.Sublist"
begin

text \<open>
  Prelude: the part of C that the daemon's sources rely on, as HOL functions.

  A C object of type \<^verbatim>\<open>char[n]\<close> is a list of \<open>n\<close> cells; a cell is \<open>None\<close> while its byte is
  indeterminate (never written) and \<open>Some c\<close> afterwards. A pointer into such an object is an
  offset. Every operation returns \<open>Inl\<close> of a fault where the C standard leaves the behaviour
  undefined, and \<open>Inr\<close> of its result otherwise, so that "no fault" is a statement about memory
  safety. Some habits of the sources go beyond the standard and are made parameters, the
  record \<open>platform\<close>: copying blocks that extend past the end of the object they are read from,
  \<^verbatim>\<open>strcpy\<close> between overlapping strings, and touching the pointer behind a heap array.
\<close>

section \<open>Results and faults\<close>

datatype fault =
    OutOfBounds        \<comment> \<open>access outside an object\<close>
  | Uninitialised      \<comment> \<open>a byte or pointer is used before it is written\<close>
  | NullPointer        \<comment> \<open>a null pointer is dereferenced\<close>
  | Overlap            \<comment> \<open>a copy between overlapping strings\<close>
  | DivisionByZero
  | BadFormat          \<comment> \<open>a printf directive without its argument\<close>

type_synonym 'a res = "fault + 'a"

definition chk :: "'a res \<Rightarrow> ('a \<Rightarrow> 'b res) \<Rightarrow> 'b res" where
  "chk r f = (case r of Inl e \<Rightarrow> Inl e | Inr x \<Rightarrow> f x)"

lemma chk_Inl [simp]: "chk (Inl e) f = Inl e"
  and chk_Inr [simp]: "chk (Inr x) f = f x"
  by (simp_all add: chk_def)

lemma chk_eq_Inr_iff: "chk r f = Inr y \<longleftrightarrow> (\<exists>x. r = Inr x \<and> f x = Inr y)"
  by (cases r) simp_all

lemma chk_eq_Inl_iff: "chk r f = Inl e \<longleftrightarrow> r = Inl e \<or> (\<exists>x. r = Inr x \<and> f x = Inl e)"
  by (cases r) simp_all

lemma chk_cong [fundef_cong]:
  "r = r' \<Longrightarrow> (\<And>x. r' = Inr x \<Longrightarrow> f x = f' x) \<Longrightarrow> chk r f = chk r' f'"
  by (cases r') simp_all

text \<open>Hints: \<open>cmem\<close> collects the rules that evaluate the memory operations on a laid out
  buffer, \<open>cdefs\<close> the definitions the component proofs unfold.\<close>

named_theorems cmem
named_theorems cdefs

section \<open>The platform\<close>

text \<open>
  \<open>over_read\<close>: a block copy may read past the end of its source object and finds indeterminate
  bytes there (the stack or heap behind it is mapped). \<open>ascending\<close>: \<^verbatim>\<open>strcpy\<close> copies in
  ascending order, so that moving a string to a lower address in the same array works.
  \<open>garbage\<close>: a pointer that was never written may be compared with null, with either outcome.
  \<open>spare n\<close>: how many pointers a heap block of \<open>n\<close> pointers has room for beyond those, because
  \<^verbatim>\<open>malloc\<close> rounds sizes up. ISO C promises none of these.
\<close>

record platform =
  over_read :: bool
  ascending :: bool
  garbage :: bool
  spare :: "nat \<Rightarrow> nat"

definition iso_c :: platform where
  "iso_c = \<lparr>over_read = False, ascending = False, garbage = False, spare = (\<lambda>_. 0)\<rparr>"

definition permissive :: platform where
  "permissive = \<lparr>over_read = True, ascending = True, garbage = True, spare = (\<lambda>_. 1)\<rparr>"

lemma platform_sel [simp]:
  "\<not> over_read iso_c" "\<not> ascending iso_c" "over_read permissive" "ascending permissive"
  "\<not> garbage iso_c" "spare iso_c n = 0" "garbage permissive" "spare permissive n = 1"
  by (simp_all add: iso_c_def permissive_def)

section \<open>Bytes and buffers\<close>

type_synonym cell = "char option"
type_synonym cbuf = "cell list"

abbreviation NUL :: char where
  "NUL \<equiv> CHR 0x00"

abbreviation newline :: char where
  "newline \<equiv> CHR 0x0A"

abbreviation cells :: "string \<Rightarrow> cbuf" where
  "cells \<equiv> map Some"

text \<open>An array that was declared and not written.\<close>

definition fresh :: "nat \<Rightarrow> cbuf" where
  "fresh n = replicate n None"

lemma length_fresh [simp]: "length (fresh n) = n"
  by (simp add: fresh_def)

text \<open>\<^verbatim>\<open>isspace\<close> in the C locale (the program never calls \<^verbatim>\<open>setlocale\<close>).\<close>

definition isspace :: "char \<Rightarrow> bool" where
  "isspace c \<longleftrightarrow> c \<in> {CHR '' '', CHR 0x09, CHR 0x0A, CHR 0x0B, CHR 0x0C, CHR 0x0D}"

lemma not_isspace_NUL [simp]: "\<not> isspace NUL"
  by (simp add: isspace_def)

lemma isspace_blank [simp]: "isspace (CHR '' '')"
  by (simp add: isspace_def)

text \<open>The string that starts at the first cell of a buffer: the bytes before the first NUL.\<close>

fun cstr :: "cbuf \<Rightarrow> string res" where
  "cstr [] = Inl OutOfBounds"
| "cstr (None # b) = Inl Uninitialised"
| "cstr (Some c # b) = (if c = NUL then Inr [] else chk (cstr b) (\<lambda>s. Inr (c # s)))"

definition str_at :: "cbuf \<Rightarrow> nat \<Rightarrow> string res" where
  "str_at b p = (if p \<le> length b then cstr (drop p b) else Inl OutOfBounds)"

definition strlen :: "cbuf \<Rightarrow> nat \<Rightarrow> nat res" where
  "strlen b p = chk (str_at b p) (\<lambda>s. Inr (length s))"

definition peek :: "cbuf \<Rightarrow> nat \<Rightarrow> char res" where
  "peek b p = (if p < length b then (case b ! p of None \<Rightarrow> Inl Uninitialised | Some c \<Rightarrow> Inr c)
               else Inl OutOfBounds)"

text \<open>Reading and writing blocks.\<close>

definition load :: "platform \<Rightarrow> cbuf \<Rightarrow> nat \<Rightarrow> nat \<Rightarrow> cbuf res" where
  "load pl b p n =
     (if p + n \<le> length b then Inr (take n (drop p b))
      else if over_read pl \<and> p \<le> length b
        then Inr (drop p b @ replicate (n - (length b - p)) None)
      else Inl OutOfBounds)"

definition store :: "cbuf \<Rightarrow> nat \<Rightarrow> cbuf \<Rightarrow> cbuf res" where
  "store b p cs =
     (if p + length cs \<le> length b then Inr (take p b @ cs @ drop (p + length cs) b)
      else Inl OutOfBounds)"

definition put_char :: "cbuf \<Rightarrow> nat \<Rightarrow> char \<Rightarrow> cbuf res" where
  "put_char b p c = store b p [Some c]"

section \<open>The functions of \<^verbatim>\<open>string.h\<close> the sources call\<close>

text \<open>\<open>memmove_within\<close> is \<^verbatim>\<open>memmove(b + d, b + p, n)\<close>; \<open>strcpy_within\<close> is
  \<^verbatim>\<open>strcpy(b + d, b + p)\<close>, both inside one array. \<open>strcpy\<close>, \<open>strcat\<close>, \<open>strncat\<close> and
  \<open>strncpy\<close> take the source string already read (its bytes before the NUL).\<close>

definition memmove_within :: "platform \<Rightarrow> cbuf \<Rightarrow> nat \<Rightarrow> nat \<Rightarrow> nat \<Rightarrow> cbuf res" where
  "memmove_within pl b d p n = chk (load pl b p n) (store b d)"

definition strcpy :: "cbuf \<Rightarrow> nat \<Rightarrow> string \<Rightarrow> cbuf res" where
  "strcpy b d s = store b d (cells s @ [Some NUL])"

definition strcpy_within :: "platform \<Rightarrow> cbuf \<Rightarrow> nat \<Rightarrow> nat \<Rightarrow> cbuf res" where
  "strcpy_within pl b d p =
     chk (str_at b p) (\<lambda>s.
       if p \<le> d + length s \<and> d \<le> p + length s \<and> \<not> (ascending pl \<and> d \<le> p) then Inl Overlap
       else strcpy b d s)"

definition strcat :: "cbuf \<Rightarrow> string \<Rightarrow> cbuf res" where
  "strcat b s = chk (strlen b 0) (\<lambda>n. strcpy b n s)"

definition strncat :: "cbuf \<Rightarrow> string \<Rightarrow> nat \<Rightarrow> cbuf res" where
  "strncat b s n = strcat b (take n s)"

definition strncpy :: "cbuf \<Rightarrow> nat \<Rightarrow> string \<Rightarrow> nat \<Rightarrow> cbuf res" where
  "strncpy b d s n = store b d (cells (take n s) @ replicate (n - length s) (Some NUL))"

definition memset :: "cbuf \<Rightarrow> char \<Rightarrow> nat \<Rightarrow> cbuf res" where
  "memset b c n = store b 0 (replicate n (Some c))"

text \<open>\<^verbatim>\<open>strchr(b + p, c)\<close> as the offset of the first occurrence, for \<open>c \<noteq> NUL\<close>, and
  \<^verbatim>\<open>strstr\<close> on two strings.\<close>

definition strchr :: "cbuf \<Rightarrow> nat \<Rightarrow> char \<Rightarrow> nat option res" where
  "strchr b p c =
     chk (str_at b p) (\<lambda>s. Inr (if c \<in> set s then Some (p + length (takeWhile (\<lambda>x. x \<noteq> c) s))
                               else None))"

fun strstr :: "string \<Rightarrow> string \<Rightarrow> nat option" where
  "strstr [] t = (if t = [] then Some 0 else None)"
| "strstr (c # s) t = (if prefix t (c # s) then Some 0 else map_option Suc (strstr s t))"

lemmas cstring_defs [cdefs] =
  strlen_def put_char_def memmove_within_def strcpy_def strcat_def strncat_def strncpy_def
  memset_def strchr_def

section \<open>Lemmas\<close>

subsection \<open>Reading strings\<close>

lemma cstr_cells [simp]:
  "NUL \<notin> set s \<Longrightarrow> cstr (cells s @ Some NUL # r) = Inr s"
  by (induction s) auto

lemma cstr_eq_Inr_iff: "cstr b = Inr s \<longleftrightarrow> NUL \<notin> set s \<and> (\<exists>r. b = cells s @ Some NUL # r)"
proof (induction b arbitrary: s rule: cstr.induct)
  case (3 c b)
  show ?case
  proof (cases "c = NUL")
    case True
    then show ?thesis by (cases s) auto
  next
    case False
    with 3 show ?thesis by (cases s) (auto simp: chk_eq_Inr_iff)
  qed
qed (auto simp: Cons_eq_append_conv)

text \<open>The layout lemmas: a buffer written as \<open>pre @ cells s @ Some NUL # r\<close>.\<close>

lemma str_at_layout [simp, cmem]:
  "length pre = p \<Longrightarrow> NUL \<notin> set s \<Longrightarrow> str_at (pre @ cells s @ Some NUL # r) p = Inr s"
  by (simp add: str_at_def)

lemma str_at_0 [simp, cmem]:
  "NUL \<notin> set s \<Longrightarrow> str_at (cells s @ Some NUL # r) 0 = Inr s"
  by (simp add: str_at_def)

lemma str_at_suffix:
  assumes "NUL \<notin> set s" and "p \<le> length s"
  shows "str_at (cells s @ Some NUL # r) p = Inr (drop p s)"
proof -
  have "drop p (cells s @ Some NUL # r) = cells (drop p s) @ Some NUL # r"
    using assms(2) by (simp add: drop_map)
  moreover have "NUL \<notin> set (drop p s)"
    using assms(1) by (meson in_set_dropD)
  ultimately show ?thesis
    using assms(2) by (simp add: str_at_def)
qed

lemma peek_layout [simp, cmem]:
  "length pre = p \<Longrightarrow> peek (pre @ Some c # r) p = Inr c"
  by (auto simp: peek_def nth_append)

lemma peek_in_bounds: "peek b p = Inr c \<Longrightarrow> p < length b"
  by (simp add: peek_def split: if_splits)

subsection \<open>Writing\<close>

lemma length_store: "store b p cs = Inr b' \<Longrightarrow> length b' = length b"
  by (auto simp: store_def split: if_splits)

lemma store_layout [simp, cmem]:
  "length pre = p \<Longrightarrow> length cs = length mid \<Longrightarrow>
   store (pre @ mid @ post) p cs = Inr (pre @ cs @ post)"
  by (simp add: store_def)

lemma store_start: "length cs \<le> length b \<Longrightarrow> store b 0 cs = Inr (cs @ drop (length cs) b)"
  by (simp add: store_def)

lemma store_too_long: "length b < p + length cs \<Longrightarrow> store b p cs = Inl OutOfBounds"
  by (simp add: store_def)

lemma put_char_layout [simp, cmem]:
  "length pre = p \<Longrightarrow> put_char (pre @ x # post) p c = Inr (pre @ Some c # post)"
  by (simp add: put_char_def store_def)

lemma strcpy_start:
  "length s < length b \<Longrightarrow> strcpy b 0 s = Inr (cells s @ Some NUL # drop (Suc (length s)) b)"
  by (simp add: strcpy_def store_start)

lemma strcpy_fits:
  assumes "NUL \<notin> set s" and "length s < length b"
  obtains b' where "strcpy b 0 s = Inr b'" and "str_at b' 0 = Inr s" and "length b' = length b"
  using assms strcpy_start [OF assms(2)] by simp

lemma strcpy_start_overflow: "length b \<le> length s \<Longrightarrow> strcpy b 0 s = Inl OutOfBounds"
  by (simp add: strcpy_def store_too_long)

lemma strlen_layout [simp, cmem]:
  "NUL \<notin> set s \<Longrightarrow> strlen (cells s @ Some NUL # r) 0 = Inr (length s)"
  by (simp add: strlen_def)

lemma strcat_layout:
  assumes "NUL \<notin> set s" and "length t \<le> length r"
  shows "strcat (cells s @ Some NUL # r) t
       = Inr (cells (s @ t) @ Some NUL # drop (length t) r)"
  using assms by (simp add: strcat_def strcpy_def store_def)

lemma strcat_overflow:
  assumes "NUL \<notin> set s" and "length r < length t"
  shows "strcat (cells s @ Some NUL # r) t = Inl OutOfBounds"
  using assms by (simp add: strcat_def strcpy_def store_def)

lemma strcat_at:
  assumes "str_at b 0 = Inr s" and "NUL \<notin> set t" and "length s + length t < length b"
  shows "\<exists>b'. strcat b t = Inr b' \<and> str_at b' 0 = Inr (s @ t) \<and> length b' = length b"
proof -
  obtain r where b: "b = cells s @ Some NUL # r" and nul: "NUL \<notin> set s"
    using assms(1) by (auto simp: str_at_def cstr_eq_Inr_iff)
  have "length t \<le> length r" using assms(3) by (simp add: b)
  then show ?thesis
    using strcat_layout [OF nul, of t r] nul assms(2) str_at_0 [of "s @ t" "drop (length t) r"]
    by (auto simp: b)
qed

lemma strcat_at_overflow:
  assumes "str_at b 0 = Inr s" and "length b \<le> length s + length t"
  shows "strcat b t = Inl OutOfBounds"
proof -
  obtain r where b: "b = cells s @ Some NUL # r" and nul: "NUL \<notin> set s"
    using assms(1) by (auto simp: str_at_def cstr_eq_Inr_iff)
  then show ?thesis using assms(2) by (simp add: strcat_overflow)
qed

lemma load_in_bounds: "p + n \<le> length b \<Longrightarrow> load pl b p n = Inr (take n (drop p b))"
  by (simp add: load_def)

lemma load_out_of_bounds:
  "length b < p + n \<Longrightarrow> \<not> over_read pl \<Longrightarrow> load pl b p n = Inl OutOfBounds"
  by (simp add: load_def)

lemma load_length: "load pl b p n = Inr cs \<Longrightarrow> length cs = n"
  by (auto simp: load_def split: if_splits)

text \<open>Whatever the platform, a permitted block read agrees with the object as far as that goes.\<close>

lemma load_ok:
  assumes "over_read pl \<or> p + n \<le> length b" and "p \<le> length b"
  shows "\<exists>more. load pl b p n = Inr (take n (drop p b) @ more)
                \<and> length (take n (drop p b) @ more) = n"
  using assms by (auto simp: load_def min_def)

text \<open>Moving a block to the front of its own array.\<close>

lemma memmove_to_front:
  assumes "over_read pl \<or> p + n \<le> length b" and "p \<le> length b" and "n \<le> length b"
  shows "\<exists>more. memmove_within pl b 0 p n = Inr (take n (drop p b) @ more @ drop n b)
                \<and> length (take n (drop p b)) + length more = n"
proof -
  obtain more where load: "load pl b p n = Inr (take n (drop p b) @ more)"
    and n: "length (take n (drop p b) @ more) = n"
    using load_ok [OF assms(1,2)] by blast
  have "store b 0 (take n (drop p b) @ more) = Inr ((take n (drop p b) @ more) @ drop n b)"
    using store_start [of "take n (drop p b) @ more" b] assms(3) unfolding n by blast
  then show ?thesis using load n by (auto simp: memmove_within_def)
qed

lemma memmove_faults:
  "length b < p + n \<Longrightarrow> \<not> over_read pl \<Longrightarrow> memmove_within pl b d p n = Inl OutOfBounds"
  by (simp add: memmove_within_def load_out_of_bounds)

subsection \<open>Searching\<close>

lemma strchr_0 [simp, cmem]:
  "NUL \<notin> set s \<Longrightarrow> strchr (cells s @ Some NUL # r) 0 c
     = Inr (if c \<in> set s then Some (length (takeWhile (\<lambda>x. x \<noteq> c) s)) else None)"
  by (simp add: strchr_def)

lemma strstr_Some:
  "strstr s t = Some i \<Longrightarrow> s = take i s @ t @ drop (i + length t) s \<and> i + length t \<le> length s"
proof (induction s t arbitrary: i rule: strstr.induct)
  case (2 c s t)
  show ?case
  proof (cases "prefix t (c # s)")
    case True
    with 2 have "i = 0" by simp
    moreover have "length t \<le> length (c # s)"
      using True by (rule prefix_length_le)
    moreover have "c # s = t @ drop (length t) (c # s)"
      using True by (metis append_eq_conv_conj prefix_def)
    ultimately show ?thesis by simp
  next
    case False
    with 2 show ?thesis by auto
  qed
qed (auto split: if_splits)

lemma strstr_None: "strstr s t = None \<longleftrightarrow> \<not> sublist t s"
  by (induction s t rule: strstr.induct) (auto simp: sublist_Cons_right)

lemma strstr_self: "strstr s [] = Some 0"
  by (cases s) simp_all

text \<open>Splitting a string at the first occurrence of a character.\<close>

lemma split_first:
  assumes "c \<in> set s"
  shows "s = takeWhile (\<lambda>x. x \<noteq> c) s @ c # tl (dropWhile (\<lambda>x. x \<noteq> c) s)"
  using assms by (induction s) auto

lemma notin_takeWhile_neq [simp]: "c \<notin> set (takeWhile (\<lambda>x. x \<noteq> c) s)"
  by (auto dest: set_takeWhileD)

end
