(* ===== verification/Logger.thy ===== *)
theory Logger
  imports Prelude_C
begin

text \<open>
  \<^verbatim>\<open>src/src/logger.c\<close> and the printf conversions it formats with. The process state the other
  components thread is built here: \<open>heap\<close> (outcomes of the coming \<^verbatim>\<open>malloc\<close> calls and the number
  of live allocations) and its extension \<open>sys\<close> (the syslog mask and the messages that reached
  syslog, oldest first). A message is formatted by \<^verbatim>\<open>vsprintf\<close> into a stack buffer of
  \<open>QUERAL_LOG_BUFFER_SIZE\<close> bytes with no check, so a long one is a fault of the caller.
\<close>

section \<open>Allocation\<close>

text \<open>\<open>malloc_plan\<close> fixes the outcomes of the next calls; when it is used up, calls succeed.\<close>

record heap =
  malloc_plan :: "bool list"
  live :: int

definition malloc :: "'a heap_scheme \<Rightarrow> bool \<times> 'a heap_scheme" where
  "malloc h =
     (case malloc_plan h of
        [] \<Rightarrow> (True, h\<lparr>live := live h + 1\<rparr>)
      | ok # plan \<Rightarrow> (ok, h\<lparr>malloc_plan := plan, live := live h + (if ok then 1 else 0)\<rparr>))"

definition free_block :: "'a heap_scheme \<Rightarrow> 'a heap_scheme" where
  "free_block h = h\<lparr>live := live h - 1\<rparr>"

text \<open>A heap on which every allocation succeeds.\<close>

definition plenty :: "'a heap_scheme \<Rightarrow> bool" where
  "plenty h \<longleftrightarrow> malloc_plan h = []"

lemma malloc_plenty [simp]: "plenty h \<Longrightarrow> malloc h = (True, h\<lparr>live := live h + 1\<rparr>)"
  by (simp add: malloc_def plenty_def)

lemma plenty_live [simp]: "plenty (h\<lparr>live := n\<rparr>) = plenty h"
  by (simp add: plenty_def)

lemma plenty_free [simp]: "plenty (free_block h) = plenty h"
  by (simp add: free_block_def)

section \<open>printf conversions\<close>

datatype arg = AStr string | AInt int | AChar char

definition digit_char :: "nat \<Rightarrow> char" where
  "digit_char d = ''0123456789'' ! d"

fun show_nat :: "nat \<Rightarrow> string" where
  "show_nat n = (if n < 10 then [digit_char n]
                 else show_nat (n div 10) @ [digit_char (n mod 10)])"

declare show_nat.simps [simp del]

definition show_int :: "int \<Rightarrow> string" where
  "show_int i = (if i < 0 then CHR ''-'' # show_nat (nat (- i)) else show_nat (nat i))"

definition convert :: "char \<Rightarrow> arg \<Rightarrow> string res" where
  "convert c a =
     (case a of
        AStr s \<Rightarrow> (if c = CHR ''s'' then Inr s else Inl BadFormat)
      | AInt i \<Rightarrow> (if c = CHR ''d'' \<or> c = CHR ''u'' then Inr (show_int i) else Inl BadFormat)
      | AChar x \<Rightarrow> (if c = CHR ''c'' then Inr [x] else Inl BadFormat))"

text \<open>\<open>printf_from\<close> copies text, \<open>printf_dir\<close> reads a directive after its percent sign (the
  length modifier \<^verbatim>\<open>l\<close> is skipped).\<close>

fun printf_from :: "string \<Rightarrow> arg list \<Rightarrow> string res"
and printf_dir :: "string \<Rightarrow> arg list \<Rightarrow> string res" where
  "printf_from [] args = Inr []"
| "printf_from (c # f) args =
     (if c = CHR ''%'' then printf_dir f args
      else chk (printf_from f args) (\<lambda>t. Inr (c # t)))"
| "printf_dir [] args = Inl BadFormat"
| "printf_dir (c # f) args =
     (if c = CHR ''l'' then printf_dir f args
      else if c = CHR ''%'' then chk (printf_from f args) (\<lambda>t. Inr (c # t))
      else case args of
          [] \<Rightarrow> Inl BadFormat
        | a # args \<Rightarrow> chk (convert c a) (\<lambda>s. chk (printf_from f args) (\<lambda>t. Inr (s @ t))))"

abbreviation squote :: string where
  "squote \<equiv> [CHR 0x27]"

abbreviation quoted :: "string \<Rightarrow> string" where
  "quoted s \<equiv> squote @ s @ squote"

section \<open>The logger\<close>

datatype severity = LOG_ERR | LOG_WARNING | LOG_NOTICE | LOG_INFO

fun severity_level :: "severity \<Rightarrow> nat" where
  "severity_level LOG_ERR = 3"
| "severity_level LOG_WARNING = 4"
| "severity_level LOG_NOTICE = 5"
| "severity_level LOG_INFO = 6"

lemma severity_level_inject: "severity_level p = severity_level q \<longleftrightarrow> p = q"
  by (cases p; cases q) simp_all

text \<open>Severities are ordered as syslog orders them: a larger level is less urgent, and
  \<^verbatim>\<open>LOG_UPTO(p)\<close> lets everything up to \<open>p\<close> pass.\<close>

instantiation severity :: linorder
begin

definition less_eq_severity :: "severity \<Rightarrow> severity \<Rightarrow> bool" where
  "p \<le> q \<longleftrightarrow> severity_level p \<le> severity_level q"

definition less_severity :: "severity \<Rightarrow> severity \<Rightarrow> bool" where
  "p < q \<longleftrightarrow> severity_level p < severity_level q"

instance
  by standard (auto simp: less_eq_severity_def less_severity_def severity_level_inject)

end

record sys = heap +
  log_upto :: severity
  syslog :: "(severity \<times> string) list"

definition QUERAL_LOG_BUFFER_SIZE :: nat where
  "QUERAL_LOG_BUFFER_SIZE = 256"

definition log_init :: "bool \<Rightarrow> sys \<Rightarrow> sys" where
  "log_init verbose s = (if \<not> verbose then s\<lparr>log_upto := LOG_NOTICE\<rparr> else s)"

definition log_init_verbose :: "sys \<Rightarrow> sys" where
  "log_init_verbose = log_init True"

definition log_init_quiet :: "sys \<Rightarrow> sys" where
  "log_init_quiet = log_init False"

definition log_message :: "severity \<Rightarrow> string \<Rightarrow> sys \<Rightarrow> sys" where
  "log_message p m s = (if p \<le> log_upto s then s\<lparr>syslog := syslog s @ [(p, m)]\<rparr> else s)"

text \<open>The common body of the four entry points: format into the stack buffer, send the string
  the buffer then holds.\<close>

definition log_write :: "severity \<Rightarrow> string \<Rightarrow> arg list \<Rightarrow> sys \<Rightarrow> sys res" where
  "log_write p format arguments s =
     chk (printf_from format arguments) (\<lambda>text.
     chk (strcpy (fresh QUERAL_LOG_BUFFER_SIZE) 0 text) (\<lambda>buffer.
     chk (str_at buffer 0) (\<lambda>message.
     Inr (log_message p message s))))"

definition log_info :: "string \<Rightarrow> arg list \<Rightarrow> sys \<Rightarrow> sys res" where
  "log_info format arguments s = log_write LOG_INFO format arguments s"

definition log_notice :: "string \<Rightarrow> arg list \<Rightarrow> sys \<Rightarrow> sys res" where
  "log_notice format arguments s = log_write LOG_NOTICE format arguments s"

definition log_warning :: "string \<Rightarrow> arg list \<Rightarrow> sys \<Rightarrow> sys res" where
  "log_warning format arguments s = log_write LOG_WARNING format arguments s"

definition log_error :: "string \<Rightarrow> arg list \<Rightarrow> sys \<Rightarrow> sys res" where
  "log_error format arguments s = log_write LOG_ERR format arguments s"

lemmas log_defs [cdefs] = log_info_def log_notice_def log_warning_def log_error_def

section \<open>Lemmas\<close>

subsection \<open>Decimal numerals\<close>

lemma digit_char_digit: "d < 10 \<Longrightarrow> digit_char d \<in> set ''0123456789''"
  unfolding digit_char_def by (rule nth_mem) simp

lemma show_nat_digits: "set (show_nat n) \<subseteq> set ''0123456789''"
proof (induction n rule: show_nat.induct)
  case (1 n)
  show ?case
  proof (cases "n < 10")
    case True
    then show ?thesis
      using digit_char_digit [of n] by (subst show_nat.simps) simp
  next
    case False
    then show ?thesis
      using 1 digit_char_digit [of "n mod 10"] by (subst show_nat.simps) simp
  qed
qed

lemma show_int_chars: "set (show_int i) \<subseteq> insert (CHR ''-'') (set ''0123456789'')"
proof (cases "i < 0")
  case True
  then have "set (show_int i) = insert (CHR ''-'') (set (show_nat (nat (- i))))"
    by (simp only: show_int_def if_True list.set(2))
  then show ?thesis using insert_mono [OF show_nat_digits] by (rule ord_eq_le_trans)
next
  case False
  then have "set (show_int i) = set (show_nat (nat i))"
    by (simp only: show_int_def if_False)
  then show ?thesis
    using subset_trans [OF show_nat_digits subset_insertI] by (rule ord_eq_le_trans)
qed

lemma notin_show_int: "c \<notin> set ''-0123456789'' \<Longrightarrow> c \<notin> set (show_int i)"
  by (rule notI) (drule subsetD [OF show_int_chars], simp)

lemma NUL_notin_show_int [simp]: "NUL \<notin> set (show_int i)"
  and blank_notin_show_int [simp]: "CHR '' '' \<notin> set (show_int i)"
  by (rule notin_show_int, simp)+

lemma length_show_nat: "n < 10 ^ Suc k \<Longrightarrow> length (show_nat n) \<le> Suc k"
proof (induction k arbitrary: n)
  case 0
  then show ?case by (simp add: show_nat.simps)
next
  case (Suc k)
  then have "n div 10 < 10 ^ Suc k" by (simp add: less_mult_imp_div_less)
  then have "length (show_nat (n div 10)) \<le> Suc k" by (rule Suc.IH)
  then show ?case by (subst show_nat.simps) simp
qed

lemma length_show_int: "0 \<le> i \<Longrightarrow> i < 10 ^ Suc k \<Longrightarrow> length (show_int i) \<le> Suc k"
  using length_show_nat [of "nat i" k] by (simp add: show_int_def nat_less_iff)

subsection \<open>Formatting and logging\<close>

lemma printf_from_append:
  "CHR ''%'' \<notin> set f \<Longrightarrow> printf_from (f @ g) args = chk (printf_from g args) (\<lambda>t. Inr (f @ t))"
proof (induction f)
  case Nil
  then show ?case by (cases "printf_from g args") simp_all
next
  case (Cons c f)
  then show ?case by (cases "printf_from g args") auto
qed

text \<open>\<open>log_fits\<close> holds of a call whose formatted text fits the buffer; \<open>logged\<close> is then its
  effect.\<close>

definition log_fits :: "string \<Rightarrow> arg list \<Rightarrow> bool" where
  "log_fits format arguments \<longleftrightarrow>
     (case printf_from format arguments of
        Inl _ \<Rightarrow> False | Inr t \<Rightarrow> NUL \<notin> set t \<and> length t < QUERAL_LOG_BUFFER_SIZE)"

definition logged :: "severity \<Rightarrow> string \<Rightarrow> arg list \<Rightarrow> sys \<Rightarrow> sys" where
  "logged p format arguments s = log_message p (projr (printf_from format arguments)) s"

text \<open>Messages without a directive, and with one number at the end.\<close>

lemma printf_plain: "CHR ''%'' \<notin> set f \<Longrightarrow> printf_from f args = Inr f"
  using printf_from_append [of f "[]" args] by simp

lemma log_fits_plain:
  "CHR ''%'' \<notin> set f \<Longrightarrow> NUL \<notin> set f \<Longrightarrow> length f < QUERAL_LOG_BUFFER_SIZE \<Longrightarrow> log_fits f []"
  by (simp add: log_fits_def printf_plain)

lemma log_fits_number:
  "CHR ''%'' \<notin> set f \<Longrightarrow> NUL \<notin> set f
   \<Longrightarrow> length f + length (show_int i) < QUERAL_LOG_BUFFER_SIZE \<Longrightarrow> log_fits (f @ ''%d'') [AInt i]"
  by (simp add: log_fits_def printf_from_append convert_def)

lemma log_write_fits: "log_fits f args \<Longrightarrow> log_write p f args s = Inr (logged p f args s)"
  by (cases "printf_from f args")
    (simp_all add: log_fits_def log_write_def logged_def strcpy_start)

lemma log_write_overflow:
  assumes "printf_from f args = Inr t" and "QUERAL_LOG_BUFFER_SIZE \<le> length t"
  shows "log_write p f args s = Inl OutOfBounds"
  using assms by (simp add: log_write_def strcpy_start_overflow)

lemma log_message_heap [simp]:
  "live (log_message p m s) = live s" "malloc_plan (log_message p m s) = malloc_plan s"
  "log_upto (log_message p m s) = log_upto s" "plenty (log_message p m s) = plenty s"
  by (simp_all add: log_message_def plenty_def)

lemma logged_heap [simp]:
  "live (logged p f args s) = live s" "malloc_plan (logged p f args s) = malloc_plan s"
  "log_upto (logged p f args s) = log_upto s" "plenty (logged p f args s) = plenty s"
  by (simp_all add: logged_def)

lemma log_write_heap:
  "log_write p f args s = Inr s' \<Longrightarrow> live s' = live s \<and> malloc_plan s' = malloc_plan s"
  by (auto simp: log_write_def chk_eq_Inr_iff)

text \<open>A process state to evaluate on.\<close>

definition sample_sys :: sys where
  "sample_sys = \<lparr>malloc_plan = [], live = 0, log_upto = LOG_INFO, syslog = []\<rparr>"

lemma plenty_sample [simp]: "plenty sample_sys"
  by (simp add: plenty_def sample_sys_def)

section \<open>Properties\<close>

text \<open>
  One formatted message of at most 255 bytes reaches syslog unchanged exactly when its severity
  passes the mask, and every log call leaves the heap alone.
\<close>

lemma log_write_delivers:
  assumes "printf_from format arguments = Inr t" and "NUL \<notin> set t"
    and "length t < QUERAL_LOG_BUFFER_SIZE"
  shows "\<exists>s'. log_write p format arguments s = Inr s'
     \<and> syslog s' = syslog s @ (if p \<le> log_upto s then [(p, t)] else [])
     \<and> log_upto s' = log_upto s \<and> live s' = live s"
proof -
  have "log_fits format arguments" using assms by (simp add: log_fits_def)
  then show ?thesis
    using assms by (simp add: log_write_fits logged_def log_message_def)
qed

end
