(* ===== verification/String_Utils.thy ===== *)
theory String_Utils
  imports Logger
begin

text \<open>
  \<^verbatim>\<open>src/src/string_utils.c\<close>: trimming a string in place, replacing the first occurrence of a
  substring inside a fixed array, and the null-terminated string lists whose entries are heap
  strings. A \<^verbatim>\<open>char **\<close> is \<open>None\<close> (a null pointer) or \<open>Some\<close> of its entries, each of them a null
  pointer or a string.
\<close>

section \<open>Trimming\<close>

function skip_spaces :: "cbuf \<Rightarrow> nat \<Rightarrow> nat res" where
  "skip_spaces b str =
     (case peek b str of
        Inl e \<Rightarrow> Inl e
      | Inr c \<Rightarrow> if isspace c then skip_spaces b (Suc str) else Inr str)"
  by pat_completeness auto
termination
  by (relation "measure (\<lambda>(b, str). length b - str)") (auto dest: peek_in_bounds)

declare skip_spaces.simps [simp del]

text \<open>The loop that moves \<^verbatim>\<open>end\<close> back over white space. \<open>fin\<close> is the offset of \<^verbatim>\<open>end\<close>, an
  integer since the loop's test compares the pointer with the start of the string.\<close>

function trim_end :: "cbuf \<Rightarrow> nat \<Rightarrow> int \<Rightarrow> int res" where
  "trim_end b str fin =
     (if int str \<le> fin then
        (case peek b (nat fin) of
           Inl e \<Rightarrow> Inl e
         | Inr c \<Rightarrow> if isspace c then trim_end b str (fin - 1) else Inr fin)
      else Inr fin)"
  by pat_completeness auto
termination
  by (relation "measure (\<lambda>(b, str, fin). nat (fin - int str + 1))") auto

declare trim_end.simps [simp del]

definition strim :: "cbuf \<Rightarrow> nat \<Rightarrow> (cbuf \<times> nat) res" where
  "strim b str =
     chk (skip_spaces b str) (\<lambda>str.
     chk (strlen b str) (\<lambda>size.
     if size = 0 then Inr (b, str)
     else
       chk (trim_end b str (int str + int size - 1)) (\<lambda>fin.
       chk (put_char b (nat (fin + 1)) NUL) (\<lambda>b.
       Inr (b, str)))))"

subsection \<open>What trimming means\<close>

definition lead :: "string \<Rightarrow> string" where
  "lead s = takeWhile isspace s"

definition trail :: "string \<Rightarrow> string" where
  "trail s = rev (takeWhile isspace (rev (dropWhile isspace s)))"

definition trim :: "string \<Rightarrow> string" where
  "trim s = rev (dropWhile isspace (rev (dropWhile isspace s)))"

lemma trim_decomp: "lead s @ trim s @ trail s = s"
proof -
  have "trim s @ trail s = dropWhile isspace s"
    unfolding trim_def trail_def by (metis rev_append rev_rev_ident takeWhile_dropWhile_id)
  then show ?thesis by (simp add: lead_def)
qed

lemma length_trim_decomp: "length (lead s) + (length (trim s) + length (trail s)) = length s"
  using arg_cong [OF trim_decomp [of s], of length] by simp

lemma set_trim_subset: "set (trim s) \<subseteq> set s"
proof -
  have "set (lead s @ trim s @ trail s) = set s" by (simp only: trim_decomp)
  then show ?thesis by auto
qed

lemma lead_isspace: "c \<in> set (lead s) \<Longrightarrow> isspace c"
  and trail_isspace: "c \<in> set (trail s) \<Longrightarrow> isspace c"
  by (auto simp: lead_def trail_def dest: set_takeWhileD)

lemma NUL_notin_trim [simp]: "NUL \<notin> set s \<Longrightarrow> NUL \<notin> set (trim s)"
  using set_trim_subset by blast

lemma NUL_notin_lead [simp]: "NUL \<notin> set (lead s)"
  and NUL_notin_trail [simp]: "NUL \<notin> set (trail s)"
  using lead_isspace [of NUL s] trail_isspace [of NUL s] by auto

lemma trim_last: "trim s \<noteq> [] \<Longrightarrow> \<not> isspace (last (trim s))"
  unfolding trim_def by (metis hd_dropWhile last_rev rev_is_Nil_conv)

lemma trim_hd: "trim s \<noteq> [] \<Longrightarrow> \<not> isspace (hd (trim s))"
proof -
  assume ne: "trim s \<noteq> []"
  have eq: "dropWhile isspace s = trim s @ trail s"
    using trim_decomp [of s] by (metis append_eq_append_conv lead_def takeWhile_dropWhile_id)
  then have "dropWhile isspace s \<noteq> []" using ne by simp
  then have "\<not> isspace (hd (dropWhile isspace s))" by (rule hd_dropWhile)
  then show ?thesis using eq ne by simp
qed

lemma trim_Nil_iff: "trim s = [] \<longleftrightarrow> (\<forall>c \<in> set s. isspace c)"
proof -
  have "trim s = [] \<longleftrightarrow> (\<forall>c \<in> set (dropWhile isspace s). isspace c)"
    by (simp add: trim_def dropWhile_eq_Nil_conv)
  also have "\<dots> \<longleftrightarrow> dropWhile isspace s = []"
    by (metis hd_dropWhile hd_in_set empty_iff empty_set)
  finally show ?thesis by (simp add: dropWhile_eq_Nil_conv)
qed

lemma trim_Nil_lead: "trim s = [] \<Longrightarrow> lead s = s \<and> trail s = []"
  by (simp add: trim_Nil_iff lead_def trail_def dropWhile_eq_Nil_conv [THEN iffD2])

lemma trim_fixed: "s = [] \<or> \<not> isspace (hd s) \<and> \<not> isspace (last s) \<Longrightarrow> trim s = s"
proof -
  assume s: "s = [] \<or> \<not> isspace (hd s) \<and> \<not> isspace (last s)"
  then have "dropWhile isspace s = s" by (cases s) auto
  moreover have "dropWhile isspace (rev s) = rev s"
    using s by (cases s rule: rev_cases) auto
  ultimately show ?thesis by (simp add: trim_def)
qed

lemma trim_trim [simp]: "trim (trim s) = trim s"
  using trim_hd trim_last by (intro trim_fixed) blast

lemma lead_trim [simp]: "lead (trim s) = []"
  using trim_hd [of s] by (cases "trim s") (simp_all add: lead_def)

subsection \<open>The code trims\<close>

lemma skip_spaces_layout:
  assumes "NUL \<notin> set s"
  shows "skip_spaces (pre @ cells s @ Some NUL # r) (length pre)
       = Inr (length pre + length (lead s))"
  using assms
proof (induction s arbitrary: pre)
  case Nil
  then show ?case by (simp add: skip_spaces.simps lead_def)
next
  case (Cons c s)
  show ?case
  proof (cases "isspace c")
    case True
    have "skip_spaces (pre @ cells (c # s) @ Some NUL # r) (length pre)
        = skip_spaces ((pre @ [Some c]) @ cells s @ Some NUL # r) (length (pre @ [Some c]))"
      using True by (subst skip_spaces.simps) simp
    also have "\<dots> = Inr (length (pre @ [Some c]) + length (lead s))"
      using Cons by (intro Cons.IH) simp
    finally show ?thesis using True by (simp add: lead_def)
  next
    case False
    then show ?thesis by (simp add: skip_spaces.simps lead_def)
  qed
qed

lemma trim_end_layout:
  assumes "t \<noteq> []" and "\<not> isspace (last t)" and "\<forall>c \<in> set w. isspace c"
  shows "trim_end (pre @ cells t @ cells w @ post) (length pre)
           (int (length pre + length t + length w) - 1)
       = Inr (int (length pre + length t) - 1)"
  using assms(3)
proof (induction w arbitrary: post rule: rev_induct)
  case Nil
  obtain t' c where t: "t = t' @ [c]" using assms(1) by (cases t rule: rev_cases) auto
  have "peek (pre @ cells t @ post) (length pre + length t') = Inr c"
    using peek_layout [of "pre @ cells t'" "length pre + length t'" c post] t by simp
  then show ?case
    using assms(2) t by (subst trim_end.simps) (simp add: nat_add_distrib)
next
  case (snoc c w)
  let ?n = "length pre + length t + length w"
  have peek: "peek (pre @ cells t @ cells (w @ [c]) @ post) ?n = Inr c"
    using peek_layout [of "pre @ cells t @ cells w" ?n c post] by simp
  have pos: "int (length pre) \<le> int ?n" by simp
  have "trim_end (pre @ cells t @ cells (w @ [c]) @ post) (length pre) (int ?n)
      = trim_end (pre @ cells t @ cells w @ Some c # post) (length pre) (int ?n - 1)"
    using peek pos snoc.prems by (subst trim_end.simps) (simp del: of_nat_add)
  also have "\<dots> = Inr (int (length pre + length t) - 1)"
    using snoc by simp
  finally show ?case by simp
qed

text \<open>The buffer \<open>strim\<close> leaves: one NUL written after the trimmed text.\<close>

lemma strim_layout:
  assumes "NUL \<notin> set s"
  shows "strim (pre @ cells s @ Some NUL # r) (length pre)
       = Inr (pre @ cells (lead s) @ cells (trim s) @ Some NUL
                  # tl (cells (trail s) @ Some NUL # r),
              length pre + length (lead s))"
proof -
  let ?p = "length pre + length (lead s)" and ?B = "pre @ cells s @ Some NUL # r"
  have B: "?B = (pre @ cells (lead s)) @ cells (trim s) @ cells (trail s) @ Some NUL # r"
    using trim_decomp [of s] by (metis append.assoc map_append)
  have skip: "skip_spaces ?B (length pre) = Inr ?p"
    by (rule skip_spaces_layout [OF assms])
  have "str_at ((pre @ cells (lead s)) @ cells (trim s @ trail s) @ Some NUL # r) ?p
      = Inr (trim s @ trail s)"
    using assms by (intro str_at_layout) simp_all
  then have len: "strlen ?B ?p = Inr (length (trim s) + length (trail s))"
    unfolding B by (simp add: strlen_def)
  show ?thesis
  proof (cases "trim s = []")
    case True
    then show ?thesis using trim_Nil_lead [OF True] len skip by (simp add: strim_def)
  next
    case False
    have "trim_end ((pre @ cells (lead s)) @ cells (trim s) @ cells (trail s) @ Some NUL # r)
            (length (pre @ cells (lead s)))
            (int (length (pre @ cells (lead s)) + length (trim s) + length (trail s)) - 1)
        = Inr (int (length (pre @ cells (lead s)) + length (trim s)) - 1)"
      using False trim_last [OF False] trail_isspace by (intro trim_end_layout) auto
    then have fin: "trim_end ?B ?p (int (?p + (length (trim s) + length (trail s))) - 1)
                  = Inr (int (?p + length (trim s)) - 1)"
      unfolding B by (simp add: algebra_simps)
    obtain x more where tail: "cells (trail s) @ Some NUL # r = x # more"
      by (cases "cells (trail s) @ Some NUL # r") auto
    have "put_char (((pre @ cells (lead s)) @ cells (trim s)) @ x # more)
                 (?p + length (trim s)) NUL
        = Inr (((pre @ cells (lead s)) @ cells (trim s)) @ Some NUL # more)"
      by (intro put_char_layout) simp
    then have put: "put_char ?B (?p + length (trim s)) NUL
        = Inr (pre @ cells (lead s) @ cells (trim s) @ Some NUL # more)"
      unfolding B tail by simp
    have "strim ?B (length pre)
        = Inr (pre @ cells (lead s) @ cells (trim s) @ Some NUL # more, ?p)"
      using False unfolding strim_def skip chk_Inr len
      by (simp add: fin put del: of_nat_add map_append append_assoc flip: of_nat_add)
    then show ?thesis by (simp add: tail)
  qed
qed

section \<open>Replacing a substring\<close>

text \<open>
  \<open>str\<close> is the array (the argument \<^verbatim>\<open>str_length\<close> is its size at both call sites, but the function
  only sees the number). The bound check repeats the source's arithmetic: the length of the copied
  prefix minus itself, plus the replacement, plus what follows the match.
\<close>

definition replace_string :: "cbuf \<Rightarrow> nat \<Rightarrow> string \<Rightarrow> string \<Rightarrow> (int \<times> cbuf) res" where
  "replace_string str str_length original replacement =
     chk (str_at str 0) (\<lambda>s.
     case strstr s original of
       None \<Rightarrow> Inr (0, str)
     | Some found \<Rightarrow>
         if str_length \<le> found then Inr (-1, str)
         else
           chk (strncpy (fresh str_length) 0 s found) (\<lambda>buffer.
           chk (put_char buffer found NUL) (\<lambda>buffer.
           chk (strlen buffer 0) (\<lambda>n.
           let rest = drop (found + length original) s in
           if int str_length \<le> int n - int found + int (length replacement) + int (length rest)
           then Inr (-1, str)
           else
             chk (strcpy buffer found (replacement @ rest)) (\<lambda>buffer.
             chk (str_at buffer 0) (\<lambda>t.
             chk (strcpy str 0 t) (\<lambda>str.
             Inr (1, str))))))))"

text \<open>The substitution it is meant to compute.\<close>

definition replace_at :: "nat \<Rightarrow> string \<Rightarrow> string \<Rightarrow> string \<Rightarrow> string" where
  "replace_at i original replacement s =
     take i s @ replacement @ drop (i + length original) s"

definition replace_first :: "string \<Rightarrow> string \<Rightarrow> string \<Rightarrow> string option" where
  "replace_first original replacement s =
     map_option (\<lambda>i. replace_at i original replacement s) (strstr s original)"

lemma NUL_notin_replace_at:
  "NUL \<notin> set s \<Longrightarrow> NUL \<notin> set replacement \<Longrightarrow> NUL \<notin> set (replace_at i original replacement s)"
  by (auto simp: replace_at_def dest: in_set_takeD in_set_dropD)

lemma length_replace_at:
  "strstr s original = Some i \<Longrightarrow>
   length (replace_at i original replacement s)
     = length s - length original + length replacement"
  using strstr_Some [of s original i] by (auto simp: replace_at_def)

text \<open>The state of the local buffer when the bound is checked.\<close>

lemma replace_prefix:
  assumes "NUL \<notin> set s" and "found < n" and "found \<le> length s"
  shows "chk (strncpy (fresh n) 0 s found) (\<lambda>b. put_char b found NUL)
       = Inr (cells (take found s) @ Some NUL # fresh (n - Suc found))"
proof -
  have "strncpy (fresh n) 0 s found = Inr (cells (take found s) @ fresh (n - found))"
    using assms by (simp add: strncpy_def store_start fresh_def min_def)
  moreover have "fresh (n - found) = None # fresh (n - Suc found)"
    using assms(2) by (simp add: fresh_def flip: replicate_Suc Suc_diff_Suc)
  ultimately show ?thesis
    using assms put_char_layout [of "cells (take found s)" found] by simp
qed

lemma chk_assoc: "chk (chk r f) g = chk r (\<lambda>x. chk (f x) g)"
  by (cases r) simp_all

lemma replace_string_found:
  assumes "NUL \<notin> set s" and i: "strstr s original = Some i" and "i < n"
  shows "replace_string (cells s @ Some NUL # r) n original replacement
     = (let rest = drop (i + length original) s in
        if n \<le> length replacement + length rest
        then Inr (-1, cells s @ Some NUL # r)
        else chk (strcpy (cells (take i s) @ Some NUL # fresh (n - Suc i)) i (replacement @ rest))
          (\<lambda>buffer. chk (str_at buffer 0) (\<lambda>t.
             chk (strcpy (cells s @ Some NUL # r) 0 t) (\<lambda>str. Inr (1, str)))))"
proof -
  have il: "i \<le> length s" using strstr_Some [OF i] by simp
  have nul: "NUL \<notin> set (take i s)" using assms(1) by (meson in_set_takeD)
  show ?thesis
    using assms il nul
    by (simp add: replace_string_def chk_assoc [symmetric] replace_prefix Let_def min_absorb2)
qed

subsection \<open>Every outcome\<close>

lemma replace_found_fits:
  assumes "NUL \<notin> set s" and "NUL \<notin> set replacement"
    and i: "strstr s original = Some i"
    and fits: "length (replace_at i original replacement s) < length str"
    and str: "str_at str 0 = Inr s"
  shows "\<exists>str'. replace_string str (length str) original replacement = Inr (1, str')
     \<and> str_at str' 0 = Inr (replace_at i original replacement s) \<and> length str' = length str"
proof -
  obtain r where b: "str = cells s @ Some NUL # r"
    using str by (auto simp: str_at_def cstr_eq_Inr_iff)
  let ?n = "length str" and ?rest = "drop (i + length original) s"
  let ?t = "replace_at i original replacement s"
  have t: "?t = take i s @ replacement @ ?rest" by (simp add: replace_at_def)
  have il: "i \<le> length s" using strstr_Some [OF i] by simp
  have "i < ?n" and small: "\<not> ?n \<le> length replacement + length ?rest"
    using fits il by (simp_all add: t)
  have nul: "NUL \<notin> set ?t" using assms(1,2) by (rule NUL_notin_replace_at)
  have "strcpy (cells (take i s) @ Some NUL # fresh (?n - Suc i)) i (replacement @ ?rest)
      = Inr (cells ?t @ Some NUL # drop (length replacement + length ?rest) (fresh (?n - Suc i)))"
    using fits il by (simp add: strcpy_def store_def t)
  moreover have "strcpy str 0 ?t = Inr (cells ?t @ Some NUL # drop (Suc (length ?t)) str)"
    using fits by (rule strcpy_start)
  ultimately have "replace_string str ?n original replacement
      = Inr (1, cells ?t @ Some NUL # drop (Suc (length ?t)) str)"
    using replace_string_found [OF assms(1) i \<open>i < ?n\<close>, of r replacement] small nul
    by (simp add: b [symmetric] Let_def)
  then show ?thesis using nul fits by simp
qed

lemma replace_refused:
  assumes "str_at str 0 = Inr s"
  shows "(\<not> sublist original s \<longrightarrow>
            replace_string str n original replacement = Inr (0, str))
       \<and> (\<forall>i. strstr s original = Some i \<longrightarrow>
            n \<le> length replacement + length (drop (i + length original) s) \<longrightarrow>
            replace_string str n original replacement = Inr (-1, str))"
proof -
  obtain r where b: "str = cells s @ Some NUL # r" and nul: "NUL \<notin> set s"
    using assms by (auto simp: str_at_def cstr_eq_Inr_iff)
  have "replace_string str n original replacement = Inr (-1, str)"
    if i: "strstr s original = Some i"
      and big: "n \<le> length replacement + length (drop (i + length original) s)" for i
  proof (cases "i < n")
    case True
    then show ?thesis
      using replace_string_found [OF nul i True, of r replacement] big by (simp add: b Let_def)
  next
    case False
    then show ?thesis using i assms by (simp add: replace_string_def)
  qed
  then show ?thesis
    using assms by (auto simp: replace_string_def simp flip: strstr_None)
qed

lemma replace_found_overflow:
  assumes "str_at str 0 = Inr s" and i: "strstr s original = Some i" and "i < n"
    and "length replacement + length (drop (i + length original) s) < n"
    and "n \<le> length (replace_at i original replacement s)"
  shows "replace_string str n original replacement = Inl OutOfBounds"
proof -
  obtain r where b: "str = cells s @ Some NUL # r" and nul: "NUL \<notin> set s"
    using assms(1) by (auto simp: str_at_def cstr_eq_Inr_iff)
  have "i \<le> length s" using strstr_Some [OF i] by simp
  then have "strcpy (cells (take i s) @ Some NUL # fresh (n - Suc i)) i
               (replacement @ drop (i + length original) s) = Inl OutOfBounds"
    using assms(3,5) by (simp add: strcpy_def store_def replace_at_def)
  then show ?thesis
    using replace_string_found [OF nul i assms(3), of r replacement] assms(4)
    by (simp add: b Let_def)
qed

section \<open>String lists\<close>

type_synonym string_list = "string option list option"

definition init_string_list :: "int \<Rightarrow> 'a heap_scheme \<Rightarrow> string_list \<times> 'a heap_scheme" where
  "init_string_list count h =
     (if count < 1 then (None, h)
      else let (ok, h) = malloc h in
        if \<not> ok then (None, h) else (Some (replicate (nat count) None), h))"

definition dup_string :: "string \<Rightarrow> 'a heap_scheme \<Rightarrow> string option \<times> 'a heap_scheme" where
  "dup_string str h = (let (ok, h) = malloc h in (if ok then Some str else None, h))"

fun free_entries :: "string option list \<Rightarrow> int \<Rightarrow> 'a heap_scheme \<Rightarrow> 'a heap_scheme res" where
  "free_entries [] n h = (if 0 < n then Inl OutOfBounds else Inr h)"
| "free_entries (x # xs) n h =
     (if 0 < n then
        (case x of
           None \<Rightarrow> Inr h
         | Some _ \<Rightarrow> free_entries xs (n - 1) (free_block h))
      else Inr h)"

definition destroy_string_list :: "string_list \<Rightarrow> int \<Rightarrow> 'a heap_scheme \<Rightarrow> 'a heap_scheme res" where
  "destroy_string_list list count h =
     (case list of
        None \<Rightarrow> Inr h
      | Some xs \<Rightarrow> chk (free_entries xs count h) (\<lambda>h. Inr (free_block h)))"

text \<open>The lists the readers build: entries in front, null pointers behind.\<close>

definition packed :: "string option list \<Rightarrow> bool" where
  "packed xs \<longleftrightarrow> (\<exists>ss k. xs = map Some ss @ replicate k None)"

definition entries :: "string option list \<Rightarrow> string list" where
  "entries xs = map the (takeWhile (\<lambda>x. x \<noteq> None) xs)"

lemma entries_packed [simp]: "entries (map Some ss @ replicate k None) = ss"
  by (induction ss) (cases k, simp_all add: entries_def)

lemma free_entries_packed:
  "n = int (length ss + k) \<Longrightarrow>
   free_entries (map Some ss @ replicate k None) n h
     = Inr (h\<lparr>live := live h - int (length ss)\<rparr>)"
proof (induction ss arbitrary: n h)
  case Nil
  then show ?case by (cases k) simp_all
next
  case (Cons s ss)
  then show ?case by (simp add: free_block_def algebra_simps)
qed

lemma destroy_packed:
  "packed xs \<Longrightarrow>
   destroy_string_list (Some xs) (int (length xs)) h
     = Inr (h\<lparr>live := live h - int (length (entries xs)) - 1\<rparr>)"
  by (auto simp: packed_def destroy_string_list_def free_entries_packed free_block_def)

section \<open>Properties\<close>

text \<open>
  C23: The outcome of \<open>replace_string\<close> on every string. No match: 0 and no change. Replacement and
  rest alone exceed the array: -1 and no change. Prefix, replacement and rest fit: 1, and the first
  occurrence is replaced. In between, since the bound check leaves the prefix out, it writes past
  the end of its local buffer.
\<close>

theorem replace_string_outcome:
  assumes "str_at str 0 = Inr s" and "NUL \<notin> set replacement"
  shows "case strstr s original of
       None \<Rightarrow> replace_string str (length str) original replacement = Inr (0, str)
     | Some i \<Rightarrow>
         let t = replace_at i original replacement s in
         if length str \<le> length replacement + length (drop (i + length original) s)
         then replace_string str (length str) original replacement = Inr (-1, str)
         else if length str \<le> length t
         then replace_string str (length str) original replacement = Inl OutOfBounds
         else \<exists>str'. replace_string str (length str) original replacement = Inr (1, str')
           \<and> str_at str' 0 = Inr t \<and> length str' = length str"
proof (cases "strstr s original")
  case None
  then have "\<not> sublist original s" by (simp add: strstr_None)
  then show ?thesis
    using None replace_refused [OF assms(1), of original "length str" replacement] by simp
next
  case (Some i)
  have nul: "NUL \<notin> set s" and less: "length s < length str"
    using assms(1) by (auto simp: str_at_def cstr_eq_Inr_iff)
  have "i < length str" using strstr_Some [OF Some] less by simp
  then show ?thesis
    using Some replace_refused [OF assms(1)] replace_found_overflow [OF assms(1) Some]
      replace_found_fits [OF nul assms(2) Some _ assms(1)]
    by (simp add: Let_def not_le)
qed

theorem replace_string_outcome_witness:
  "(\<exists>str'. replace_string (cells ''$h/x'' @ Some NUL # fresh 7) 12 ''$h'' ''http://a''
       = Inr (1, str') \<and> str_at str' 0 = Inr ''http://a/x'')
   \<and> replace_string (cells ''12345$h'' @ [Some NUL]) 8 ''$h'' ''abc'' = Inl OutOfBounds"
proof -
  let ?b = "cells ''$h/x'' @ Some NUL # fresh 7" and ?c = "cells ''12345$h'' @ [Some NUL]"
  have b: "str_at ?b 0 = Inr ''$h/x''" "NUL \<notin> set ''http://a''" "strstr ''$h/x'' ''$h'' = Some 0"
      "length ?b = 12" "replace_at 0 ''$h'' ''http://a'' ''$h/x'' = ''http://a/x''"
    by code_simp+
  have c: "str_at ?c 0 = Inr ''12345$h''" "NUL \<notin> set ''abc''" "strstr ''12345$h'' ''$h'' = Some 5"
      "length ?c = 8" "replace_at 5 ''$h'' ''abc'' ''12345$h'' = ''12345abc''"
    by code_simp+
  have "replace_string ?c 8 ''$h'' ''abc'' = Inl OutOfBounds"
    using replace_string_outcome [OF c(1,2), of "''$h''", unfolded Let_def c(3) option.case c(4,5)] by simp
  moreover have "\<exists>str'. replace_string ?b 12 ''$h'' ''http://a'' = Inr (1, str')
      \<and> str_at str' 0 = Inr ''http://a/x''"
    using replace_string_outcome [OF b(1,2), of "''$h''", unfolded Let_def b(3) option.case b(4,5)] by auto
  ultimately show ?thesis by blast
qed

end
