(* ===== verification/Command.thy ===== *)
theory Command
  imports String_Utils
begin

text \<open>
  The command language of the daemon: \<^verbatim>\<open>get_command\<close> of \<^verbatim>\<open>src/src/queral.c\<close>, which splits a job
  taken from the queue, such as \<^verbatim>\<open>FETCH http://host/\<close>, into its operation and its argument, inside
  the job's own array.
\<close>

section \<open>The code\<close>

datatype operation = FETCH | CACHE | UPDATE | UNDEFINED

definition FETCH_COMMAND :: string where
  "FETCH_COMMAND = ''FETCH''"

definition CACHE_COMMAND :: string where
  "CACHE_COMMAND = ''CACHE''"

definition UPDATE_COMMAND :: string where
  "UPDATE_COMMAND = ''UPDATE''"

text \<open>\<^verbatim>\<open>memmove(job, strim(job), job_length)\<close>.\<close>

definition trim_job :: "platform \<Rightarrow> cbuf \<Rightarrow> nat \<Rightarrow> cbuf res" where
  "trim_job pl job job_length =
     chk (strim job 0) (\<lambda>(job, p). memmove_within pl job 0 p job_length)"

text \<open>The lines the three commands share: drop the command word, then trim what remains.\<close>

definition redefine_job :: "platform \<Rightarrow> cbuf \<Rightarrow> nat \<Rightarrow> cbuf res" where
  "redefine_job pl job command_length =
     chk (strlen job (command_length - 1)) (\<lambda>job_length.
     chk (memmove_within pl job 0 (command_length - 1) job_length) (\<lambda>job.
     chk (put_char job job_length NUL) (\<lambda>job.
     trim_job pl job job_length)))"

definition get_command :: "platform \<Rightarrow> cbuf \<Rightarrow> cbuf \<Rightarrow> (operation \<times> cbuf \<times> cbuf) res" where
  "get_command pl command job =
     chk (strlen job 0) (\<lambda>job_length.
     chk (trim_job pl job job_length) (\<lambda>job.
     chk (strchr job 0 (CHR '' '')) (\<lambda>found.
     case found of
       None \<Rightarrow> Inr (UNDEFINED, command, job)
     | Some found \<Rightarrow>
         chk (strlen job 0) (\<lambda>job_len.
         chk (strlen job found) (\<lambda>found_len.
         let command_length = job_len - found_len + 1 in
         chk (str_at job 0) (\<lambda>text.
         chk (strncpy command 0 text command_length) (\<lambda>command.
         chk (put_char command (command_length - 1) NUL) (\<lambda>command.
         chk (str_at command 0) (\<lambda>word.
         if word = FETCH_COMMAND then
           chk (redefine_job pl job command_length) (\<lambda>job. Inr (FETCH, command, job))
         else if word = CACHE_COMMAND then
           chk (redefine_job pl job command_length) (\<lambda>job. Inr (CACHE, command, job))
         else if word = UPDATE_COMMAND then
           chk (redefine_job pl job command_length) (\<lambda>job. Inr (UPDATE, command, job))
         else Inr (UNDEFINED, command, job))))))))))"

section \<open>The specification\<close>

text \<open>A job is trimmed and split at its first blank; the argument is trimmed again.\<close>

definition command_word :: "string \<Rightarrow> string" where
  "command_word s = takeWhile (\<lambda>c. c \<noteq> CHR '' '') s"

definition argument :: "string \<Rightarrow> string" where
  "argument s = dropWhile (\<lambda>c. c \<noteq> CHR '' '') s"

definition operation_of :: "string \<Rightarrow> operation" where
  "operation_of w =
     (if w = FETCH_COMMAND then FETCH else if w = CACHE_COMMAND then CACHE
      else if w = UPDATE_COMMAND then UPDATE else UNDEFINED)"

definition parse_job :: "string \<Rightarrow> operation \<times> string" where
  "parse_job s =
     (let t = trim s; op = operation_of (command_word t) in
      if CHR '' '' \<notin> set t \<or> op = UNDEFINED then (UNDEFINED, t)
      else (op, trim (argument t)))"

section \<open>Lemmas\<close>

text \<open>The block reads of \<open>get_command\<close> stay inside the array when the white space that is trimmed
  in front and the text together do.\<close>

definition trim_reads_ok :: "platform \<Rightarrow> nat \<Rightarrow> string \<Rightarrow> bool" where
  "trim_reads_ok pl n s \<longleftrightarrow> over_read pl \<or> length (lead s) + length s \<le> n"

lemma trim_job_layout:
  assumes nul: "NUL \<notin> set s" and ok: "trim_reads_ok pl (length (cells s @ Some NUL # r)) s"
  shows "\<exists>r'. trim_job pl (cells s @ Some NUL # r) (length s)
              = Inr (cells (trim s) @ Some NUL # r')
            \<and> length (cells (trim s) @ Some NUL # r') = length (cells s @ Some NUL # r)"
proof -
  let ?p = "length (lead s)" and ?n = "length s"
  let ?r = "tl (cells (trail s) @ Some NUL # r)"
  let ?b = "cells (lead s) @ cells (trim s) @ Some NUL # ?r"
  have strim: "strim (cells s @ Some NUL # r) 0 = Inr (?b, ?p)"
    using strim_layout [OF nul, of "[]" r] by simp
  have len: "length ?b = length (cells s @ Some NUL # r)"
    using length_trim_decomp [of s] by simp
  show ?thesis
  proof (cases "lead s = [] \<and> trail s = []")
    case True
    then have "trim s = s" using trim_decomp [of s] by simp
    then show ?thesis
      using True strim by (auto simp: trim_job_def memmove_within_def load_def store_def)
  next
    case False
    have "?p \<le> length ?b" and "?n \<le> length ?b" using len by simp_all
    then obtain more
      where move: "memmove_within pl ?b 0 ?p ?n = Inr (take ?n (drop ?p ?b) @ more @ drop ?n ?b)"
        and n: "length (take ?n (drop ?p ?b)) + length more = ?n"
      using memmove_to_front [of pl ?p ?n ?b] ok len by (auto simp: trim_reads_ok_def)
    have "length (trim s) < ?n"
      using False length_trim_decomp [of s] by (cases "lead s") (auto, cases "trail s", auto)
    then have take: "take ?n (drop ?p ?b)
        = cells (trim s) @ Some NUL # take (?n - Suc (length (trim s))) ?r"
      by (simp add: take_Cons')
    have "trim_job pl (cells s @ Some NUL # r) ?n = Inr (take ?n (drop ?p ?b) @ more @ drop ?n ?b)"
      using strim move by (simp add: trim_job_def)
    moreover have "length (take ?n (drop ?p ?b) @ more @ drop ?n ?b)
        = length (cells s @ Some NUL # r)"
      using n len by (simp only: length_append length_drop) simp
    ultimately show ?thesis unfolding take by auto
  qed
qed

lemma trim_job_faults:
  assumes nul: "NUL \<notin> set s" and "\<not> trim_reads_ok pl (length (cells s @ Some NUL # r)) s"
  shows "trim_job pl (cells s @ Some NUL # r) (length s) = Inl OutOfBounds"
proof -
  let ?b = "cells (lead s) @ cells (trim s) @ Some NUL # tl (cells (trail s) @ Some NUL # r)"
  have "strim (cells s @ Some NUL # r) 0 = Inr (?b, length (lead s))"
    using strim_layout [OF nul, of "[]" r] by simp
  moreover have "length ?b = length (cells s @ Some NUL # r)"
    using length_trim_decomp [of s] by simp
  ultimately show ?thesis
    using assms(2) by (simp add: trim_job_def trim_reads_ok_def memmove_faults)
qed

text \<open>The state of the array when \<open>redefine_job\<close> trims it.\<close>

lemma redefine_job_eq:
  assumes nul: "NUL \<notin> set t" and k: "k \<le> length t"
  shows "\<exists>r'. redefine_job pl (cells t @ Some NUL # r) (k + 1)
              = trim_job pl (cells (drop k t) @ Some NUL # r') (length (drop k t))
            \<and> length (cells (drop k t) @ Some NUL # r') = length (cells t @ Some NUL # r)"
proof -
  let ?b = "cells t @ Some NUL # r" and ?n = "length (drop k t)"
  obtain x more where rest: "drop ?n ?b = x # more"
    by (cases "drop ?n ?b") auto
  have "strlen ?b k = Inr ?n"
    using str_at_suffix [OF nul k] by (simp add: strlen_def)
  moreover have "memmove_within pl ?b 0 k ?n = Inr (cells (drop k t) @ x # more)"
    using k rest by (simp add: memmove_within_def load_def store_def drop_map)
  ultimately have "redefine_job pl ?b (k + 1)
      = trim_job pl (cells (drop k t) @ Some NUL # more) ?n"
    using put_char_layout [of "cells (drop k t)" ?n x more NUL]
    by (simp add: redefine_job_def)
  moreover have "?n + length (x # more) = length ?b"
    unfolding rest [symmetric] by simp
  ultimately show ?thesis by auto
qed

definition command_reads_ok :: "platform \<Rightarrow> nat \<Rightarrow> string \<Rightarrow> bool" where
  "command_reads_ok pl n s \<longleftrightarrow>
     trim_reads_ok pl n s
     \<and> (CHR '' '' \<in> set (trim s) \<and> operation_of (command_word (trim s)) \<noteq> UNDEFINED
          \<longrightarrow> trim_reads_ok pl n (argument (trim s)))"

lemma argument_drop: "argument t = drop (length (command_word t)) t"
  by (simp add: argument_def command_word_def dropWhile_eq_drop)

lemma length_command_word: "length (command_word t) \<le> length t"
  by (simp add: command_word_def length_takeWhile_le)

lemma command_word_less: "CHR '' '' \<in> set t \<Longrightarrow> length (command_word t) < length t"
  using arg_cong [OF split_first [of "CHR '' ''" t], of length]
  by (simp add: command_word_def)

lemma NUL_notin_command_word: "NUL \<notin> set t \<Longrightarrow> NUL \<notin> set (command_word t)"
  by (auto simp: command_word_def dest: set_takeWhileD)

text \<open>The command word the code cuts out.\<close>

lemma cut_command_word:
  assumes nul: "NUL \<notin> set t" and blank: "CHR '' '' \<in> set t" and room: "length t < length command"
  defines "k \<equiv> length (command_word t)"
  shows "\<exists>c' r'. strncpy command 0 t (k + 1) = Inr c'
     \<and> put_char c' k NUL = Inr (cells (command_word t) @ Some NUL # r')
     \<and> length (cells (command_word t) @ Some NUL # r') = length command"
proof -
  have k: "k < length t" unfolding k_def by (rule command_word_less [OF blank])
  have "command_word t = take k t"
    unfolding k_def command_word_def by (rule takeWhile_eq_take)
  then have take: "take (k + 1) t = command_word t @ [t ! k]"
    using k by (simp add: take_Suc_conv_app_nth)
  let ?r = "drop (k + 1) command"
  have "cells (take (k + 1) t) @ replicate (k + 1 - length t) (Some NUL)
      = cells (command_word t) @ [Some (t ! k)]" (is "?X = _")
    using k unfolding take by simp
  moreover have "length ?X = k + 1" using k by simp
  ultimately have "strncpy command 0 t (k + 1)
      = Inr ((cells (command_word t) @ [Some (t ! k)]) @ ?r)"
    using k room store_start [of ?X command] unfolding strncpy_def by simp
  then have "strncpy command 0 t (k + 1) = Inr (cells (command_word t) @ Some (t ! k) # ?r)"
    by simp
  moreover have "put_char (cells (command_word t) @ Some (t ! k) # ?r) k NUL
      = Inr (cells (command_word t) @ Some NUL # ?r)"
    by (rule put_char_layout) (simp add: k_def)
  moreover have "length (cells (command_word t) @ Some NUL # ?r) = length command"
    using k room unfolding k_def by simp
  ultimately show ?thesis by blast
qed

text \<open>One equation for the whole of \<open>get_command\<close> once the job is trimmed.\<close>

lemma get_command_trimmed:
  assumes nul: "NUL \<notin> set s" and trimmed: "trim_job pl (cells s @ Some NUL # r) (length s)
      = Inr (cells (trim s) @ Some NUL # r')"
    and room: "length (trim s) < length command"
  shows "if CHR '' '' \<notin> set (trim s)
     then get_command pl command (cells s @ Some NUL # r)
            = Inr (UNDEFINED, command, cells (trim s) @ Some NUL # r')
     else \<exists>c'. str_at c' 0 = Inr (command_word (trim s)) \<and> length c' = length command
       \<and> get_command pl command (cells s @ Some NUL # r)
          = (if operation_of (command_word (trim s)) = UNDEFINED
             then Inr (UNDEFINED, c', cells (trim s) @ Some NUL # r')
             else chk (redefine_job pl (cells (trim s) @ Some NUL # r')
                        (length (command_word (trim s)) + 1))
                   (\<lambda>job. Inr (operation_of (command_word (trim s)), c', job)))"
proof (cases "CHR '' '' \<in> set (trim s)")
  case False
  then show ?thesis using nul trimmed by (simp add: get_command_def)
next
  case True
  let ?t = "trim s" let ?k = "length (command_word ?t)"
  have nt: "NUL \<notin> set ?t" using nul by simp
  obtain c' r'' where c': "strncpy command 0 ?t (?k + 1) = Inr c'"
      "put_char c' ?k NUL = Inr (cells (command_word ?t) @ Some NUL # r'')"
      "length (cells (command_word ?t) @ Some NUL # r'') = length command"
    using cut_command_word [OF nt True room] by blast
  have k: "?k \<le> length ?t" by (rule length_command_word)
  have "strlen (cells ?t @ Some NUL # r') ?k = Inr (length ?t - ?k)"
    using str_at_suffix [OF nt k] by (simp add: strlen_def)
  moreover have "length ?t - (length ?t - ?k) = ?k" using k by simp
  moreover have "str_at (cells (command_word ?t) @ Some NUL # r'') 0 = Inr (command_word ?t)"
    using NUL_notin_command_word [OF nt] by simp
  ultimately show ?thesis
    using True nul nt trimmed c' unfolding get_command_def
    by (auto simp: command_word_def [symmetric] operation_of_def Let_def)
qed

text \<open>Cutting the command word off, with both outcomes.\<close>

lemma redefine_job_total:
  assumes nt: "NUL \<notin> set t" and len: "length (cells t @ Some NUL # r) = n"
    and blank: "CHR '' '' \<in> set t"
  shows "if trim_reads_ok pl n (argument t)
     then \<exists>job'. redefine_job pl (cells t @ Some NUL # r) (length (command_word t) + 1) = Inr job'
       \<and> str_at job' 0 = Inr (trim (argument t)) \<and> length job' = n
     else redefine_job pl (cells t @ Some NUL # r) (length (command_word t) + 1) = Inl OutOfBounds"
proof -
  obtain r' where redefine: "redefine_job pl (cells t @ Some NUL # r) (length (command_word t) + 1)
      = trim_job pl (cells (argument t) @ Some NUL # r') (length (argument t))"
    and len': "length (cells (argument t) @ Some NUL # r') = n"
    using redefine_job_eq [OF nt length_command_word] len unfolding argument_drop by metis
  have na: "NUL \<notin> set (argument t)" using nt by (auto simp: argument_def dest: set_dropWhileD)
  show ?thesis
  proof (cases "trim_reads_ok pl n (argument t)")
    case True
    then obtain r3 where "trim_job pl (cells (argument t) @ Some NUL # r') (length (argument t))
          = Inr (cells (trim (argument t)) @ Some NUL # r3)"
        "length (cells (trim (argument t)) @ Some NUL # r3) = n"
      using trim_job_layout [OF na, of pl r'] len' by auto
    then show ?thesis using True redefine na by simp
  next
    case False
    then show ?thesis using trim_job_faults [OF na, of pl r'] len' redefine by simp
  qed
qed

text \<open>Both outcomes in one lemma: parsed where the reads are in bounds, a fault where not.\<close>

lemma get_command_total:
  assumes job: "str_at job 0 = Inr s" and room: "length s < length command"
  shows "if command_reads_ok pl (length job) s
     then \<exists>command' job'. get_command pl command job = Inr (fst (parse_job s), command', job')
       \<and> str_at job' 0 = Inr (snd (parse_job s))
       \<and> length job' = length job \<and> length command' = length command
       \<and> (if CHR '' '' \<in> set (trim s) then str_at command' 0 = Inr (command_word (trim s))
          else command' = command)
     else get_command pl command job = Inl OutOfBounds"
proof -
  obtain r where b: "job = cells s @ Some NUL # r" and nul: "NUL \<notin> set s"
    using job by (auto simp: str_at_def cstr_eq_Inr_iff)
  let ?t = "trim s" let ?w = "command_word ?t"
  have nt: "NUL \<notin> set ?t" using nul by simp
  have room': "length ?t < length command" using room length_trim_decomp [of s] by simp
  show ?thesis
  proof (cases "trim_reads_ok pl (length job) s")
    case False
    then have "trim_job pl job (length s) = Inl OutOfBounds"
      using trim_job_faults [OF nul] by (simp add: b)
    then show ?thesis
      using False nul by (simp add: command_reads_ok_def get_command_def b)
  next
    case True
    then obtain r' where r': "trim_job pl job (length s) = Inr (cells ?t @ Some NUL # r')"
        "length (cells ?t @ Some NUL # r') = length job"
      using trim_job_layout [OF nul] by (auto simp: b)
    note eq = get_command_trimmed [OF nul r'(1) [unfolded b] room', folded b]
    show ?thesis
    proof (cases "CHR '' '' \<in> set ?t")
      case False
      then show ?thesis using eq True nt r'(2) by (simp add: command_reads_ok_def parse_job_def)
    next
      case blank: True
      then obtain c' where c': "str_at c' 0 = Inr ?w" "length c' = length command"
        and get: "get_command pl command job
          = (if operation_of ?w = UNDEFINED then Inr (UNDEFINED, c', cells ?t @ Some NUL # r')
             else chk (redefine_job pl (cells ?t @ Some NUL # r') (length ?w + 1))
                   (\<lambda>job. Inr (operation_of ?w, c', job)))"
        using eq by auto
      show ?thesis
      proof (cases "operation_of ?w = UNDEFINED")
        case True
        then show ?thesis
          using get c' nt r'(2) blank \<open>trim_reads_ok pl (length job) s\<close>
          by (simp add: command_reads_ok_def parse_job_def)
      next
        case op: False
        then show ?thesis
          using redefine_job_total [OF nt r'(2) blank, of pl] get c' blank True
          by (auto simp: command_reads_ok_def parse_job_def Let_def)
      qed
    qed
  qed
qed

text \<open>Jobs of less than half the array are always safe.\<close>

lemma command_reads_ok_short:
  assumes "2 * length s \<le> n"
  shows "command_reads_ok pl n s"
proof -
  have lead: "length (lead u) \<le> length u" for u :: string
    by (simp add: lead_def length_takeWhile_le)
  have "length (trim s) \<le> length s" using length_trim_decomp [of s] by simp
  moreover have "length (argument (trim s)) \<le> length (trim s)"
    by (simp add: argument_def length_dropWhile_le)
  ultimately show ?thesis
    using assms lead [of s] lead [of "argument (trim s)"]
    by (auto simp: command_reads_ok_def trim_reads_ok_def)
qed

lemma command_reads_ok_permissive [simp]: "over_read pl \<Longrightarrow> command_reads_ok pl n s"
  by (simp add: command_reads_ok_def trim_reads_ok_def)

subsection \<open>Round trip\<close>

lemma trim_padded:
  assumes "\<forall>c \<in> set a. isspace c" and "\<forall>c \<in> set b. isspace c"
    and "u \<noteq> []" and "\<not> isspace (hd u)" and "\<not> isspace (last u)"
  shows "trim (a @ u @ b) = u"
proof -
  obtain c v where u: "u = c # v" using assms(3) by (cases u) auto
  have "dropWhile isspace (a @ u @ b) = u @ b"
    using assms(1,4) u by (simp add: dropWhile_append2)
  moreover have "dropWhile isspace (rev (u @ b)) = rev u"
  proof -
    have "dropWhile isspace (rev b @ rev u) = dropWhile isspace (rev u)"
      using assms(2) by (intro dropWhile_append2) simp
    also have "\<dots> = rev u" using assms(3,5) by (cases u rule: rev_cases) auto
    finally show ?thesis by simp
  qed
  ultimately show ?thesis by (simp add: trim_def)
qed

text \<open>Writing a command and parsing it.\<close>

lemma parse_command:
  assumes "w \<in> {FETCH_COMMAND, CACHE_COMMAND, UPDATE_COMMAND}"
    and "\<forall>c \<in> set a. isspace c" and "\<forall>c \<in> set b. isspace c" and "\<forall>c \<in> set d. isspace c"
    and "u \<noteq> []" and "\<not> isspace (hd u)" and "\<not> isspace (last u)"
  shows "parse_job (a @ w @ CHR '' '' # b @ u @ d) = (operation_of w, u)"
proof -
  have w: "w \<noteq> []" "\<not> isspace (hd w)" "CHR '' '' \<notin> set w" "operation_of w \<noteq> UNDEFINED"
    using assms(1)
    by (auto simp: FETCH_COMMAND_def CACHE_COMMAND_def UPDATE_COMMAND_def isspace_def
        operation_of_def)
  let ?v = "w @ CHR '' '' # b @ u"
  have "trim (a @ ?v @ d) = ?v"
    using assms w by (intro trim_padded) auto
  moreover have "command_word ?v = w" and "argument ?v = CHR '' '' # b @ u"
    using w(3) by (auto simp: command_word_def argument_def takeWhile_append dropWhile_append)
  moreover have "trim ((CHR '' '' # b) @ u @ []) = u"
    using assms by (intro trim_padded) auto
  ultimately show ?thesis using w(4) by (simp add: parse_job_def Let_def)
qed

section \<open>Properties\<close>

text \<open>
  C10: On a job that fits the array \<open>get_command\<close> returns the operation and leaves the argument that
  the specification \<open>parse_job\<close> gives: trimmed text, first blank, known command word, trimmed rest.
\<close>

theorem get_command_parses:
  assumes "str_at job 0 = Inr s" and "length s < length command"
    and "command_reads_ok pl (length job) s"
  shows "\<exists>command' job'. get_command pl command job = Inr (fst (parse_job s), command', job')
     \<and> str_at job' 0 = Inr (snd (parse_job s))
     \<and> length job' = length job \<and> length command' = length command"
  using get_command_total [OF assms(1,2), of pl] assms(3) by auto

theorem get_command_parses_witness:
  "\<exists>command' job'. get_command iso_c (fresh 24) (cells ''  CACHE  http://a '' @ Some NUL # fresh 29)
       = Inr (CACHE, command', job')
     \<and> str_at job' 0 = Inr ''http://a'' \<and> length job' = 48 \<and> length command' = 24"
proof -
  let ?j = "cells ''  CACHE  http://a '' @ Some NUL # fresh 29"
  have a: "str_at ?j 0 = Inr ''  CACHE  http://a ''" by code_simp
  have b: "length ''  CACHE  http://a '' < length (fresh 24)" by code_simp
  have c: "command_reads_ok iso_c (length ?j) ''  CACHE  http://a ''" by code_simp
  have e: "parse_job ''  CACHE  http://a '' = (CACHE, ''http://a'')" "length ?j = 48"
      "length (fresh 24) = 24"
    by code_simp+
  show ?thesis using get_command_parses [OF a b c] unfolding e fst_conv snd_conv .
qed

text \<open>
  \<open>get_command\<close> copies as many bytes as the untrimmed text has, from behind the white space it
  skipped; under ISO C that read leaves the array exactly when white space and text together are
  longer than the array.
\<close>

lemma get_command_overreads:
  assumes "str_at job 0 = Inr s" and "length s < length command"
  shows "get_command iso_c command job = Inl OutOfBounds
     \<longleftrightarrow> \<not> command_reads_ok iso_c (length job) s"
  using get_command_total [OF assms, of iso_c] by (auto split: if_splits)



end
