(* ===== verification/Queue_Interface.thy ===== *)
theory Queue_Interface
  imports Prelude_C
begin

text \<open>
  What the producer (the socket watcher) and the consumers (the worker threads) expect of the job
  queue: a bounded FIFO of strings with status codes. The locale's laws are discharged for the ring
  buffer of \<^verbatim>\<open>queue.c\<close> in theory \<open>Queue\<close>; its lemmas relate whole runs of operations to a list.
\<close>

datatype queue_op = Enqueue string | Dequeue

text \<open>A run of operations by one client, whose \<^verbatim>\<open>char[]\<close> receives what is dequeued; the codes of
  the enqueue operations are collected.\<close>

fun run_queue ::
  "('q \<Rightarrow> string \<Rightarrow> ('q \<times> int) res) \<Rightarrow> ('q \<Rightarrow> cbuf \<Rightarrow> ('q \<times> cbuf) res)
   \<Rightarrow> queue_op list \<Rightarrow> 'q \<Rightarrow> cbuf \<Rightarrow> ('q \<times> cbuf \<times> int list) res" where
  "run_queue enq deq [] q b = Inr (q, b, [])"
| "run_queue enq deq (Enqueue x # ops) q b =
     chk (enq q x) (\<lambda>(q, code).
     chk (run_queue enq deq ops q b) (\<lambda>(q, b, codes). Inr (q, b, code # codes)))"
| "run_queue enq deq (Dequeue # ops) q b =
     chk (deq q b) (\<lambda>(q, b). run_queue enq deq ops q b)"

text \<open>The specification: a list of at most \<open>c\<close> strings and the client's last job. A dequeue from
  an empty queue leaves the last job in place.\<close>

fun spec_queue :: "nat \<Rightarrow> queue_op list \<Rightarrow> string list \<Rightarrow> string option
   \<Rightarrow> string list \<times> string option \<times> int list" where
  "spec_queue c [] xs job = (xs, job, [])"
| "spec_queue c (Enqueue x # ops) xs job =
     (if length xs < c
      then (case spec_queue c ops (xs @ [x]) job of (ys, j, codes) \<Rightarrow> (ys, j, 1 # codes))
      else (case spec_queue c ops xs job of (ys, j, codes) \<Rightarrow> (ys, j, -1 # codes)))"
| "spec_queue c (Dequeue # ops) xs job =
     (case xs of
        [] \<Rightarrow> spec_queue c ops [] job
      | x # xs \<Rightarrow> spec_queue c ops xs (Some x))"

definition op_fits :: "nat \<Rightarrow> queue_op \<Rightarrow> bool" where
  "op_fits width x \<longleftrightarrow> (case x of Enqueue s \<Rightarrow> NUL \<notin> set s \<and> length s < width | Dequeue \<Rightarrow> True)"

definition job_in :: "cbuf \<Rightarrow> string option \<Rightarrow> bool" where
  "job_in b job \<longleftrightarrow> (case job of None \<Rightarrow> True | Some s \<Rightarrow> str_at b 0 = Inr s)"

locale bounded_queue =
  fixes invar :: "'q \<Rightarrow> bool"
    and items :: "'q \<Rightarrow> string list"
    and bound :: "'q \<Rightarrow> nat"
    and width :: nat
    and enq :: "'q \<Rightarrow> string \<Rightarrow> ('q \<times> int) res"
    and deq :: "'q \<Rightarrow> cbuf \<Rightarrow> ('q \<times> cbuf) res"
  assumes items_bound: "invar q \<Longrightarrow> length (items q) \<le> bound q"
    and items_fit: "invar q \<Longrightarrow> x \<in> set (items q) \<Longrightarrow> NUL \<notin> set x \<and> length x < width"
    and enq_room: "invar q \<Longrightarrow> NUL \<notin> set x \<Longrightarrow> length x < width \<Longrightarrow> length (items q) < bound q
      \<Longrightarrow> \<exists>q'. enq q x = Inr (q', 1) \<and> invar q' \<and> items q' = items q @ [x] \<and> bound q' = bound q"
    and enq_full: "invar q \<Longrightarrow> length (items q) = bound q \<Longrightarrow> enq q x = Inr (q, -1)"
    and deq_some: "invar q \<Longrightarrow> items q = x # xs \<Longrightarrow> width \<le> length b
      \<Longrightarrow> \<exists>q' b'. deq q b = Inr (q', b') \<and> invar q' \<and> items q' = xs \<and> bound q' = bound q
            \<and> str_at b' 0 = Inr x \<and> length b' = length b"
    and deq_none: "invar q \<Longrightarrow> items q = [] \<Longrightarrow> deq q b = Inr (q, b)"
begin

lemma run_refines_spec:
  assumes "invar q" and "\<forall>x \<in> set ops. op_fits width x" and "width \<le> length b"
    and "job_in b job"
  shows "\<exists>q' b' job' codes.
     run_queue enq deq ops q b = Inr (q', b', codes)
     \<and> spec_queue (bound q) ops (items q) job = (items q', job', codes)
     \<and> invar q' \<and> bound q' = bound q \<and> job_in b' job' \<and> length b' = length b"
  using assms
proof (induction ops arbitrary: q b job)
  case Nil
  then show ?case by auto
next
  case (Cons x ops)
  have rest: "\<forall>x \<in> set ops. op_fits width x" using Cons.prems(2) by simp
  show ?case
  proof (cases x)
    case (Enqueue s)
    then have s: "NUL \<notin> set s" "length s < width"
      using Cons.prems(2) by (simp_all add: op_fits_def)
    show ?thesis
    proof (cases "length (items q) < bound q")
      case True
      then obtain q' where q': "enq q s = Inr (q', 1)" "invar q'" "items q' = items q @ [s]"
          "bound q' = bound q"
        using enq_room [OF Cons.prems(1) s] by blast
      from Cons.IH [OF q'(2) rest Cons.prems(3,4)] show ?thesis using Enqueue True q' by fastforce
    next
      case False
      then have full: "length (items q) = bound q"
        using items_bound [OF Cons.prems(1)] by simp
      from Cons.IH [OF Cons.prems(1) rest Cons.prems(3,4)] show ?thesis
        using Enqueue False enq_full [OF Cons.prems(1) full, of s] by fastforce
    qed
  next
    case Dequeue
    show ?thesis
    proof (cases "items q")
      case Nil
      then show ?thesis
        using Dequeue deq_none [OF Cons.prems(1) Nil] Cons.IH [OF Cons.prems(1) rest Cons.prems(3,4)]
        by simp
    next
      case (Cons y ys)
      then obtain q' b' where q': "deq q b = Inr (q', b')" "invar q'" "items q' = ys"
          "bound q' = bound q" "str_at b' 0 = Inr y" "length b' = length b"
        using deq_some [OF Cons.prems(1) Cons Cons.prems(3)] by blast
      then have "width \<le> length b'" "job_in b' (Some y)"
        using Cons.prems(3) by (simp_all add: job_in_def)
      then show ?thesis
        using Dequeue Cons q' Cons.IH [OF q'(2) rest, of b' "Some y"] by simp
    qed
  qed
qed

text \<open>Enqueueing several jobs while there is room.\<close>

lemma enq_all:
  assumes "invar q" and "\<forall>x \<in> set xs. NUL \<notin> set x \<and> length x < width"
    and "length (items q) + length xs \<le> bound q"
  shows "\<exists>q'. run_queue enq deq (map Enqueue xs) q b = Inr (q', b, replicate (length xs) 1)
     \<and> invar q' \<and> items q' = items q @ xs \<and> bound q' = bound q"
  using assms
proof (induction xs arbitrary: q)
  case Nil
  then show ?case by simp
next
  case (Cons x xs)
  then obtain q' where q': "enq q x = Inr (q', 1)" "invar q'" "items q' = items q @ [x]"
      "bound q' = bound q"
    using enq_room [of q x] by auto
  moreover obtain q'' where
    "run_queue enq deq (map Enqueue xs) q' b = Inr (q'', b, replicate (length xs) 1)"
    "invar q''" "items q'' = items q' @ xs" "bound q'' = bound q'"
    using Cons.IH [of q'] Cons.prems q' by auto
  ultimately show ?case by simp
qed

end

end
