(* ===== verification/Queue.thy ===== *)
theory Queue
  imports Queue_Interface Logger
begin

text \<open>
  \<^verbatim>\<open>src/src/queue.c\<close>: the ring buffer of jobs. \<open>q_begin\<close> is where the next job is written and
  \<open>q_end\<close> where the next one is read, as in the source. A slot is a heap array of
  \<open>BUFFER_SIZE\<close> bytes, or \<open>None\<close> where \<^verbatim>\<open>malloc\<close> failed. Each operation runs under the queue's own
  mutex, so it is one atomic step here.
\<close>

section \<open>State and operations\<close>

definition BUFFER_SIZE :: nat where
  "BUFFER_SIZE = 255"

record fifo_queue =
  q_buffer :: "cbuf option list"
  capacity :: nat
  occupied :: nat
  q_begin :: nat
  q_end :: nat

fun alloc_slots :: "nat \<Rightarrow> 'a heap_scheme \<Rightarrow> cbuf option list \<times> 'a heap_scheme" where
  "alloc_slots 0 h = ([], h)"
| "alloc_slots (Suc n) h =
     (let (ok, h) = malloc h; (slots, h) = alloc_slots n h
      in ((if ok then Some (fresh BUFFER_SIZE) else None) # slots, h))"

definition fifo_init :: "nat \<Rightarrow> 'a heap_scheme \<Rightarrow> (fifo_queue \<times> 'a heap_scheme) res" where
  "fifo_init c h =
     (let (ok, h) = malloc h in
      if \<not> ok \<and> 0 < c then Inl NullPointer
      else let (slots, h) = alloc_slots c h in
        Inr (\<lparr>q_buffer = slots, capacity = c, occupied = 0, q_begin = 0, q_end = 0\<rparr>, h))"

text \<open>\<^verbatim>\<open>free\<close> of every slot; freeing a null pointer does nothing.\<close>

definition free_slots :: "cbuf option list \<Rightarrow> 'a heap_scheme \<Rightarrow> 'a heap_scheme" where
  "free_slots slots h = h\<lparr>live := live h - int (length (filter (\<lambda>b. b \<noteq> None) slots))\<rparr>"

definition fifo_destroy :: "fifo_queue \<Rightarrow> 'a heap_scheme \<Rightarrow> 'a heap_scheme" where
  "fifo_destroy q h =
     (if occupied q = 0 then free_block h
      else free_block (free_slots (q_buffer q) h))"

text \<open>The address \<^verbatim>\<open>queue->buffer[i]\<close>, and the string it holds.\<close>

definition slot :: "fifo_queue \<Rightarrow> nat \<Rightarrow> cbuf res" where
  "slot q i =
     (if i < length (q_buffer q)
      then (case q_buffer q ! i of None \<Rightarrow> Inl NullPointer | Some b \<Rightarrow> Inr b)
      else Inl OutOfBounds)"

text \<open>The length the code compares with \<open>BUFFER_SIZE\<close> is \<^verbatim>\<open>sizeof (new_element)\<close>, the size of a
  pointer.\<close>

definition sizeof_pointer :: nat where
  "sizeof_pointer = 8"

definition fifo_enqueue :: "fifo_queue \<Rightarrow> string \<Rightarrow> (fifo_queue \<times> int) res" where
  "fifo_enqueue q new_element =
     (let len = sizeof_pointer in
      if len \<le> BUFFER_SIZE \<and> occupied q < capacity q then
        chk (slot q (q_begin q)) (\<lambda>b.
        chk (strcpy b 0 new_element) (\<lambda>b.
        Inr (q\<lparr>q_buffer := (q_buffer q)[q_begin q := Some b],
               occupied := occupied q + 1,
               q_begin := (q_begin q + 1) mod capacity q\<rparr>, 1)))
      else Inr (q, -1))"

definition fifo_dequeue :: "fifo_queue \<Rightarrow> cbuf \<Rightarrow> (fifo_queue \<times> cbuf) res" where
  "fifo_dequeue q next_element =
     (if 0 < occupied q then
        chk (slot q (q_end q)) (\<lambda>b.
        chk (str_at b 0) (\<lambda>s.
        chk (strcpy next_element 0 s) (\<lambda>next_element.
        Inr (q\<lparr>q_end := (q_end q + 1) mod capacity q, occupied := occupied q - 1\<rparr>,
             next_element))))
      else Inr (q, next_element))"

section \<open>Abstraction and invariant\<close>

definition slot_string :: "fifo_queue \<Rightarrow> nat \<Rightarrow> string res" where
  "slot_string q i = chk (slot q i) (\<lambda>b. str_at b 0)"

definition ring_index :: "fifo_queue \<Rightarrow> nat \<Rightarrow> nat" where
  "ring_index q k = (q_end q + k) mod capacity q"

definition fifo_list :: "fifo_queue \<Rightarrow> string list" where
  "fifo_list q = map (\<lambda>k. projr (slot_string q (ring_index q k))) [0..<occupied q]"

definition slots_ok :: "fifo_queue \<Rightarrow> bool" where
  "slots_ok q \<longleftrightarrow> length (q_buffer q) = capacity q
     \<and> (\<forall>b \<in> set (q_buffer q). \<exists>c. b = Some c \<and> length c = BUFFER_SIZE)"

definition fifo_wf :: "fifo_queue \<Rightarrow> bool" where
  "fifo_wf q \<longleftrightarrow> 0 < capacity q \<and> slots_ok q \<and> occupied q \<le> capacity q
     \<and> q_end q < capacity q \<and> q_begin q = ring_index q (occupied q)
     \<and> (\<forall>k < occupied q. \<exists>s. slot_string q (ring_index q k) = Inr s)"

section \<open>Lemmas\<close>

lemma ring_index_less [simp]: "0 < capacity q \<Longrightarrow> ring_index q k < capacity q"
  by (simp add: ring_index_def)

lemma mod_add_left_inj_le:
  fixes c e k l :: nat
  assumes "(e + l) mod c = (e + k) mod c" and "k \<le> l" and "l < c"
  shows "l = k"
proof -
  have "c dvd (e + l) - (e + k)"
    using assms(1,2) by (subst mod_eq_dvd_iff_nat [symmetric]) simp_all
  then have "c dvd l - k" by simp
  then show ?thesis using assms(2,3) by (auto dest!: dvd_imp_le)
qed

lemma mod_add_left_inj:
  fixes c e k l :: nat
  assumes "(e + k) mod c = (e + l) mod c" and "k < c" and "l < c"
  shows "k = l"
  using assms mod_add_left_inj_le [of e k c l] mod_add_left_inj_le [of e l c k]
  by (cases "k \<le> l") simp_all

lemma ring_index_inj:
  "ring_index q k = ring_index q l \<Longrightarrow> k < capacity q \<Longrightarrow> l < capacity q \<Longrightarrow> k = l"
  unfolding ring_index_def by (rule mod_add_left_inj)

lemma slot_ok:
  assumes "slots_ok q" and "i < capacity q"
  obtains b where "slot q i = Inr b" and "length b = BUFFER_SIZE" and "q_buffer q ! i = Some b"
proof -
  have i: "i < length (q_buffer q)" using assms by (simp add: slots_ok_def)
  then have "q_buffer q ! i \<in> set (q_buffer q)" by simp
  then obtain b where "q_buffer q ! i = Some b" "length b = BUFFER_SIZE"
    using assms(1) by (auto simp: slots_ok_def)
  then show ?thesis using that i by (simp add: slot_def)
qed

lemma length_fifo_list [simp]: "length (fifo_list q) = occupied q"
  by (simp add: fifo_list_def)

lemma str_at_0_D: "str_at b 0 = Inr s \<Longrightarrow> NUL \<notin> set s \<and> length s < length b"
  by (auto simp: str_at_def cstr_eq_Inr_iff)

lemma fifo_list_fit:
  assumes "fifo_wf q" and "x \<in> set (fifo_list q)"
  shows "NUL \<notin> set x \<and> length x < BUFFER_SIZE"
proof -
  obtain k where k: "k < occupied q" and x: "x = projr (slot_string q (ring_index q k))"
    using assms(2) by (auto simp: fifo_list_def)
  obtain s where s: "slot_string q (ring_index q k) = Inr s"
    using assms(1) k by (auto simp: fifo_wf_def)
  obtain b where "slot q (ring_index q k) = Inr b" "length b = BUFFER_SIZE"
    using assms(1) slot_ok [of q "ring_index q k"] by (auto simp: fifo_wf_def)
  then show ?thesis using s x str_at_0_D [of b s] by (simp add: slot_string_def)
qed

subsection \<open>Enqueue and dequeue\<close>

lemma fifo_enqueue_step:
  assumes wf: "fifo_wf q" and room: "occupied q < capacity q"
    and x: "NUL \<notin> set x" "length x < BUFFER_SIZE"
  shows "\<exists>q'. fifo_enqueue q x = Inr (q', 1) \<and> fifo_wf q'
     \<and> fifo_list q' = fifo_list q @ [x] \<and> capacity q' = capacity q"
proof -
  have pos: "0 < capacity q" and ok: "slots_ok q" and qb: "q_begin q = ring_index q (occupied q)"
    using wf by (simp_all add: fifo_wf_def)
  obtain b where b: "slot q (q_begin q) = Inr b" "length b = BUFFER_SIZE"
    using slot_ok [OF ok, of "q_begin q"] pos qb by auto
  define b' where "b' = cells x @ Some NUL # drop (Suc (length x)) b"
  define q' where "q' = q\<lparr>q_buffer := (q_buffer q)[q_begin q := Some b'],
     occupied := occupied q + 1, q_begin := (q_begin q + 1) mod capacity q\<rparr>"
  have b': "length b' = BUFFER_SIZE" "str_at b' 0 = Inr x"
    using x b(2) by (simp_all add: b'_def)
  have enq: "fifo_enqueue q x = Inr (q', 1)"
    using room b x by (simp add: fifo_enqueue_def sizeof_pointer_def BUFFER_SIZE_def strcpy_start
        q'_def b'_def)
  have ri: "ring_index q' = ring_index q" by (simp add: fun_eq_iff ring_index_def q'_def)
  have len: "length (q_buffer q) = capacity q" using ok by (simp add: slots_ok_def)
  have other: "slot_string q' (ring_index q k) = slot_string q (ring_index q k)"
    if "k < occupied q" for k
  proof -
    have "ring_index q k \<noteq> q_begin q"
      using that room ring_index_inj [of q k "occupied q"] by (auto simp: qb)
    then show ?thesis by (simp add: slot_string_def slot_def q'_def)
  qed
  have new: "slot_string q' (ring_index q (occupied q)) = Inr x"
    using pos len b' by (simp add: slot_string_def slot_def q'_def qb)
  have "slots_ok q'"
    using ok b' unfolding slots_ok_def q'_def
    by (auto dest: subsetD [OF set_update_subset_insert])
  moreover have "q_begin q' = ring_index q (occupied q')"
    by (simp add: q'_def qb ring_index_def mod_Suc_eq)
  ultimately have "fifo_wf q'"
    using wf room other new unfolding fifo_wf_def ri
    by (auto simp: q'_def less_Suc_eq)
  moreover have "fifo_list q' = fifo_list q @ [x]"
    using other new unfolding fifo_list_def ri by (simp add: q'_def)
  ultimately show ?thesis using enq by (auto simp: q'_def)
qed

lemma fifo_dequeue_step:
  assumes wf: "fifo_wf q" and items: "fifo_list q = x # xs" and b: "BUFFER_SIZE \<le> length b"
  shows "\<exists>q' b'. fifo_dequeue q b = Inr (q', b') \<and> fifo_wf q' \<and> fifo_list q' = xs
     \<and> capacity q' = capacity q \<and> str_at b' 0 = Inr x \<and> length b' = length b"
proof -
  have occ: "0 < occupied q" using arg_cong [OF items, of length] by simp
  have pos: "0 < capacity q" using wf by (simp add: fifo_wf_def)
  obtain s where s: "slot_string q (ring_index q 0) = Inr s"
    using wf occ by (auto simp: fifo_wf_def)
  have up: "[0..<occupied q] = 0 # map Suc [0..<occupied q - 1]"
    using occ by (metis One_nat_def Suc_pred map_Suc_upt upt_conv_Cons)
  have x: "s = x" and xs: "map (\<lambda>k. projr (slot_string q (ring_index q (Suc k)))) [0..<occupied q - 1] = xs"
    using items s unfolding fifo_list_def up by (simp_all add: o_def)
  have qe: "q_end q = ring_index q 0" using wf by (simp add: ring_index_def fifo_wf_def)
  obtain c where c: "slot q (q_end q) = Inr c" "str_at c 0 = Inr x"
    using s x unfolding qe slot_string_def by (auto simp: chk_eq_Inr_iff)
  have fit: "NUL \<notin> set x" "length x < BUFFER_SIZE"
    using fifo_list_fit [OF wf, of x] items by simp_all
  define q' where "q' = q\<lparr>q_end := (q_end q + 1) mod capacity q, occupied := occupied q - 1\<rparr>"
  define b' where "b' = cells x @ Some NUL # drop (Suc (length x)) b"
  have deq: "fifo_dequeue q b = Inr (q', b')"
    using occ c fit b by (simp add: fifo_dequeue_def strcpy_start q'_def b'_def)
  have ri: "ring_index q' k = ring_index q (Suc k)" for k
    by (simp add: ring_index_def q'_def mod_Suc_eq mod_add_left_eq flip: add_Suc)
  have ss: "slot_string q' = slot_string q"
    by (simp add: fun_eq_iff slot_string_def slot_def q'_def)
  have "\<exists>s. slot_string q (ring_index q (Suc k)) = Inr s" if "k < occupied q - 1" for k
    using wf that unfolding fifo_wf_def by simp
  then have "fifo_wf q'"
    using wf occ pos unfolding fifo_wf_def ri ss
    by (auto simp: q'_def slots_ok_def ring_index_def)
  moreover have "fifo_list q' = xs"
    using xs unfolding fifo_list_def ri ss by (simp add: q'_def)
  moreover have "str_at b' 0 = Inr x" "length b' = length b"
    using fit b by (simp_all add: b'_def)
  ultimately show ?thesis using deq by (auto simp: q'_def)
qed

text \<open>The ring buffer meets the contract of a bounded queue.\<close>

interpretation ring: bounded_queue fifo_wf fifo_list capacity BUFFER_SIZE fifo_enqueue fifo_dequeue
proof unfold_locales
  fix q x assume "fifo_wf q" "length (fifo_list q) = capacity q"
  then show "fifo_enqueue q x = Inr (q, -1)" by (simp add: fifo_enqueue_def)
next
  fix q :: fifo_queue and b :: cbuf
  assume "fifo_wf q" "fifo_list q = []"
  then have "occupied q = 0" using length_fifo_list [of q] by simp
  then show "fifo_dequeue q b = Inr (q, b)" by (simp add: fifo_dequeue_def)
qed (simp_all add: fifo_enqueue_step fifo_dequeue_step fifo_list_fit,
    simp_all add: fifo_wf_def)

subsection \<open>Initialisation\<close>

lemma alloc_slots_plenty:
  "plenty h \<Longrightarrow> alloc_slots n h
     = (replicate n (Some (fresh BUFFER_SIZE)), h\<lparr>live := live h + int n\<rparr>)"
  by (induction n arbitrary: h) simp_all

lemma fifo_init_plenty:
  assumes "plenty h" and "0 < c"
  shows "\<exists>q. fifo_init c h = Inr (q, h\<lparr>live := live h + int c + 1\<rparr>) \<and> fifo_wf q
     \<and> fifo_list q = [] \<and> capacity q = c"
  using assms
  by (simp add: fifo_init_def alloc_slots_plenty fifo_wf_def slots_ok_def ring_index_def
      fifo_list_def algebra_simps)

lemma slots_ok_free:
  assumes "slots_ok q"
  shows "free_slots (q_buffer q) h = h\<lparr>live := live h - int (capacity q)\<rparr>"
proof -
  have "filter (\<lambda>b. b \<noteq> None) (q_buffer q) = q_buffer q"
    using assms by (intro filter_True) (auto simp: slots_ok_def)
  then show ?thesis using assms by (simp only: free_slots_def slots_ok_def)
qed

text \<open>Queues to evaluate on: one slot, empty and holding one job.\<close>

definition sample_queue :: fifo_queue where
  "sample_queue = \<lparr>q_buffer = [Some (fresh BUFFER_SIZE)], capacity = 1, occupied = 0,
     q_begin = 0, q_end = 0\<rparr>"

lemma sample_queue_wf: "fifo_wf sample_queue" "fifo_list sample_queue = []"
    "capacity sample_queue = 1" "occupied sample_queue = 0"
  by (simp_all add: sample_queue_def fifo_wf_def slots_ok_def ring_index_def fifo_list_def)

definition sample_queue_2 :: fifo_queue where
  "sample_queue_2 = \<lparr>q_buffer = [Some (fresh BUFFER_SIZE), Some (fresh BUFFER_SIZE)],
     capacity = 2, occupied = 0, q_begin = 0, q_end = 0\<rparr>"

lemma sample_queue_2_wf: "fifo_wf sample_queue_2" "fifo_list sample_queue_2 = []"
    "capacity sample_queue_2 = 2" "occupied sample_queue_2 = 0"
  by (simp_all add: sample_queue_2_def fifo_wf_def slots_ok_def ring_index_def fifo_list_def)

section \<open>Properties\<close>

text \<open>
  C5: Whatever the order of enqueue and dequeue operations, the ring buffer that \<open>fifo_init\<close> set
  up behaves as a list of at most \<open>capacity\<close> jobs: same status codes, same jobs in the same order,
  no access outside a slot.
\<close>

theorem fifo_refines_list:
  assumes "plenty h" and "0 < c" and "\<forall>x \<in> set ops. op_fits BUFFER_SIZE x"
  shows "\<exists>q h' q' b' codes jobs job.
     fifo_init c h = Inr (q, h')
     \<and> run_queue fifo_enqueue fifo_dequeue ops q (fresh BUFFER_SIZE) = Inr (q', b', codes)
     \<and> spec_queue c ops [] None = (jobs, job, codes)
     \<and> fifo_wf q' \<and> fifo_list q' = jobs \<and> job_in b' job"
proof -
  obtain q h' where q: "fifo_init c h = Inr (q, h')" "fifo_wf q" "fifo_list q = []"
      "capacity q = c"
    using fifo_init_plenty [OF assms(1,2)] by blast
  have "job_in (fresh BUFFER_SIZE) None" by (simp add: job_in_def)
  then show ?thesis
    using ring.run_refines_spec [OF q(2) assms(3), of "fresh BUFFER_SIZE" None] q
    by fastforce
qed

theorem fifo_refines_list_witness:
  "\<exists>q h' q' b' codes jobs job.
     fifo_init 2 sample_sys = Inr (q, h')
     \<and> run_queue fifo_enqueue fifo_dequeue
         [Enqueue ''FETCH a'', Enqueue ''FETCH b'', Enqueue ''FETCH c'', Dequeue] q
         (fresh BUFFER_SIZE) = Inr (q', b', codes)
     \<and> spec_queue 2 [Enqueue ''FETCH a'', Enqueue ''FETCH b'', Enqueue ''FETCH c'', Dequeue] [] None
         = (jobs, job, codes)
     \<and> fifo_wf q' \<and> fifo_list q' = jobs \<and> job_in b' job"
proof -
  let ?ops = "[Enqueue ''FETCH a'', Enqueue ''FETCH b'', Enqueue ''FETCH c'', Dequeue]"
  have fits: "\<forall>x \<in> set ?ops. op_fits BUFFER_SIZE x" by code_simp
  show ?thesis by (rule fifo_refines_list [OF plenty_sample _ fits]) simp
qed

text \<open>
  The guard of \<open>fifo_enqueue\<close> compares the size of a pointer, not the length of the job: a job
  of \<open>BUFFER_SIZE\<close> bytes or more overruns its slot whenever there is room.
\<close>

lemma fifo_enqueue_length_unchecked:
  assumes "fifo_wf q" and "occupied q < capacity q" and "BUFFER_SIZE \<le> length x"
  shows "fifo_enqueue q x = Inl OutOfBounds"
proof -
  have "slots_ok q" "q_begin q < capacity q"
    using assms(1) by (auto simp: fifo_wf_def)
  then obtain b where "slot q (q_begin q) = Inr b" "length b = BUFFER_SIZE"
    using slot_ok by blast
  then show ?thesis
    using assms(2,3)
    by (simp add: fifo_enqueue_def sizeof_pointer_def BUFFER_SIZE_def strcpy_start_overflow)
qed

text \<open>
  Destroying a queue releases its array and its slots when jobs are left in it, and leaks every
  slot when it is empty.
\<close>

lemma fifo_destroy_releases:
  assumes "fifo_wf q"
  shows "live (fifo_destroy q h)
     = live h - 1 - (if fifo_list q = [] then 0 else int (capacity q))"
proof -
  have "slots_ok q" using assms by (simp add: fifo_wf_def)
  moreover have "fifo_list q = [] \<longleftrightarrow> occupied q = 0"
    by (metis length_0_conv length_fifo_list)
  ultimately show ?thesis
    by (simp add: fifo_destroy_def slots_ok_free free_block_def)
qed

end
