(* ===== verification/Socket.thy ===== *)
theory Socket
  imports Queue String_Utils
begin

text \<open>
  The socket watcher of \<^verbatim>\<open>src/src/queral.c\<close>, run in the main thread whenever the FIFO becomes
  readable: \<open>should_socket_worker_run\<close>, \<open>socket_cb\<close>, and \<open>write_fifo\<close>, by which the workers and the
  signal handler feed the same FIFO. \<open>socket_cb\<close> cuts what it reads into lines, keeps an unfinished
  line in \<open>cache_buffer\<close> and enqueues every finished one as a job.
\<close>

section \<open>State\<close>

text \<open>What the threads share under \<^verbatim>\<open>mutex\<close>, and the watcher's own data. \<open>loop_running\<close> and
  \<open>fifo_linked\<close> stand for the event loop and the FIFO's name in the file system.\<close>

record shared =
  queue :: fifo_queue
  url_count :: int
  should_run :: bool

record socket_worker_t =
  loop_running :: bool
  fifo_linked :: bool
  fifo_filename :: string
  read_buffer :: cbuf
  cache_buffer :: cbuf

section \<open>The code\<close>

definition should_socket_worker_run ::
  "int \<Rightarrow> socket_worker_t \<Rightarrow> shared \<Rightarrow> bool \<times> socket_worker_t \<times> shared" where
  "should_socket_worker_run workers_count w sh =
     (if \<not> should_run sh
      then (should_run sh, w\<lparr>loop_running := False, fifo_linked := False\<rparr>,
            sh\<lparr>url_count := url_count sh + int (nat workers_count)\<rparr>)
      else (should_run sh, w, sh))"

text \<open>
  One round of the \<^verbatim>\<open>while (found)\<close> loop, for a newline at offset \<open>found\<close>. The first component of
  the result says whether the callback returns from inside the loop. \<open>enqueue_line\<close> is its second
  half, entered with the finished line in \<open>cb\<close>.
\<close>

definition enqueue_line ::
  "platform \<Rightarrow> nat \<Rightarrow> nat \<Rightarrow> cbuf \<Rightarrow> cbuf \<Rightarrow> shared \<Rightarrow> sys
   \<Rightarrow> (bool \<times> cbuf \<times> cbuf \<times> shared \<times> sys) res" where
  "enqueue_line pl found buffer_length rb cb sh sy =
     chk (str_at cb 0) (\<lambda>line.
     chk (fifo_enqueue (queue sh) line) (\<lambda>(q, code).
     if code = -1 then
       chk (memset cb NUL BUFFER_SIZE) (\<lambda>cb.
       chk (log_warning ''Queue is full'' [] sy) (\<lambda>sy.
       Inr (True, rb, cb, sh\<lparr>queue := q\<rparr>, sy)))
     else
       let sh = sh\<lparr>queue := q, url_count := url_count sh + 1\<rparr> in
       chk (strlen rb 0) (\<lambda>read_len.
       if buffer_length < read_len then
         chk (strcpy_within pl rb 0 (found + 1)) (\<lambda>rb.
         chk (memset cb NUL BUFFER_SIZE) (\<lambda>cb.
         Inr (False, rb, cb, sh, sy)))
       else
         chk (memset rb NUL BUFFER_SIZE) (\<lambda>rb.
         chk (memset cb NUL BUFFER_SIZE) (\<lambda>cb.
         Inr (False, rb, cb, sh, sy))))))"

definition socket_line ::
  "platform \<Rightarrow> nat \<Rightarrow> cbuf \<Rightarrow> cbuf \<Rightarrow> shared \<Rightarrow> sys
   \<Rightarrow> (bool \<times> cbuf \<times> cbuf \<times> shared \<times> sys) res" where
  "socket_line pl found rb cb sh sy =
     chk (strlen rb 0) (\<lambda>read_len.
     chk (strlen rb found) (\<lambda>found_len.
     let buffer_length = read_len - found_len + 1 in
     chk (strlen cb 0) (\<lambda>cache_len.
     if BUFFER_SIZE < cache_len + buffer_length then
       chk (memset cb NUL BUFFER_SIZE) (\<lambda>cb.
       chk (log_error ''Parse failed, buffer overflow'' [] sy) (\<lambda>sy.
       Inr (True, rb, cb, sh, sy)))
     else
       chk (str_at rb 0) (\<lambda>content.
       chk (strncat cb content buffer_length) (\<lambda>cb.
       chk (strlen cb 0) (\<lambda>cache_len.
       chk (put_char cb (cache_len - 1) NUL) (\<lambda>cb.
       enqueue_line pl found buffer_length rb cb sh sy)))))))"

text \<open>Each round shortens the text in \<open>read_buffer\<close>, so the loop ends.\<close>

definition text_length :: "cbuf \<Rightarrow> nat" where
  "text_length b = (case str_at b 0 of Inl _ \<Rightarrow> 0 | Inr s \<Rightarrow> length s)"

lemma strcpy_within_front:
  assumes "str_at b 0 = Inr s" and "p \<le> length s" and "strcpy_within pl b 0 p = Inr b'"
  shows "str_at b' 0 = Inr (drop p s) \<and> length b' = length b"
proof -
  obtain r where b: "b = cells s @ Some NUL # r" and nul: "NUL \<notin> set s"
    using assms(1) by (auto simp: str_at_def cstr_eq_Inr_iff)
  have at: "str_at b p = Inr (drop p s)" unfolding b by (rule str_at_suffix [OF nul assms(2)])
  have "strcpy b 0 (drop p s) = Inr (cells (drop p s) @ Some NUL # drop (Suc (length (drop p s))) b)"
    by (rule strcpy_start) (simp add: b)
  then have "b' = cells (drop p s) @ Some NUL # drop (Suc (length (drop p s))) b"
    using assms(3) at by (auto simp: strcpy_within_def split: if_splits)
  moreover have "NUL \<notin> set (drop p s)" using nul by (meson in_set_dropD)
  ultimately show ?thesis by (simp add: b)
qed

lemma strlen_eq_Inr: "strlen b p = Inr n \<longleftrightarrow> (\<exists>s. str_at b p = Inr s \<and> length s = n)"
  by (auto simp: strlen_def chk_eq_Inr_iff)

lemma strchr_eq_Some:
  "strchr b 0 c = Inr (Some i) \<longleftrightarrow>
   (\<exists>s. str_at b 0 = Inr s \<and> c \<in> set s \<and> i = length (takeWhile (\<lambda>x. x \<noteq> c) s))"
  by (auto simp: strchr_def chk_eq_Inr_iff)

lemma first_occurrence_less:
  "c \<in> set s \<Longrightarrow> length (takeWhile (\<lambda>x. x \<noteq> c) s) < length s"
  using arg_cong [OF split_first [of c s], of length] by simp

lemma socket_line_shrinks:
  assumes found: "strchr rb 0 newline = Inr (Some found)"
    and line: "socket_line pl found rb cb sh sy = Inr (False, rb', cb', sh', sy')"
  shows "text_length rb' < text_length rb"
proof -
  obtain s where s: "str_at rb 0 = Inr s" and nl: "newline \<in> set s"
      and i: "found = length (takeWhile (\<lambda>x. x \<noteq> newline) s)"
    using found by (auto simp: strchr_eq_Some)
  have less: "found < length s" using first_occurrence_less [OF nl] i by simp
  have "text_length rb' < length s"
    if copy: "strcpy_within pl rb 0 (found + 1) = Inr rb'"
  proof -
    have "str_at rb' 0 = Inr (drop (found + 1) s)"
      using strcpy_within_front [OF s _ copy] less by simp
    then show ?thesis using less by (simp add: text_length_def)
  qed
  moreover have "text_length rb' < length s" if "memset rb NUL BUFFER_SIZE = Inr rb'"
  proof -
    have "str_at rb' 0 = Inr []"
      using that by (auto simp: memset_def store_def str_at_def BUFFER_SIZE_def
          numeral_eq_Suc split: if_splits)
    then show ?thesis using less by (auto simp: text_length_def)
  qed
  ultimately show ?thesis
    using line s
    by (auto simp: socket_line_def enqueue_line_def chk_eq_Inr_iff text_length_def Let_def
        split: if_splits)
qed

function socket_loop ::
  "platform \<Rightarrow> cbuf \<Rightarrow> cbuf \<Rightarrow> shared \<Rightarrow> sys \<Rightarrow> (bool \<times> cbuf \<times> cbuf \<times> shared \<times> sys) res" where
  "socket_loop pl rb cb sh sy =
     (case strchr rb 0 newline of
        Inl e \<Rightarrow> Inl e
      | Inr None \<Rightarrow> Inr (False, rb, cb, sh, sy)
      | Inr (Some found) \<Rightarrow>
          (case socket_line pl found rb cb sh sy of
             Inl e \<Rightarrow> Inl e
           | Inr (returned, rb, cb, sh, sy) \<Rightarrow>
               if returned then Inr (True, rb, cb, sh, sy) else socket_loop pl rb cb sh sy))"
  by pat_completeness auto
termination
  by (relation "measure (\<lambda>(pl, rb, cb, sh, sy). text_length rb)")
    (auto dest: socket_line_shrinks)

declare socket_loop.simps [simp del]

text \<open>What \<^verbatim>\<open>read\<close> delivers: an error, or the bytes it stored (none when the FIFO was closed).\<close>

datatype read_result = ReadError | ReadBytes string

text \<open>\<open>socket_read\<close> is the callback behind its check of \<^verbatim>\<open>should_run\<close>.\<close>

definition socket_read ::
  "platform \<Rightarrow> read_result \<Rightarrow> socket_worker_t \<Rightarrow> shared \<Rightarrow> sys \<Rightarrow> (socket_worker_t \<times> shared \<times> sys) res" where
  "socket_read pl incoming w sh sy =
     (case incoming of
        ReadError \<Rightarrow> Inr (w, sh, sy)
      | ReadBytes bytes \<Rightarrow>
          if bytes = [] then Inr (w, sh, sy)
          else
            chk (store (read_buffer w) 0 (cells bytes)) (\<lambda>rb.
            chk (put_char rb (length bytes) NUL) (\<lambda>rb.
            chk (socket_loop pl rb (cache_buffer w) sh sy) (\<lambda>(returned, rb, cb, sh, sy).
            if returned then Inr (w\<lparr>read_buffer := rb, cache_buffer := cb\<rparr>, sh, sy)
            else
              chk (str_at rb 0) (\<lambda>rest.
              if 0 < length rest then
                chk (strcpy cb 0 rest) (\<lambda>cb.
                Inr (w\<lparr>read_buffer := rb, cache_buffer := cb\<rparr>, sh, sy))
              else Inr (w\<lparr>read_buffer := rb, cache_buffer := cb\<rparr>, sh, sy))))))"

definition socket_cb ::
  "platform \<Rightarrow> int \<Rightarrow> read_result \<Rightarrow> socket_worker_t \<Rightarrow> shared \<Rightarrow> sys
   \<Rightarrow> (socket_worker_t \<times> shared \<times> sys) res" where
  "socket_cb pl workers_count incoming w sh sy =
     (let (run, w, sh) = should_socket_worker_run workers_count w sh in
      if \<not> run then Inr (w, sh, sy)
      else socket_read pl incoming w sh sy)"

lemmas socket_cb_eq = socket_cb_def [unfolded socket_read_def]

text \<open>
  The FIFO itself: a read of at most \<^verbatim>\<open>sizeof (read_buffer) - 1\<close> bytes takes what is there, and fails
  with \<^verbatim>\<open>EAGAIN\<close> when nothing is (the watcher holds it open for reading and writing).
\<close>

definition fifo_read :: "string \<Rightarrow> read_result \<times> string" where
  "fifo_read pipe =
     (if pipe = [] then (ReadError, [])
      else (ReadBytes (take (BUFFER_SIZE - 1) pipe), drop (BUFFER_SIZE - 1) pipe))"

text \<open>\<open>write_fifo\<close>: the outcome of \<^verbatim>\<open>open\<close> (the descriptor) and of \<^verbatim>\<open>write\<close> (the bytes taken) are
  the kernel's; the bytes written are appended to the pipe.\<close>

definition write_fifo ::
  "int \<Rightarrow> int \<Rightarrow> string \<Rightarrow> string \<Rightarrow> string \<Rightarrow> sys \<Rightarrow> (int \<times> string \<times> sys) res" where
  "write_fifo fd written filename str pipe sy =
     (if fd < 0 then
        chk (log_error (''Failed to open socket for writing: '' @ squote @ ''%s'' @ squote)
               [AStr filename] sy) (\<lambda>sy.
        Inr (-1, pipe, sy))
      else
        let nbyte = int (length str); pipe = pipe @ take (nat written) str in
        if written \<noteq> nbyte then
          chk (log_error (''Failed to write on socket: '' @ squote @ ''%s'' @ squote)
                 [AStr filename] sy) (\<lambda>sy.
          Inr (-1, pipe, sy))
        else Inr (0, pipe, sy))"

section \<open>The specification\<close>

lemma length_tl_dropWhile: "c \<in> set s \<Longrightarrow> length (tl (dropWhile P s)) < length s"
  using length_dropWhile_le [of P s] by (cases s) auto

text \<open>A chunk is a sequence of finished lines and an unfinished rest.\<close>

function split_lines :: "string \<Rightarrow> string list \<times> string" where
  "split_lines s =
     (if newline \<in> set s then
        (case split_lines (tl (dropWhile (\<lambda>c. c \<noteq> newline) s)) of
           (ls, rest) \<Rightarrow> (takeWhile (\<lambda>c. c \<noteq> newline) s # ls, rest))
      else ([], s))"
  by pat_completeness auto
termination
  by (relation "measure length") (simp_all add: length_tl_dropWhile del: length_tl)

declare split_lines.simps [simp del]

text \<open>The jobs a chunk completes when \<open>pending\<close> was left over, and what is left over now. A chunk
  without a newline replaces \<open>pending\<close>.\<close>

definition feed :: "string \<Rightarrow> string \<Rightarrow> string list \<times> string" where
  "feed pending chunk =
     (case split_lines chunk of
        ([], rest) \<Rightarrow> ([], rest)
      | (l # ls, rest) \<Rightarrow> ((pending @ l) # ls, rest))"

section \<open>Lemmas\<close>

lemma split_first_newline:
  assumes "newline \<in> set s"
  obtains l rest where "s = l @ newline # rest" and "newline \<notin> set l"
    and "l = takeWhile (\<lambda>c. c \<noteq> newline) s"
  using split_first [OF assms] notin_takeWhile_neq by metis

lemma takeWhile_line:
  "newline \<notin> set l \<Longrightarrow> takeWhile (\<lambda>c. c \<noteq> newline) (l @ newline # rest) = l"
  by (induction l) auto

lemma dropWhile_line:
  "newline \<notin> set l \<Longrightarrow> dropWhile (\<lambda>c. c \<noteq> newline) (l @ newline # rest) = newline # rest"
  by (induction l) auto

lemma split_lines_line:
  "newline \<notin> set l \<Longrightarrow> split_lines (l @ newline # rest)
     = (case split_lines rest of (ls, r) \<Rightarrow> (l # ls, r))"
  by (subst split_lines.simps) (simp add: takeWhile_line dropWhile_line)

lemma split_lines_none: "newline \<notin> set s \<Longrightarrow> split_lines s = ([], s)"
  by (subst split_lines.simps) simp

lemma memset_buffer:
  "length b = BUFFER_SIZE \<Longrightarrow> memset b NUL BUFFER_SIZE = Inr (replicate BUFFER_SIZE (Some NUL))"
  by (simp add: memset_def store_def)

lemma str_at_zeros [simp]: "str_at (replicate BUFFER_SIZE (Some NUL)) 0 = Inr []"
  by (simp add: str_at_def BUFFER_SIZE_def numeral_eq_Suc)

lemma str_at_0_E:
  assumes "str_at b 0 = Inr s"
  obtains r where "b = cells s @ Some NUL # r" and "NUL \<notin> set s"
  using assms by (auto simp: str_at_def cstr_eq_Inr_iff)

text \<open>The two buffers of the watcher and what they hold.\<close>

definition holding :: "cbuf \<Rightarrow> string \<Rightarrow> bool" where
  "holding b s \<longleftrightarrow> length b = BUFFER_SIZE \<and> str_at b 0 = Inr s"

lemma holding_zeros: "holding (replicate BUFFER_SIZE (Some NUL)) []"
  by (simp add: holding_def)

text \<open>Appending a line with its newline to the cache and cutting the newline off.\<close>

lemma append_line:
  assumes cb: "holding cb p" and l: "NUL \<notin> set l"
    and fits: "length p + length l + 1 < BUFFER_SIZE"
  shows "\<exists>cb' cb''. strncat cb (l @ newline # rest) (length l + 1) = Inr cb'
     \<and> strlen cb' 0 = Inr (length p + length l + 1)
     \<and> put_char cb' (length p + length l) NUL = Inr cb'' \<and> holding cb'' (p @ l)"
proof -
  obtain r where b: "cb = cells p @ Some NUL # r" and nul: "NUL \<notin> set p"
    using cb by (auto simp: holding_def elim: str_at_0_E)
  let ?r = "drop (length l + 1) r"
  have len: "length cb = BUFFER_SIZE" using cb by (simp add: holding_def)
  have "strncat cb (l @ newline # rest) (length l + 1)
      = Inr (cells (p @ l @ [newline]) @ Some NUL # ?r)"
    using strcat_layout [OF nul, of "l @ [newline]" r] fits len
    by (simp add: strncat_def b)
  moreover have "strlen (cells (p @ l @ [newline]) @ Some NUL # ?r) 0 = Inr (length p + length l + 1)"
    using nul l by (subst strlen_layout) auto
  moreover have "put_char (cells (p @ l @ [newline]) @ Some NUL # ?r) (length p + length l) NUL
      = Inr (cells (p @ l) @ Some NUL # Some NUL # ?r)"
    using put_char_layout [of "cells (p @ l)" "length p + length l" "Some newline"] by simp
  moreover have "holding (cells (p @ l) @ Some NUL # Some NUL # ?r) (p @ l)"
    using nul l len fits str_at_0 [of "p @ l" "Some NUL # ?r"] by (simp add: holding_def b)
  ultimately show ?thesis by blast
qed

text \<open>The lengths the loop computes for the line in front of the newline.\<close>

lemma line_lengths:
  assumes "str_at rb 0 = Inr (l @ newline # rest)"
  shows "strlen rb 0 = Inr (length l + 1 + length rest)"
    and "strlen rb (length l) = Inr (1 + length rest)"
proof -
  obtain r where b: "rb = cells (l @ newline # rest) @ Some NUL # r"
      and nul: "NUL \<notin> set (l @ newline # rest)"
    using assms by (rule str_at_0_E)
  show "strlen rb 0 = Inr (length l + 1 + length rest)"
    using assms by (simp add: strlen_def)
  show "strlen rb (length l) = Inr (1 + length rest)"
    using str_at_suffix [OF nul, of "length l" r] by (simp add: strlen_def b)
qed

text \<open>The platform copes with moving the rest of the text to the front.\<close>

definition moves_ok :: "platform \<Rightarrow> string \<Rightarrow> string \<Rightarrow> bool" where
  "moves_ok pl l rest \<longleftrightarrow> ascending pl \<or> length rest \<le> length l"

lemma move_rest:
  assumes rb: "holding rb (l @ newline # rest)" and "moves_ok pl l rest"
  shows "\<exists>rb'. strcpy_within pl rb 0 (length l + 1) = Inr rb' \<and> holding rb' rest"
proof -
  obtain r where b: "rb = cells (l @ newline # rest) @ Some NUL # r"
      and nul: "NUL \<notin> set (l @ newline # rest)"
    using rb by (auto simp: holding_def elim: str_at_0_E)
  have at: "str_at rb (length l + 1) = Inr rest"
    using str_at_suffix [OF nul, of "length l + 1" r] by (simp add: b)
  have "length rest < length rb" using b by simp
  then have copy: "strcpy_within pl rb 0 (length l + 1)
      = Inr (cells rest @ Some NUL # drop (Suc (length rest)) rb)"
    using at assms(2) by (auto simp: strcpy_within_def moves_ok_def strcpy_start)
  have "holding (cells rest @ Some NUL # drop (Suc (length rest)) rb) rest"
    using nul rb \<open>length rest < length rb\<close> by (auto simp: holding_def)
  then show ?thesis using copy by blast
qed

lemma holding_NUL: "holding b s \<Longrightarrow> NUL \<notin> set s"
  by (auto simp: holding_def elim: str_at_0_E)

lemma holding_strlen: "holding b s \<Longrightarrow> strlen b 0 = Inr (length s)"
  and holding_length: "holding b s \<Longrightarrow> length b = BUFFER_SIZE"
  by (simp_all add: holding_def strlen_def)

lemma overflow_message: "log_fits ''Parse failed, buffer overflow'' []"
  by (simp add: log_fits_def QUERAL_LOG_BUFFER_SIZE_def)

lemma full_message: "log_fits ''Queue is full'' []"
  by (simp add: log_fits_def QUERAL_LOG_BUFFER_SIZE_def)

subsection \<open>One line\<close>

text \<open>Up to the call of \<open>enqueue_line\<close>.\<close>

lemma socket_line_fits:
  assumes rb: "holding rb (l @ newline # rest)" and cb: "holding cb p"
    and fits: "length p + length l + 1 < BUFFER_SIZE"
  shows "\<exists>cb'. holding cb' (p @ l) \<and>
     socket_line pl (length l) rb cb sh sy
       = enqueue_line pl (length l) (length l + 1) rb cb' sh sy"
proof -
  have at: "str_at rb 0 = Inr (l @ newline # rest)" using rb by (simp add: holding_def)
  have "NUL \<notin> set l" using holding_NUL [OF rb] by simp
  from append_line [OF cb this fits, of rest] obtain cb1 cb2 where
    "strncat cb (l @ newline # rest) (length l + 1) = Inr cb1"
    "strlen cb1 0 = Inr (length p + length l + 1)"
    "put_char cb1 (length p + length l) NUL = Inr cb2" "holding cb2 (p @ l)" by blast
  moreover have "strlen cb 0 = Inr (length p)"
    using cb by (simp add: strlen_def holding_def)
  ultimately show ?thesis
    using fits by (intro exI [of _ cb2]) (simp add: socket_line_def at line_lengths [OF at] Let_def)
qed

lemma enqueue_line_room:
  assumes rb: "holding rb (l @ newline # rest)" and cb: "holding cb x"
    and x: "length x < BUFFER_SIZE" and wf: "fifo_wf (queue sh)"
    and room: "occupied (queue sh) < capacity (queue sh)" and moves: "moves_ok pl l rest"
  shows "\<exists>rb' cb' q'. enqueue_line pl (length l) (length l + 1) rb cb sh sy
       = Inr (False, rb', cb', sh\<lparr>queue := q', url_count := url_count sh + 1\<rparr>, sy)
     \<and> holding rb' rest \<and> holding cb' [] \<and> fifo_wf q'
     \<and> fifo_list q' = fifo_list (queue sh) @ [x] \<and> capacity q' = capacity (queue sh)"
proof -
  obtain q' where q': "fifo_enqueue (queue sh) x = Inr (q', 1)" "fifo_wf q'"
      "fifo_list q' = fifo_list (queue sh) @ [x]" "capacity q' = capacity (queue sh)"
    using ring.enq_room [OF wf holding_NUL [OF cb] x] room by auto
  have zero: "memset cb NUL BUFFER_SIZE = Inr (replicate BUFFER_SIZE (Some NUL))"
      "memset rb NUL BUFFER_SIZE = Inr (replicate BUFFER_SIZE (Some NUL))"
    using cb rb by (simp_all add: memset_buffer holding_def)
  have at: "str_at rb 0 = Inr (l @ newline # rest)" "str_at cb 0 = Inr x"
    using rb cb by (simp_all add: holding_def)
  obtain rb' where rb': "strcpy_within pl rb 0 (length l + 1) = Inr rb'" "holding rb' rest"
    using move_rest [OF rb moves] by blast
  let ?sh = "sh\<lparr>queue := q', url_count := url_count sh + 1\<rparr>"
    and ?z = "replicate BUFFER_SIZE (Some NUL)"
  have "enqueue_line pl (length l) (length l + 1) rb cb sh sy
      = Inr (False, if rest = [] then ?z else rb', ?z, ?sh, sy)"
    using q'(1) zero rb'(1) by (simp add: enqueue_line_def at line_lengths [OF at(1)] Let_def)
  then show ?thesis using q' rb'(2) holding_zeros by (cases "rest = []") auto
qed

lemma socket_line_room:
  assumes rb: "holding rb (l @ newline # rest)" and cb: "holding cb p"
    and fits: "length p + length l + 1 < BUFFER_SIZE" and wf: "fifo_wf (queue sh)"
    and room: "occupied (queue sh) < capacity (queue sh)" and moves: "moves_ok pl l rest"
  shows "\<exists>rb' cb' q'. socket_line pl (length l) rb cb sh sy
       = Inr (False, rb', cb', sh\<lparr>queue := q', url_count := url_count sh + 1\<rparr>, sy)
     \<and> holding rb' rest \<and> holding cb' [] \<and> fifo_wf q'
     \<and> fifo_list q' = fifo_list (queue sh) @ [p @ l] \<and> capacity q' = capacity (queue sh)"
proof -
  obtain cb' where "holding cb' (p @ l)"
      and "socket_line pl (length l) rb cb sh sy
         = enqueue_line pl (length l) (length l + 1) rb cb' sh sy"
    using socket_line_fits [OF rb cb fits] by blast
  then show ?thesis using enqueue_line_room [OF rb _ _ wf room moves, of cb' "p @ l"] fits by auto
qed

lemma socket_line_full:
  assumes rb: "holding rb (l @ newline # rest)" and cb: "holding cb p"
    and fits: "length p + length l + 1 < BUFFER_SIZE"
    and full: "occupied (queue sh) = capacity (queue sh)"
  shows "socket_line pl (length l) rb cb sh sy
     = Inr (True, rb, replicate BUFFER_SIZE (Some NUL), sh, logged LOG_WARNING ''Queue is full'' [] sy)"
proof -
  obtain cb' where cb': "holding cb' (p @ l)"
      and line: "socket_line pl (length l) rb cb sh sy
         = enqueue_line pl (length l) (length l + 1) rb cb' sh sy"
    using socket_line_fits [OF rb cb fits] by blast
  have "fifo_enqueue (queue sh) (p @ l) = Inr (queue sh, -1)"
    using full by (simp add: fifo_enqueue_def)
  then show ?thesis
    using cb' line by (simp add: enqueue_line_def holding_def memset_buffer log_warning_def
        log_write_fits [OF full_message])
qed

lemma socket_line_too_long:
  assumes rb: "holding rb (l @ newline # rest)" and cb: "holding cb p"
    and "BUFFER_SIZE < length p + length l + 1"
  shows "socket_line pl (length l) rb cb sh sy
     = Inr (True, rb, replicate BUFFER_SIZE (Some NUL), sh,
            logged LOG_ERR ''Parse failed, buffer overflow'' [] sy)"
proof -
  have at: "str_at rb 0 = Inr (l @ newline # rest)" using rb by (simp add: holding_def)
  show ?thesis
    using assms(3)
    by (simp add: socket_line_def at line_lengths [OF at] holding_strlen [OF cb]
        memset_buffer [OF holding_length [OF cb]] log_error_def log_write_fits [OF overflow_message])
qed

lemma socket_line_one_over:
  assumes rb: "holding rb (l @ newline # rest)" and cb: "holding cb p"
    and "BUFFER_SIZE = length p + length l + 1"
  shows "socket_line pl (length l) rb cb sh sy = Inl OutOfBounds"
proof -
  have at: "str_at rb 0 = Inr (l @ newline # rest)" using rb by (simp add: holding_def)
  obtain r where b: "cb = cells p @ Some NUL # r" and nul: "NUL \<notin> set p"
    using cb by (auto simp: holding_def elim: str_at_0_E)
  have "length cb = BUFFER_SIZE" using cb by (simp add: holding_def)
  then have "strncat cb (l @ newline # rest) (length l + 1) = Inl OutOfBounds"
    using assms(3) strcat_overflow [OF nul, of r "l @ [newline]"] by (simp add: strncat_def b)
  then show ?thesis
    using assms(3)
    by (simp add: socket_line_def at line_lengths [OF at] holding_strlen [OF cb])
qed

subsection \<open>The loop\<close>

text \<open>Every round of a chunk moves its rest without an overlap the platform does not support.\<close>

function moves_fine :: "platform \<Rightarrow> string \<Rightarrow> bool" where
  "moves_fine pl s =
     (if newline \<in> set s then
        moves_ok pl (takeWhile (\<lambda>c. c \<noteq> newline) s) (tl (dropWhile (\<lambda>c. c \<noteq> newline) s))
        \<and> moves_fine pl (tl (dropWhile (\<lambda>c. c \<noteq> newline) s))
      else True)"
  by pat_completeness auto
termination
  by (relation "measure (\<lambda>(pl, s). length s)") (simp_all add: length_tl_dropWhile del: length_tl)

declare moves_fine.simps [simp del]

lemma moves_fine_line:
  "newline \<notin> set l \<Longrightarrow>
   moves_fine pl (l @ newline # rest) \<longleftrightarrow> moves_ok pl l rest \<and> moves_fine pl rest"
  by (subst moves_fine.simps) (simp add: takeWhile_line dropWhile_line)

lemma moves_fine_ascending: "ascending pl \<Longrightarrow> moves_fine pl s"
proof (induction pl s rule: moves_fine.induct)
  case (1 pl s)
  then show ?case by (subst moves_fine.simps) (simp add: moves_ok_def)
qed

lemma feed_line:
  assumes "newline \<notin> set l"
  shows "fst (feed p (l @ newline # rest)) = (p @ l) # fst (feed [] rest)"
    and "snd (feed p (l @ newline # rest)) = snd (feed [] rest)"
  by (cases "split_lines rest"; cases "fst (split_lines rest)";
      simp add: feed_def split_lines_line [OF assms])+

lemma feed_none: "newline \<notin> set s \<Longrightarrow> feed p s = ([], s)"
  by (simp add: feed_def split_lines_none)

text \<open>The first line of the chunk completes the pending text; it must leave room for a NUL.\<close>

definition line_fits :: "string \<Rightarrow> string \<Rightarrow> bool" where
  "line_fits p s \<longleftrightarrow>
     newline \<in> set s \<longrightarrow> length p + length (takeWhile (\<lambda>c. c \<noteq> newline) s) + 1 < BUFFER_SIZE"

text \<open>State after a number of jobs was added.\<close>

definition enqueued :: "shared \<Rightarrow> string list \<Rightarrow> shared \<Rightarrow> bool" where
  "enqueued sh jobs sh' \<longleftrightarrow>
     fifo_wf (queue sh') \<and> fifo_list (queue sh') = fifo_list (queue sh) @ jobs
     \<and> capacity (queue sh') = capacity (queue sh)
     \<and> url_count sh' = url_count sh + int (length jobs) \<and> should_run sh' = should_run sh"

lemma line_fits_rest:
  "length s + 1 < BUFFER_SIZE \<Longrightarrow> line_fits [] s"
  by (auto simp: line_fits_def dest: first_occurrence_less)

lemma enqueued_trans:
  "enqueued sh xs sh' \<Longrightarrow> enqueued sh' ys sh'' \<Longrightarrow> enqueued sh (xs @ ys) sh''"
  by (auto simp: enqueued_def)

lemma enqueued_occupied:
  "enqueued sh jobs sh' \<Longrightarrow> occupied (queue sh') = occupied (queue sh) + length jobs"
  unfolding enqueued_def by (metis length_append length_fifo_list)

text \<open>A turn of the loop on a line: the line and the search for its end; the state behind it when there is room.\<close>

lemma socket_loop_found:
  assumes "holding rb s" and "newline \<in> set s" and "line_fits p s"
  obtains l rest where "s = l @ newline # rest" and "newline \<notin> set l"
    and "strchr rb 0 newline = Inr (Some (length l))" and "length p + length l + 1 < BUFFER_SIZE"
proof -
  obtain l rest where s: "s = l @ newline # rest" "newline \<notin> set l"
      "l = takeWhile (\<lambda>c. c \<noteq> newline) s"
    using assms(2) by (rule split_first_newline)
  have "str_at rb 0 = Inr s" using assms(1) by (simp add: holding_def)
  then have "strchr rb 0 newline = Inr (Some (length l))"
    using assms(2) s(3) by (simp add: strchr_def)
  moreover have "length p + length l + 1 < BUFFER_SIZE"
    using assms(2,3) s(3) by (simp add: line_fits_def)
  ultimately show thesis using that s(1,2) by blast
qed

lemma socket_loop_next:
  assumes rb: "holding rb s" and cb: "holding cb p" and wf: "fifo_wf (queue sh)"
    and fits: "line_fits p s" and len: "length s < BUFFER_SIZE" and moves: "moves_fine pl s"
    and line: "newline \<in> set s" and room: "occupied (queue sh) < capacity (queue sh)"
  obtains j rest rb1 cb1 sh1 where "feed p s = (j # fst (feed [] rest), snd (feed [] rest))"
    and "length rest < length s" and "length rest < BUFFER_SIZE"
    and "socket_loop pl rb cb sh sy = socket_loop pl rb1 cb1 sh1 sy"
    and "holding rb1 rest" and "holding cb1 []" and "enqueued sh [j] sh1"
    and "line_fits [] rest" and "moves_fine pl rest"
proof -
  obtain l rest where s: "s = l @ newline # rest" "newline \<notin> set l"
      "strchr rb 0 newline = Inr (Some (length l))" "length p + length l + 1 < BUFFER_SIZE"
    using rb line fits by (rule socket_loop_found)
  have ok: "moves_ok pl l rest" "moves_fine pl rest"
    using moves by (simp_all add: s(1) moves_fine_line [OF s(2)])
  obtain rb1 cb1 q1 where turn: "socket_line pl (length l) rb cb sh sy
       = Inr (False, rb1, cb1, sh\<lparr>queue := q1, url_count := url_count sh + 1\<rparr>, sy)"
      and q1: "holding rb1 rest" "holding cb1 []" "fifo_wf q1"
       "fifo_list q1 = fifo_list (queue sh) @ [p @ l]" "capacity q1 = capacity (queue sh)"
    using socket_line_room [OF rb [unfolded s(1)] cb s(4) wf room ok(1)] by blast
  let ?sh1 = "sh\<lparr>queue := q1, url_count := url_count sh + 1\<rparr>"
  have "feed p s = ((p @ l) # fst (feed [] rest), snd (feed [] rest))"
    by (intro prod_eqI) (simp_all add: s(1) feed_line [OF s(2)])
  moreover have "socket_loop pl rb cb sh sy = socket_loop pl rb1 cb1 ?sh1 sy"
    using s(3) turn by (subst socket_loop.simps) simp
  moreover have "enqueued sh [p @ l] ?sh1" using q1(3-5) by (simp add: enqueued_def)
  moreover have "line_fits [] rest" using len by (intro line_fits_rest) (simp add: s(1))
  ultimately show thesis using that q1(1,2) ok(2) len by (simp add: s(1))
qed

lemma socket_loop_room:
  assumes "holding rb s" and "holding cb p" and "fifo_wf (queue sh)"
    and "line_fits p s" and "length s < BUFFER_SIZE" and "moves_fine pl s"
    and "occupied (queue sh) + length (fst (feed p s)) \<le> capacity (queue sh)"
  shows "\<exists>rb' cb' sh'. socket_loop pl rb cb sh sy = Inr (False, rb', cb', sh', sy)
     \<and> holding rb' (snd (feed p s)) \<and> holding cb' (if newline \<in> set s then [] else p)
     \<and> enqueued sh (fst (feed p s)) sh'"
  using assms
proof (induction "length s" arbitrary: s p rb cb sh rule: less_induct)
  case less
  show ?case
  proof (cases "newline \<in> set s")
    case False
    then have "strchr rb 0 newline = Inr None"
      using less.prems(1) by (simp add: strchr_def holding_def)
    then show ?thesis
      using False less.prems by (subst socket_loop.simps) (simp add: feed_none enqueued_def)
  next
    case True
    have "occupied (queue sh) < capacity (queue sh)"
      using less.prems(1,4,7) True by (cases rule: socket_loop_found [OF less.prems(1) True less.prems(4)])
        (simp add: feed_line)
    with less.prems(1-6) True obtain j rest rb1 cb1 sh1 where
        next_line: "feed p s = (j # fst (feed [] rest), snd (feed [] rest))" "length rest < length s"
          "length rest < BUFFER_SIZE" "socket_loop pl rb cb sh sy = socket_loop pl rb1 cb1 sh1 sy"
          "holding rb1 rest" "holding cb1 []" "enqueued sh [j] sh1" "line_fits [] rest" "moves_fine pl rest"
      by (rule socket_loop_next)
    have sh1: "fifo_wf (queue sh1)"
        "occupied (queue sh1) + length (fst (feed [] rest)) \<le> capacity (queue sh1)"
      using next_line(1,7) less.prems(7) enqueued_occupied [OF next_line(7)] by (simp_all add: enqueued_def)
    from less.hyps [OF next_line(2,5,6) sh1(1) next_line(8,3,9) sh1(2)] show ?thesis
      using True enqueued_trans [OF next_line(7)] unfolding next_line(1,4) by fastforce
  qed
qed

lemma socket_loop_full:
  assumes "holding rb s" and "holding cb p" and "fifo_wf (queue sh)"
    and "line_fits p s" and "length s < BUFFER_SIZE" and "moves_fine pl s"
    and "capacity (queue sh) < occupied (queue sh) + length (fst (feed p s))"
  shows "\<exists>rb' cb' sh'. socket_loop pl rb cb sh sy
       = Inr (True, rb', cb', sh', logged LOG_WARNING ''Queue is full'' [] sy)
     \<and> length rb' = BUFFER_SIZE \<and> holding cb' []
     \<and> enqueued sh (take (capacity (queue sh) - occupied (queue sh)) (fst (feed p s))) sh'"
  using assms
proof (induction "length s" arbitrary: s p rb cb sh rule: less_induct)
  case less
  have wf: "occupied (queue sh) \<le> capacity (queue sh)" using less.prems(3) by (simp add: fifo_wf_def)
  then have line: "newline \<in> set s" using less.prems(7) by (cases "newline \<in> set s") (auto simp: feed_none)
  show ?case
  proof (cases "occupied (queue sh) = capacity (queue sh)")
    case True
    obtain l rest where s: "s = l @ newline # rest"
        "strchr rb 0 newline = Inr (Some (length l))" "length p + length l + 1 < BUFFER_SIZE"
      using socket_loop_found [OF less.prems(1) line less.prems(4)] by blast
    show ?thesis
      using socket_line_full [OF less.prems(1) [unfolded s(1)] less.prems(2) s(3) True, of pl sy]
        True s(2) less.prems(1,3) holding_zeros
      by (subst socket_loop.simps) (auto simp: enqueued_def holding_def)
  next
    case False
    then have "occupied (queue sh) < capacity (queue sh)" using wf by simp
    with less.prems(1-6) line obtain j rest rb1 cb1 sh1 where
        next_line: "feed p s = (j # fst (feed [] rest), snd (feed [] rest))" "length rest < length s"
          "length rest < BUFFER_SIZE" "socket_loop pl rb cb sh sy = socket_loop pl rb1 cb1 sh1 sy"
          "holding rb1 rest" "holding cb1 []" "enqueued sh [j] sh1" "line_fits [] rest" "moves_fine pl rest"
      by (rule socket_loop_next)
    have sh1: "fifo_wf (queue sh1)" "capacity (queue sh) = capacity (queue sh1)"
        "capacity (queue sh1) < occupied (queue sh1) + length (fst (feed [] rest))"
        "capacity (queue sh) - occupied (queue sh) = Suc (capacity (queue sh1) - occupied (queue sh1))"
      using next_line(1,7) less.prems(7) enqueued_occupied [OF next_line(7)] False wf
      by (simp_all add: enqueued_def)
    from less.hyps [OF next_line(2,5,6) sh1(1) next_line(8,3,9) sh1(3)] show ?thesis
      using enqueued_trans [OF next_line(7)] unfolding next_line(1,4) sh1(4) by fastforce
  qed
qed

subsection \<open>The callback\<close>

text \<open>The read buffer once \<^verbatim>\<open>read\<close> has stored \<open>bytes\<close> and the NUL is written behind them.\<close>

lemma read_buffer_filled:
  assumes "length rb = BUFFER_SIZE" and "NUL \<notin> set bytes" and "length bytes < BUFFER_SIZE"
  shows "\<exists>rb1 rb2. store rb 0 (cells bytes) = Inr rb1 \<and> put_char rb1 (length bytes) NUL = Inr rb2
     \<and> holding rb2 bytes"
proof -
  obtain x r where rest: "drop (length bytes) rb = x # r"
    using assms(1,3) by (cases "drop (length bytes) rb") auto
  have "store rb 0 (cells bytes) = Inr (cells bytes @ x # r)"
    using assms(1,3) store_start [of "cells bytes" rb] by (simp add: rest)
  moreover have "put_char (cells bytes @ x # r) (length bytes) NUL
      = Inr (cells bytes @ Some NUL # r)"
    using put_char_layout [of "cells bytes"] by simp
  moreover have "length (cells bytes @ Some NUL # r) = BUFFER_SIZE"
    using assms(1,3) arg_cong [OF rest, of length] by simp
  ultimately show ?thesis using assms(2) by (auto simp: holding_def)
qed

text \<open>The callback is ready for a chunk: the buffers are intact, the daemon runs, the lines fit.\<close>

definition ready :: "platform \<Rightarrow> socket_worker_t \<Rightarrow> string \<Rightarrow> shared \<Rightarrow> string \<Rightarrow> bool" where
  "ready pl w p sh bytes \<longleftrightarrow>
     should_run sh \<and> fifo_wf (queue sh)
     \<and> length (read_buffer w) = BUFFER_SIZE \<and> holding (cache_buffer w) p
     \<and> bytes \<noteq> [] \<and> NUL \<notin> set bytes \<and> length bytes < BUFFER_SIZE
     \<and> line_fits p bytes \<and> moves_fine pl bytes"

lemma socket_cb_room:
  assumes ready: "ready pl w p sh bytes"
    and room: "occupied (queue sh) + length (fst (feed p bytes)) \<le> capacity (queue sh)"
  shows "\<exists>w' sh'. socket_cb pl n (ReadBytes bytes) w sh sy = Inr (w', sh', sy)
     \<and> length (read_buffer w') = BUFFER_SIZE \<and> holding (cache_buffer w') (snd (feed p bytes))
     \<and> enqueued sh (fst (feed p bytes)) sh'"
proof -
  obtain rb1 rb2 where rb: "store (read_buffer w) 0 (cells bytes) = Inr rb1"
      "put_char rb1 (length bytes) NUL = Inr rb2" "holding rb2 bytes"
    using ready read_buffer_filled [of "read_buffer w" bytes] unfolding ready_def by blast
  obtain rb' cb' sh' where loop: "socket_loop pl rb2 (cache_buffer w) sh sy = Inr (False, rb', cb', sh', sy)"
      and res: "holding rb' (snd (feed p bytes))" "holding cb' (if newline \<in> set bytes then [] else p)"
       "enqueued sh (fst (feed p bytes)) sh'"
    using socket_loop_room [OF rb(3), of "cache_buffer w" p sh pl sy] ready room
    by (auto simp: ready_def)
  have run: "should_run sh" "bytes \<noteq> []" using ready by (simp_all add: ready_def)
  have at: "str_at rb' 0 = Inr (snd (feed p bytes))" and len: "length rb' = BUFFER_SIZE"
    using res(1) by (simp_all add: holding_def)
  show ?thesis
  proof (cases "snd (feed p bytes) = []")
    case True
    then have "newline \<in> set bytes" using run(2) feed_none [of bytes p] by fastforce
    then have "socket_cb pl n (ReadBytes bytes) w sh sy
        = Inr (w\<lparr>read_buffer := rb', cache_buffer := cb'\<rparr>, sh', sy)"
      using run rb loop at True by (simp add: socket_cb_eq should_socket_worker_run_def Let_def)
    then show ?thesis using res True len \<open>newline \<in> set bytes\<close> by simp
  next
    case False
    have short: "length (snd (feed p bytes)) < BUFFER_SIZE"
      using str_at_0_D [OF at] len by simp
    have cb: "length cb' = BUFFER_SIZE" using res(2) by (simp add: holding_def)
    let ?cb = "cells (snd (feed p bytes)) @ Some NUL # drop (Suc (length (snd (feed p bytes)))) cb'"
    have "strcpy cb' 0 (snd (feed p bytes)) = Inr ?cb"
      using short cb by (intro strcpy_start) simp
    then have "socket_cb pl n (ReadBytes bytes) w sh sy
        = Inr (w\<lparr>read_buffer := rb', cache_buffer := ?cb\<rparr>, sh', sy)"
      using run rb loop at False by (simp add: socket_cb_eq should_socket_worker_run_def Let_def)
    moreover have "holding ?cb (snd (feed p bytes))"
      using short cb str_at_0_D [OF at] by (simp add: holding_def)
    ultimately show ?thesis using res(3) len by simp
  qed
qed

lemma socket_cb_full:
  assumes ready: "ready pl w p sh bytes"
    and full: "capacity (queue sh) < occupied (queue sh) + length (fst (feed p bytes))"
  shows "\<exists>w' sh'. socket_cb pl n (ReadBytes bytes) w sh sy
       = Inr (w', sh', logged LOG_WARNING ''Queue is full'' [] sy)
     \<and> length (read_buffer w') = BUFFER_SIZE \<and> holding (cache_buffer w') []
     \<and> enqueued sh (take (capacity (queue sh) - occupied (queue sh)) (fst (feed p bytes))) sh'"
proof -
  obtain rb1 rb2 where rb: "store (read_buffer w) 0 (cells bytes) = Inr rb1"
      "put_char rb1 (length bytes) NUL = Inr rb2" "holding rb2 bytes"
    using ready read_buffer_filled [of "read_buffer w" bytes] unfolding ready_def by blast
  obtain rb' cb' sh' where "socket_loop pl rb2 (cache_buffer w) sh sy
        = Inr (True, rb', cb', sh', logged LOG_WARNING ''Queue is full'' [] sy)"
      "length rb' = BUFFER_SIZE" "holding cb' []"
      "enqueued sh (take (capacity (queue sh) - occupied (queue sh)) (fst (feed p bytes))) sh'"
    using socket_loop_full [OF rb(3), of "cache_buffer w" p sh pl sy] ready full
    by (auto simp: ready_def)
  then show ?thesis
    using ready rb by (simp add: socket_cb_eq should_socket_worker_run_def Let_def ready_def)
qed

subsection \<open>A stream of chunks\<close>

text \<open>Successive callbacks on the chunks a writer's stream is read in.\<close>

fun socket_run ::
  "platform \<Rightarrow> int \<Rightarrow> string list \<Rightarrow> socket_worker_t \<Rightarrow> shared \<Rightarrow> sys
   \<Rightarrow> (socket_worker_t \<times> shared \<times> sys) res" where
  "socket_run pl n [] w sh sy = Inr (w, sh, sy)"
| "socket_run pl n (bytes # chunks) w sh sy =
     chk (socket_cb pl n (ReadBytes bytes) w sh sy) (\<lambda>(w, sh, sy). socket_run pl n chunks w sh sy)"

lemma feed_newline:
  assumes "newline \<in> set c" and "newline \<notin> set p"
  shows "feed p c = split_lines (p @ c)"
proof -
  obtain l rest where c: "c = l @ newline # rest" and l: "newline \<notin> set l"
    using split_first_newline [OF assms(1)] by metis
  have pl: "newline \<notin> set (p @ l)" using assms(2) l by simp
  show ?thesis
    using split_lines_line [OF pl, of rest] split_lines_line [OF l, of rest]
    by (simp add: feed_def c split: prod.splits)
qed

lemma split_lines_append:
  "split_lines (s @ t)
     = (fst (split_lines s) @ fst (split_lines (snd (split_lines s) @ t)),
        snd (split_lines (snd (split_lines s) @ t)))"
proof (induction s rule: split_lines.induct)
  case (1 s)
  show ?case
  proof (cases "newline \<in> set s")
    case True
    then obtain l rest where s: "s = l @ newline # rest" and l: "newline \<notin> set l"
      by (rule split_first_newline)
    have "split_lines (rest @ t)
        = (fst (split_lines rest) @ fst (split_lines (snd (split_lines rest) @ t)),
           snd (split_lines (snd (split_lines rest) @ t)))"
      using "1.IH" [OF True] by (simp add: s dropWhile_line [OF l])
    then show ?thesis
      using split_lines_line [OF l, of "rest @ t"] split_lines_line [OF l, of rest]
      by (simp add: s split: prod.splits)
  next
    case False
    then show ?thesis by (simp add: split_lines_none)
  qed
qed

lemma newline_notin_rest: "newline \<notin> set (snd (split_lines s))"
proof (induction s rule: split_lines.induct)
  case (1 s)
  show ?case
  proof (cases "newline \<in> set s")
    case True
    then show ?thesis using "1.IH" by (subst split_lines.simps) (auto split: prod.splits)
  next
    case False
    then show ?thesis by (simp add: split_lines_none)
  qed
qed

text \<open>Each chunk ends a line, and no line is too long for the buffers.\<close>

fun stream_fits :: "string \<Rightarrow> string list \<Rightarrow> bool" where
  "stream_fits p [] \<longleftrightarrow> True"
| "stream_fits p (c # cs) \<longleftrightarrow>
     newline \<in> set c \<and> NUL \<notin> set c \<and> length c < BUFFER_SIZE \<and> line_fits p c
     \<and> stream_fits (snd (split_lines (p @ c))) cs"

lemma socket_run_lines:
  assumes "ascending pl" and "should_run sh" and "fifo_wf (queue sh)"
    and "length (read_buffer w) = BUFFER_SIZE" and "holding (cache_buffer w) p"
    and "newline \<notin> set p" and "stream_fits p cs"
    and "occupied (queue sh) + length (fst (split_lines (p @ concat cs))) \<le> capacity (queue sh)"
  shows "\<exists>w' sh'. socket_run pl n cs w sh sy = Inr (w', sh', sy) \<and> length (read_buffer w') = BUFFER_SIZE
     \<and> holding (cache_buffer w') (snd (split_lines (p @ concat cs)))
     \<and> enqueued sh (fst (split_lines (p @ concat cs))) sh'"
  using assms
proof (induction cs arbitrary: p w sh)
  case Nil
  then show ?case by (simp add: split_lines_none enqueued_def)
next
  case (Cons c cs)
  let ?q = "snd (split_lines (p @ c))"
  have nl: "newline \<in> set c" and rest: "stream_fits ?q cs" using Cons.prems(7) by simp_all
  have feed: "feed p c = split_lines (p @ c)" using nl Cons.prems(6) by (rule feed_newline)
  have split: "split_lines (p @ concat (c # cs))
      = (fst (split_lines (p @ c)) @ fst (split_lines (?q @ concat cs)),
         snd (split_lines (?q @ concat cs)))"
    using split_lines_append [of "p @ c" "concat cs"] by simp
  have "c \<noteq> []" using nl by auto
  then have "ready pl w p sh c"
    using Cons.prems by (simp add: ready_def moves_fine_ascending)
  moreover have "occupied (queue sh) + length (fst (feed p c)) \<le> capacity (queue sh)"
    using Cons.prems(8) unfolding split feed by simp
  ultimately obtain w' sh' where cb: "socket_cb pl n (ReadBytes c) w sh sy = Inr (w', sh', sy)"
      and len: "length (read_buffer w') = BUFFER_SIZE"
      and cache: "holding (cache_buffer w') ?q"
      and enq: "enqueued sh (fst (split_lines (p @ c))) sh'"
    using socket_cb_room [of pl w p sh c n sy] by (auto simp: feed)
  have "occupied (queue sh') = occupied (queue sh) + length (fst (split_lines (p @ c)))"
    using enq by (metis enqueued_def length_append length_fifo_list)
  then have "occupied (queue sh') + length (fst (split_lines (?q @ concat cs)))
      \<le> capacity (queue sh')"
    using Cons.prems(8) enq unfolding split by (simp add: enqueued_def)
  then obtain w'' sh'' where "socket_run pl n cs w' sh' sy = Inr (w'', sh'', sy)" "length (read_buffer w'') = BUFFER_SIZE"
      "holding (cache_buffer w'') (snd (split_lines (?q @ concat cs)))"
      "enqueued sh' (fst (split_lines (?q @ concat cs))) sh''"
    using Cons.IH [of sh' w' ?q] Cons.prems(1,2) enq len cache rest newline_notin_rest
    by (auto simp: enqueued_def)
  then show ?case
    using cb enqueued_trans [OF enq] unfolding split by simp
qed

text \<open>A watcher and a shared state to evaluate on.\<close>

definition sample_watcher :: socket_worker_t where
  "sample_watcher = \<lparr>loop_running = True, fifo_linked = True, fifo_filename = ''fifo'',
     read_buffer = fresh BUFFER_SIZE, cache_buffer = replicate BUFFER_SIZE (Some NUL)\<rparr>"

definition sample_shared :: shared where
  "sample_shared = \<lparr>queue = sample_queue, url_count = 0, should_run = True\<rparr>"

lemma sample_watcher_buffers:
  "length (read_buffer sample_watcher) = BUFFER_SIZE" "holding (cache_buffer sample_watcher) []"
  by (simp_all add: sample_watcher_def holding_zeros)

lemma sample_shared_sel [simp]:
  "fifo_wf (queue sample_shared)" "fifo_list (queue sample_shared) = []"
  "occupied (queue sample_shared) = 0" "capacity (queue sample_shared) = 1"
  "should_run sample_shared" "url_count sample_shared = 0"
  by (simp_all add: sample_shared_def sample_queue_wf)

lemma sample_ready:
  "ready permissive sample_watcher [] sample_shared bytes \<longleftrightarrow>
     bytes \<noteq> [] \<and> NUL \<notin> set bytes \<and> length bytes < BUFFER_SIZE \<and> line_fits [] bytes"
  by (auto simp: ready_def sample_watcher_buffers moves_fine_ascending)

section \<open>Properties\<close>

text \<open>
  C3: While the daemon runs, a chunk read from the FIFO enqueues exactly its finished lines, the
  first one completed by what was pending, counts them in \<open>url_count\<close>, and keeps the unfinished
  rest, provided the lines fit the buffers and the queue has room.
\<close>

theorem socket_cb_enqueues_lines:
  assumes "ready pl w p sh bytes"
    and "occupied (queue sh) + length (fst (feed p bytes)) \<le> capacity (queue sh)"
  shows "\<exists>w' sh'. socket_cb pl n (ReadBytes bytes) w sh sy = Inr (w', sh', sy)
     \<and> fifo_list (queue sh') = fifo_list (queue sh) @ fst (feed p bytes)
     \<and> url_count sh' = url_count sh + int (length (fst (feed p bytes)))
     \<and> fifo_wf (queue sh') \<and> str_at (cache_buffer w') 0 = Inr (snd (feed p bytes))"
  using socket_cb_room [OF assms, of n sy] by (auto simp: enqueued_def holding_def)

theorem socket_cb_enqueues_lines_witness:
  "\<exists>w' sh'. socket_cb permissive 2 (ReadBytes (''FETCH a'' @ newline # ''FE'')) sample_watcher
         sample_shared sample_sys = Inr (w', sh', sample_sys)
     \<and> fifo_list (queue sh') = [''FETCH a''] \<and> url_count sh' = 1
     \<and> str_at (cache_buffer w') 0 = Inr ''FE''"
proof -
  let ?b = "''FETCH a'' @ newline # ''FE''"
  have b: "?b \<noteq> [] \<and> NUL \<notin> set ?b \<and> length ?b < BUFFER_SIZE \<and> line_fits [] ?b" by code_simp
  have f: "feed [] ?b = ([''FETCH a''], ''FE'')" by code_simp
  have r: "occupied (queue sample_shared) + length (fst (feed [] ?b)) \<le> capacity (queue sample_shared)"
    unfolding f by simp
  show ?thesis
    using socket_cb_enqueues_lines [OF sample_ready [THEN iffD2, OF b] r, of 2 sample_sys, unfolded f]
    by auto
qed

text \<open>
  C18: However a stream of commands is cut into chunks, as long as each chunk ends a line, the jobs
  enqueued are the lines of the whole stream, in order.
\<close>

theorem socket_stream_lines:
  assumes "ascending pl" and "should_run sh" and "fifo_wf (queue sh)"
    and "length (read_buffer w) = BUFFER_SIZE" and "holding (cache_buffer w) []"
    and "stream_fits [] cs"
    and "occupied (queue sh) + length (fst (split_lines (concat cs))) \<le> capacity (queue sh)"
  shows "\<exists>w' sh'. socket_run pl n cs w sh sy = Inr (w', sh', sy)
     \<and> fifo_list (queue sh') = fifo_list (queue sh) @ fst (split_lines (concat cs))
     \<and> str_at (cache_buffer w') 0 = Inr (snd (split_lines (concat cs)))"
  using socket_run_lines [OF assms(1-5), of cs n sy] assms(6,7)
  by (auto simp: enqueued_def holding_def)

theorem socket_stream_lines_witness:
  "\<exists>w' sh'. socket_run permissive 2 [newline # ''FET'', ''CH a'' @ [newline]] sample_watcher
         (sample_shared\<lparr>queue := sample_queue_2\<rparr>) sample_sys = Inr (w', sh', sample_sys)
     \<and> fifo_list (queue sh') = [[], ''FETCH a'']
     \<and> str_at (cache_buffer w') 0 = Inr []"
proof -
  let ?cs = "[newline # ''FET'', ''CH a'' @ [newline]]"
  have cs: "stream_fits [] ?cs" by code_simp
  have split: "split_lines (concat ?cs) = ([[], ''FETCH a''], [])" by code_simp
  let ?sh = "sample_shared\<lparr>queue := sample_queue_2\<rparr>"
  have r: "occupied (queue ?sh) + length (fst (split_lines (concat ?cs))) \<le> capacity (queue ?sh)"
    unfolding split by (simp add: sample_queue_2_wf)
  have sh: "should_run ?sh" "fifo_wf (queue ?sh)" by (simp_all add: sample_queue_2_wf)
  show ?thesis
    using socket_stream_lines [OF platform_sel(4) sh sample_watcher_buffers cs r,
        of 2 sample_sys, unfolded split]
    by (auto simp: sample_queue_2_wf)
qed

text \<open>
  A chunk without a newline replaces the pending text instead of extending it: a line that
  arrives in three reads loses its first part.
\<close>

lemma socket_cb_forgets_pending:
  assumes "ready pl w p sh bytes" and "newline \<notin> set bytes"
  shows "\<exists>w' sh'. socket_cb pl n (ReadBytes bytes) w sh sy = Inr (w', sh', sy)
     \<and> fifo_list (queue sh') = fifo_list (queue sh)
     \<and> str_at (cache_buffer w') 0 = Inr bytes"
proof -
  have "feed p bytes = ([], bytes)" using assms(2) by (rule feed_none)
  moreover have "occupied (queue sh) \<le> capacity (queue sh)"
    using assms(1) by (simp add: ready_def fifo_wf_def)
  ultimately show ?thesis
    using socket_cb_room [OF assms(1), of n sy] by (auto simp: enqueued_def holding_def)
qed

text \<open>
  C31: When the queue fills up in the middle of a chunk, the jobs that fit are kept in order, one
  warning is logged, and the remaining lines and the unfinished rest are dropped.
\<close>

theorem socket_cb_queue_full:
  assumes "ready pl w p sh bytes"
    and "capacity (queue sh) < occupied (queue sh) + length (fst (feed p bytes))"
    and "LOG_WARNING \<le> log_upto sy"
  shows "\<exists>w' sh' sy'. socket_cb pl n (ReadBytes bytes) w sh sy = Inr (w', sh', sy')
     \<and> fifo_list (queue sh') = fifo_list (queue sh)
         @ take (capacity (queue sh) - occupied (queue sh)) (fst (feed p bytes))
     \<and> occupied (queue sh') = capacity (queue sh')
     \<and> syslog sy' = syslog sy @ [(LOG_WARNING, ''Queue is full'')]
     \<and> str_at (cache_buffer w') 0 = Inr []"
proof -
  obtain w' sh' where cb: "socket_cb pl n (ReadBytes bytes) w sh sy
       = Inr (w', sh', logged LOG_WARNING ''Queue is full'' [] sy)"
      "holding (cache_buffer w') []"
      "enqueued sh (take (capacity (queue sh) - occupied (queue sh)) (fst (feed p bytes))) sh'"
    using socket_cb_full [OF assms(1,2), of n sy] by blast
  have "occupied (queue sh) \<le> capacity (queue sh)"
    using assms(1) by (simp add: ready_def fifo_wf_def)
  then have "length (fifo_list (queue sh')) = capacity (queue sh')"
    using cb(3) assms(2) by (simp add: enqueued_def)
  moreover have "syslog (logged LOG_WARNING ''Queue is full'' [] sy)
      = syslog sy @ [(LOG_WARNING, ''Queue is full'')]"
    using assms(3) by (simp add: logged_def log_message_def)
  ultimately show ?thesis using cb by (auto simp: enqueued_def holding_def)
qed

theorem socket_cb_queue_full_witness:
  "\<exists>w' sh' sy'. socket_cb permissive 2
         (ReadBytes (''FETCH a'' @ newline # ''FETCH b'' @ newline # ''FE''))
         sample_watcher sample_shared sample_sys = Inr (w', sh', sy')
     \<and> fifo_list (queue sh') = [''FETCH a'']
     \<and> syslog sy' = [(LOG_WARNING, ''Queue is full'')]
     \<and> str_at (cache_buffer w') 0 = Inr []"
proof -
  let ?b = "''FETCH a'' @ newline # ''FETCH b'' @ newline # ''FE''"
  have b: "?b \<noteq> [] \<and> NUL \<notin> set ?b \<and> length ?b < BUFFER_SIZE \<and> line_fits [] ?b" by code_simp
  have f: "feed [] ?b = ([''FETCH a'', ''FETCH b''], ''FE'')" by code_simp
  have l: "LOG_WARNING \<le> log_upto sample_sys" "syslog sample_sys = []" by code_simp+
  have r: "capacity (queue sample_shared) < occupied (queue sample_shared) + length (fst (feed [] ?b))"
    unfolding f by simp
  show ?thesis
    using socket_cb_queue_full [OF sample_ready [THEN iffD2, OF b] r l(1), of 2, unfolded f]
    by (auto simp: l(2))
qed

text \<open>
  C40: The bound on the cached line is off by one: a line that reaches \<open>BUFFER_SIZE\<close> with its newline
  passes the check and makes \<^verbatim>\<open>strncat\<close> write one byte past \<open>cache_buffer\<close>.
\<close>

theorem socket_line_off_by_one:
  assumes "should_run sh" and "length (read_buffer w) = BUFFER_SIZE"
    and "holding (cache_buffer w) p" and "NUL \<notin> set (l @ newline # rest)"
    and "length (l @ newline # rest) < BUFFER_SIZE" and "newline \<notin> set l"
    and "length p + length l + 1 = BUFFER_SIZE"
  shows "socket_cb pl n (ReadBytes (l @ newline # rest)) w sh sy = Inl OutOfBounds"
proof -
  let ?s = "l @ newline # rest"
  obtain rb1 rb2 where rb: "store (read_buffer w) 0 (cells ?s) = Inr rb1"
      "put_char rb1 (length ?s) NUL = Inr rb2" "holding rb2 ?s"
    using read_buffer_filled [OF assms(2,4,5)] by blast
  have "strchr rb2 0 newline = Inr (Some (length l))"
    using rb(3) takeWhile_line [OF assms(6), of rest] by (simp add: strchr_def holding_def)
  then have "socket_loop pl rb2 (cache_buffer w) sh sy = Inl OutOfBounds"
    using socket_line_one_over [OF rb(3) assms(3) assms(7) [symmetric]]
    by (subst socket_loop.simps) simp
  then show ?thesis
    using rb assms(1) by (simp add: socket_cb_eq should_socket_worker_run_def)
qed

theorem socket_line_off_by_one_witness:
  "socket_cb iso_c 2 (ReadBytes (replicate 4 (CHR ''a'') @ newline # []))
     (sample_watcher\<lparr>cache_buffer := cells (replicate 250 (CHR ''b'')) @ replicate 5 (Some NUL)\<rparr>)
     sample_shared sample_sys = Inl OutOfBounds"
proof (rule socket_line_off_by_one)
  let ?w = "sample_watcher\<lparr>cache_buffer := cells (replicate 250 (CHR ''b'')) @ replicate 5 (Some NUL)\<rparr>"
  show "holding (cache_buffer ?w) (replicate 250 (CHR ''b''))"
    using str_at_0 [of "replicate 250 (CHR ''b'')" "replicate 4 (Some NUL)"]
    by (simp add: holding_def BUFFER_SIZE_def numeral_eq_Suc)
qed (simp_all add: sample_watcher_buffers BUFFER_SIZE_def)

text \<open>
  Under ISO C a chunk whose first line is shorter than what follows it makes \<^verbatim>\<open>strcpy\<close> copy
  between overlapping strings.
\<close>

lemma socket_cb_overlap:
  assumes "ready permissive w p sh (l @ newline # rest)" and "newline \<notin> set l"
    and "occupied (queue sh) < capacity (queue sh)" and "length l < length rest"
  shows "socket_cb iso_c n (ReadBytes (l @ newline # rest)) w sh sy = Inl Overlap"
proof -
  let ?s = "l @ newline # rest"
  have ready: "should_run sh" "fifo_wf (queue sh)" "length (read_buffer w) = BUFFER_SIZE"
      "holding (cache_buffer w) p" "NUL \<notin> set ?s" "length ?s < BUFFER_SIZE" "line_fits p ?s"
    using assms(1) by (simp_all add: ready_def)
  have fits: "length p + length l + 1 < BUFFER_SIZE"
    using ready(7) by (simp add: line_fits_def takeWhile_line [OF assms(2)])
  obtain rb1 rb2 where rb: "store (read_buffer w) 0 (cells ?s) = Inr rb1"
      "put_char rb1 (length ?s) NUL = Inr rb2" "holding rb2 ?s"
    using read_buffer_filled [OF ready(3,5,6)] by blast
  have at: "str_at rb2 0 = Inr ?s" using rb(3) by (simp add: holding_def)
  obtain cb' where cb': "holding cb' (p @ l)" and line: "socket_line iso_c (length l) rb2
        (cache_buffer w) sh sy = enqueue_line iso_c (length l) (length l + 1) rb2 cb' sh sy"
    using socket_line_fits [OF rb(3) ready(4) fits] by blast
  obtain q' where q': "fifo_enqueue (queue sh) (p @ l) = Inr (q', 1)"
    using ring.enq_room [OF ready(2) holding_NUL [OF cb']] fits assms(3) by auto
  have "str_at rb2 (length l + 1) = Inr rest"
    using str_at_suffix [of ?s "length l + 1"] at ready(5) by (auto elim!: str_at_0_E)
  then have "strcpy_within iso_c rb2 0 (length l + 1) = Inl Overlap"
    using assms(4) by (simp add: strcpy_within_def)
  then have "socket_line iso_c (length l) rb2 (cache_buffer w) sh sy = Inl Overlap"
    using cb' q' assms(4)
    by (cases rest) (simp_all add: line enqueue_line_def holding_def line_lengths [OF at] Let_def)
  moreover have "strchr rb2 0 newline = Inr (Some (length l))"
    using at takeWhile_line [OF assms(2), of rest] by (simp add: strchr_def)
  ultimately have "socket_loop iso_c rb2 (cache_buffer w) sh sy = Inl Overlap"
    by (subst socket_loop.simps) simp
  then show ?thesis
    using rb ready(1) by (simp add: socket_cb_eq should_socket_worker_run_def)
qed

text \<open>
  Once \<open>should_run\<close> is cleared the callback reads nothing more: it stops the loop, removes the
  FIFO and gives every worker one count to wake up on.
\<close>

lemma socket_cb_shutdown:
  assumes "\<not> should_run sh" and "0 \<le> n"
  shows "socket_cb pl n incoming w sh sy
     = Inr (w\<lparr>loop_running := False, fifo_linked := False\<rparr>, sh\<lparr>url_count := url_count sh + n\<rparr>, sy)"
  using assms by (simp add: socket_cb_eq should_socket_worker_run_def)

end
