(* ===== verification/Setting_Interface.thy ===== *)
theory Setting_Interface
  imports String_Utils
begin

text \<open>
  The contracts of the readers of the settings. \<open>bounded_setting\<close>: a reader of a string that
  \<^verbatim>\<open>main\<close> copies into a fixed array reports success only for a string that fits the array, and does
  not touch the heap. \<open>filling_loop\<close>: a loop over the elements of a list setting stores the text of
  each usable element in the next place of a heap list and skips the others.
\<close>

text \<open>A process state that differs at most in its log.\<close>

definition same_heap :: "sys \<Rightarrow> sys \<Rightarrow> bool" where
  "same_heap s s' \<longleftrightarrow>
     live s' = live s \<and> malloc_plan s' = malloc_plan s \<and> log_upto s' = log_upto s"

lemma same_heap_refl [simp]: "same_heap s s"
  and same_heap_logged [simp]: "same_heap s (logged p f args s')  = same_heap s s'"
  and same_heap_trans: "same_heap s s' \<Longrightarrow> same_heap s' s'' \<Longrightarrow> same_heap s s''"
  by (simp_all add: same_heap_def)

lemma same_heap_plenty: "same_heap s s' \<Longrightarrow> plenty s' = plenty s"
  by (simp add: same_heap_def plenty_def)

text \<open>The pattern of \<^verbatim>\<open>main\<close>: copy the setting, or the default with a notice.\<close>

definition adopt_setting ::
  "('cfg \<Rightarrow> string option \<Rightarrow> sys \<Rightarrow> (int \<times> string option \<times> sys) res) \<Rightarrow> 'cfg \<Rightarrow> string \<Rightarrow> string
   \<Rightarrow> cbuf \<Rightarrow> string option \<Rightarrow> sys \<Rightarrow> (cbuf \<times> string option \<times> sys) res" where
  "adopt_setting read cfg fallback message buffer str s =
     chk (read cfg str s) (\<lambda>(code, str, s).
     if code \<noteq> -1 then
       (case str of
          None \<Rightarrow> Inl NullPointer
        | Some v \<Rightarrow> chk (strcpy buffer 0 v) (\<lambda>buffer. Inr (buffer, str, s)))
     else
       chk (strcpy buffer 0 fallback) (\<lambda>buffer.
       chk (str_at buffer 0) (\<lambda>t.
       chk (log_notice message [AStr t] s) (\<lambda>s.
       Inr (buffer, str, s)))))"

text \<open>The value the program works with.\<close>

definition effective_setting :: "string option \<Rightarrow> nat \<Rightarrow> string \<Rightarrow> string" where
  "effective_setting val bound fallback =
     (case val of None \<Rightarrow> fallback | Some v \<Rightarrow> if length v < bound then v else fallback)"

locale bounded_setting =
  fixes setting_of :: "'cfg \<Rightarrow> string option"
    and bound :: nat
    and read :: "'cfg \<Rightarrow> string option \<Rightarrow> sys \<Rightarrow> (int \<times> string option \<times> sys) res"
  assumes read_missing: "setting_of cfg = None
      \<Longrightarrow> \<exists>s'. read cfg str s = Inr (-1, str, s') \<and> same_heap s s'"
    and read_short: "setting_of cfg = Some v \<Longrightarrow> length v < bound \<Longrightarrow> read cfg str s = Inr (1, Some v, s)"
    and read_long: "setting_of cfg = Some v \<Longrightarrow> bound \<le> length v
      \<Longrightarrow> \<exists>s'. read cfg str s = Inr (-1, Some v, s') \<and> same_heap s s'"
begin

lemma read_total: "\<exists>code str' s'. read cfg str s = Inr (code, str', s') \<and> same_heap s s'"
  using read_missing [of cfg str s] read_short [of cfg _ str s] read_long [of cfg _ str s]
  by (cases "setting_of cfg") (auto simp: not_less [symmetric], metis linorder_not_le same_heap_refl)

lemma adopt_fits:
  assumes "length buffer = bound" and "length fallback < bound" and "NUL \<notin> set fallback"
    and "log_fits message [AStr fallback]" and "\<And>v. setting_of cfg = Some v \<Longrightarrow> NUL \<notin> set v"
  shows "\<exists>buffer' str' s'. adopt_setting read cfg fallback message buffer str s
      = Inr (buffer', str', s')
    \<and> str_at buffer' 0 = Inr (effective_setting (setting_of cfg) bound fallback) \<and> length buffer' = bound \<and> same_heap s s'"
proof (cases "\<exists>v. setting_of cfg = Some v \<and> length v < bound")
  case True
  then obtain v where v: "setting_of cfg = Some v" "length v < bound" by blast
  then show ?thesis
    using assms read_short [OF v] by (simp add: adopt_setting_def effective_setting_def strcpy_start)
next
  case False
  obtain str' s' where read: "read cfg str s = Inr (-1, str', s')" and s': "same_heap s s'"
    using False read_missing [of cfg str s] read_long [of cfg _ str s]
    by (cases "setting_of cfg") (auto simp: not_less)
  have "effective_setting (setting_of cfg) bound fallback = fallback"
    using False by (cases "setting_of cfg") (auto simp: effective_setting_def)
  then show ?thesis
    using assms read s'
    by (simp add: adopt_setting_def strcpy_start log_notice_def log_write_fits)
qed

end

text \<open>State after \<open>n\<close> more allocations that succeeded.\<close>

definition grown :: "nat \<Rightarrow> sys \<Rightarrow> sys \<Rightarrow> bool" where
  "grown n s s' \<longleftrightarrow> live s' = live s + int n \<and> plenty s' \<and> log_upto s' = log_upto s"

lemma grown_trans: "grown m s s' \<Longrightarrow> grown n s' s'' \<Longrightarrow> grown (m + n) s s''"
  by (simp add: grown_def)

lemma grown_0: "same_heap s s' \<Longrightarrow> plenty s \<Longrightarrow> grown 0 s s'"
  by (simp add: grown_def same_heap_def plenty_def)

lemma grown_live: "plenty s \<Longrightarrow> grown 1 s (s\<lparr>live := live s + 1\<rparr>)"
  by (simp add: grown_def)

lemma grown_plenty: "grown n s s' \<Longrightarrow> plenty s'"
  by (simp add: grown_def)

text \<open>The texts of the usable elements.\<close>

fun usable :: "('x \<Rightarrow> string option) \<Rightarrow> 'x list \<Rightarrow> string list" where
  "usable entry [] = []"
| "usable entry (x # xs) =
     (case entry x of None \<Rightarrow> usable entry xs | Some t \<Rightarrow> t # usable entry xs)"

lemma length_usable: "length (usable entry xs) \<le> length xs"
proof (induction xs)
  case (Cons x xs)
  then show ?case by (cases "entry x") simp_all
qed simp

locale filling_loop =
  fixes run :: "'x list \<Rightarrow> nat \<Rightarrow> cbuf \<Rightarrow> string_list \<Rightarrow> sys \<Rightarrow> 'r"
    and final :: "string_list \<Rightarrow> sys \<Rightarrow> 'r"
    and entry :: "'x \<Rightarrow> string option"
    and good :: "'x \<Rightarrow> bool"
    and width :: nat
  assumes run_Nil: "run [] idx tmp list s = final list s"
    and run_skip: "good x \<Longrightarrow> entry x = None \<Longrightarrow>
      \<exists>s'. run (x # rest) idx tmp list s = run rest idx tmp list s' \<and> same_heap s s'"
    and run_store: "good x \<Longrightarrow> entry x = Some t \<Longrightarrow> plenty s \<Longrightarrow> length tmp = width
      \<Longrightarrow> idx < length xs \<Longrightarrow>
      \<exists>tmp' s'. run (x # rest) idx tmp (Some xs) s
          = run rest (idx + 1) tmp' (Some (xs[idx := Some t])) s'
        \<and> length tmp' = width \<and> grown 1 s s'"
begin

lemma run_fills:
  assumes "\<forall>x \<in> set rest. good x" and "plenty s" and "length tmp = width"
    and "length rest \<le> k"
  shows "\<exists>s'. run rest (length ss) tmp (Some (map Some ss @ replicate k None)) s
       = final (Some (map Some (ss @ usable entry rest)
                        @ replicate (k - length (usable entry rest)) None)) s'
     \<and> grown (length (usable entry rest)) s s'"
  using assms
proof (induction rest arbitrary: ss k tmp s)
  case Nil
  then show ?case using run_Nil by (auto simp: grown_0)
next
  case (Cons x rest)
  have good: "good x" "\<forall>x \<in> set rest. good x" using Cons.prems(1) by simp_all
  show ?case
  proof (cases "entry x")
    case None
    obtain s1 where run: "run (x # rest) (length ss) tmp (Some (map Some ss @ replicate k None)) s
        = run rest (length ss) tmp (Some (map Some ss @ replicate k None)) s1"
      and s1: "same_heap s s1"
      using run_skip [OF good(1) None] by blast
    have "plenty s1" using s1 Cons.prems(2) by (simp add: same_heap_plenty)
    then obtain s' where "run rest (length ss) tmp (Some (map Some ss @ replicate k None)) s1
        = final (Some (map Some (ss @ usable entry rest)
                         @ replicate (k - length (usable entry rest)) None)) s'"
      and "grown (length (usable entry rest)) s1 s'"
      using Cons.IH [OF good(2) _ Cons.prems(3), of s1 k ss] Cons.prems(4) by auto
    then show ?thesis
      using None run grown_trans [OF grown_0 [OF s1 Cons.prems(2)]] by auto
  next
    case (Some t)
    obtain k' where k: "k = Suc k'" using Cons.prems(4) by (cases k) auto
    let ?xs = "map Some ss @ replicate k None"
    have upd: "?xs[length ss := Some t] = map Some (ss @ [t]) @ replicate k' None"
      by (simp add: k list_update_append)
    obtain tmp1 s1 where run: "run (x # rest) (length ss) tmp (Some ?xs) s
        = run rest (length ss + 1) tmp1 (Some (map Some (ss @ [t]) @ replicate k' None)) s1"
      and tmp1: "length tmp1 = width" and s1: "grown 1 s s1"
      using run_store [OF good(1) Some Cons.prems(2,3), of "length ss" ?xs rest] k
      unfolding upd by auto
    obtain s' where "run rest (length (ss @ [t])) tmp1 (Some (map Some (ss @ [t]) @ replicate k' None)) s1
        = final (Some (map Some ((ss @ [t]) @ usable entry rest)
                         @ replicate (k' - length (usable entry rest)) None)) s'"
      and "grown (length (usable entry rest)) s1 s'"
      using Cons.IH [OF good(2) grown_plenty [OF s1] tmp1, of k' "ss @ [t]"] Cons.prems(4) k by auto
    then show ?thesis
      using Some run k grown_trans [OF s1] by auto
  qed
qed

end

end
