(* ===== verification/Config_Utils.thy ===== *)
theory Config_Utils
  imports String_Utils Setting_Interface
begin

text \<open>
  \<^verbatim>\<open>src/src/config_utils.c\<close>: reading the settings. libconfig is not part of the sources; a parsed
  file is a record of the outcomes of its lookup functions (\<open>None\<close> where the function returns
  \<^verbatim>\<open>CONFIG_FALSE\<close> or a null pointer), and the file system is a function from names to the outcome
  of \<^verbatim>\<open>config_read_file\<close>. Every reader returns its code, its out parameter and the process state.
\<close>

section \<open>libconfig as seen by its client\<close>

record setting =
  setting_string :: "string \<Rightarrow> string option"
  setting_int :: "string \<Rightarrow> int option"

record config =
  lookup_string :: "string \<Rightarrow> string option"
  lookup_int :: "string \<Rightarrow> int option"
  lookup_list :: "string \<Rightarrow> setting list option"

datatype config_file = Parsed config | ParseError int string

type_synonym config_files = "string \<Rightarrow> config_file"

section \<open>Constants\<close>

definition PATH_MAX :: nat where
  "PATH_MAX = 4096"

definition MAX_LINE_LENGTH :: nat where
  "MAX_LINE_LENGTH = 256"

definition MAX_KEY_PREFIX_LENGTH :: nat where
  "MAX_KEY_PREFIX_LENGTH = 13"

definition VAR_SEPARATOR :: char where
  "VAR_SEPARATOR = CHR '' ''"

text \<open>The formats of the messages the readers share.\<close>

definition no_setting :: "string \<Rightarrow> string" where
  "no_setting key = ''No '' @ quoted key @ '' setting in configuration file''"

definition too_long :: "string \<Rightarrow> string" where
  "too_long key = ''Maximum length exceeded on '' @ quoted key @ '': %d''"

definition invalid_setting :: "string \<Rightarrow> string" where
  "invalid_setting key = ''Invalid '' @ quoted key @ '' in configuration file''"

section \<open>The file and its version\<close>

definition load_config :: "config_files \<Rightarrow> string \<Rightarrow> sys \<Rightarrow> (int \<times> config option \<times> sys) res" where
  "load_config files cfg_filename s =
     (case files cfg_filename of
        ParseError line text \<Rightarrow>
          chk (log_error ''%s:%d - %s'' [AStr cfg_filename, AInt line, AStr text] s) (\<lambda>s.
          Inr (-1, None, s))
      | Parsed cfg \<Rightarrow> Inr (1, Some cfg, s))"

definition check_version ::
  "config \<Rightarrow> string option \<Rightarrow> string \<Rightarrow> sys \<Rightarrow> (int \<times> string option \<times> sys) res" where
  "check_version cfg version expected s =
     (case lookup_string cfg ''version'' of
        None \<Rightarrow>
          chk (log_error (no_setting ''version'') [] s) (\<lambda>s.
          Inr (-1, version, s))
      | Some v \<Rightarrow>
          if expected \<noteq> v then
            chk (log_error (''Expected configuration version '' @ quoted ''%s'' @ '', but ''
                   @ quoted ''%s'' @ '' found'') [AStr expected, AStr v] s) (\<lambda>s.
            Inr (-1, Some v, s))
          else Inr (1, Some v, s))"

section \<open>Settings that are strings\<close>

definition read_pidfile_filename ::
  "config \<Rightarrow> string option \<Rightarrow> sys \<Rightarrow> (int \<times> string option \<times> sys) res" where
  "read_pidfile_filename cfg pidfile_filename s =
     (case lookup_string cfg ''pidfile.filename'' of
        None \<Rightarrow>
          chk (log_info (no_setting ''pidfile.filename'') [] s)
            (\<lambda>s. Inr (-1, pidfile_filename, s))
      | Some v \<Rightarrow>
          if PATH_MAX \<le> length v then
            chk (log_warning (too_long ''pidfile.filename'')
                   [AInt (int PATH_MAX - 1)] s) (\<lambda>s.
            Inr (-1, Some v, s))
          else Inr (1, Some v, s))"

definition read_socket_filename ::
  "config \<Rightarrow> string option \<Rightarrow> sys \<Rightarrow> (int \<times> string option \<times> sys) res" where
  "read_socket_filename cfg fifo_filename s =
     (case lookup_string cfg ''socket.filename'' of
        None \<Rightarrow>
          chk (log_info (no_setting ''socket.filename'') [] s)
            (\<lambda>s. Inr (-1, fifo_filename, s))
      | Some v \<Rightarrow>
          if PATH_MAX \<le> length v then
            chk (log_warning (too_long ''socket.filename'')
                   [AInt (int PATH_MAX - 1)] s) (\<lambda>s.
            Inr (-1, Some v, s))
          else Inr (1, Some v, s))"

definition read_memcached_key_prefix ::
  "config \<Rightarrow> string option \<Rightarrow> sys \<Rightarrow> (int \<times> string option \<times> sys) res" where
  "read_memcached_key_prefix cfg key_prefix s =
     (case lookup_string cfg ''memcached.key.prefix'' of
        None \<Rightarrow>
          chk (log_info (no_setting ''memcached.key.prefix'') [] s) (\<lambda>s.
          Inr (-1, key_prefix, s))
      | Some v \<Rightarrow>
          if MAX_KEY_PREFIX_LENGTH \<le> length v then
            chk (log_warning (too_long ''memcached.key.prefix'') [AInt (int MAX_KEY_PREFIX_LENGTH - 1)] s) (\<lambda>s.
            Inr (-1, Some v, s))
          else Inr (1, Some v, s))"

definition read_include_dir ::
  "config \<Rightarrow> string option \<Rightarrow> sys \<Rightarrow> (int \<times> string option \<times> sys) res" where
  "read_include_dir cfg include_dir s =
     (case lookup_string cfg ''include_dir'' of
        None \<Rightarrow>
          chk (log_info (no_setting ''include_dir'') [] s)
            (\<lambda>s. Inr (-1, include_dir, s))
      | Some v \<Rightarrow>
          if PATH_MAX \<le> length v then
            chk (log_warning (too_long ''include_dir'')
                   [AInt (int PATH_MAX - 1)] s) (\<lambda>s.
            Inr (-1, Some v, s))
          else Inr (1, Some v, s))"

definition read_string ::
  "config \<Rightarrow> string \<Rightarrow> string option \<Rightarrow> nat \<Rightarrow> sys \<Rightarrow> (int \<times> string option \<times> sys) res" where
  "read_string cfg key val max_length s =
     (case lookup_string cfg key of
        None \<Rightarrow>
          chk (log_error (no_setting ''%s'') [AStr key] s)
            (\<lambda>s. Inr (-1, val, s))
      | Some v \<Rightarrow>
          if max_length < length v then
            chk (log_error (too_long ''%s'')
                   [AStr key, AInt (int max_length)] s) (\<lambda>s.
            Inr (-1, Some v, s))
          else Inr (1, Some v, s))"

section \<open>Settings that are numbers\<close>

text \<open>Both worker readers compare the address of their out parameter with zero; an address is
  never below it.\<close>

definition address_negative :: bool where
  "address_negative = False"

definition read_workers_count :: "config \<Rightarrow> int \<Rightarrow> sys \<Rightarrow> (int \<times> int \<times> sys) res" where
  "read_workers_count cfg workers_count s =
     (case lookup_int cfg ''worker.threads'' of
        None \<Rightarrow>
          chk (log_info (no_setting ''worker.threads'') [] s)
            (\<lambda>s. Inr (-1, workers_count, s))
      | Some v \<Rightarrow>
          if address_negative then
            chk (log_warning (invalid_setting ''worker.threads'') [] s)
              (\<lambda>s. Inr (-1, v, s))
          else Inr (1, v, s))"

definition read_worker_contention :: "config \<Rightarrow> int \<Rightarrow> sys \<Rightarrow> (int \<times> int \<times> sys) res" where
  "read_worker_contention cfg worker_contention s =
     (case lookup_int cfg ''worker.contention'' of
        None \<Rightarrow>
          chk (log_info (no_setting ''worker.contention'')
                 [] s) (\<lambda>s.
          Inr (-1, worker_contention, s))
      | Some v \<Rightarrow>
          if address_negative then
            chk (log_warning (invalid_setting ''worker.contention'')
                   [] s) (\<lambda>s.
            Inr (-1, v, s))
          else Inr (1, v, s))"

definition read_memcached_expiration :: "config \<Rightarrow> int \<Rightarrow> sys \<Rightarrow> (int \<times> int \<times> sys) res" where
  "read_memcached_expiration cfg expiration s =
     (case lookup_int cfg ''memcached.expiration'' of
        None \<Rightarrow>
          chk (log_info (no_setting ''memcached.expiration'') [] s) (\<lambda>s.
          Inr (-1, expiration, s))
      | Some v \<Rightarrow>
          if v < 0 then
            chk (log_warning (invalid_setting ''memcached.expiration'') [] s) (\<lambda>s.
            Inr (-1, expiration, s))
          else Inr (1, v, s))"

definition read_int ::
  "config \<Rightarrow> string \<Rightarrow> int \<Rightarrow> int \<Rightarrow> int \<Rightarrow> sys \<Rightarrow> (int \<times> int \<times> sys) res" where
  "read_int cfg key val least greatest s =
     (case lookup_int cfg key of
        None \<Rightarrow>
          chk (log_info (no_setting ''%s'') [AStr key] s)
            (\<lambda>s. Inr (-1, val, s))
      | Some v \<Rightarrow>
          if v < least \<and> greatest < v then
            chk (log_warning (invalid_setting ''%s'') [AStr key] s)
              (\<lambda>s. Inr (-1, val, s))
          else Inr (1, v, s))"

section \<open>The readers keep their contract\<close>

lemma log_fits_no_setting:
  "CHR ''%'' \<notin> set key \<Longrightarrow> NUL \<notin> set key \<Longrightarrow> length key < 100 \<Longrightarrow> log_fits (no_setting key) []"
  unfolding no_setting_def by (rule log_fits_plain) (simp_all add: QUERAL_LOG_BUFFER_SIZE_def)

lemma log_fits_invalid:
  "CHR ''%'' \<notin> set key \<Longrightarrow> NUL \<notin> set key \<Longrightarrow> length key < 100 \<Longrightarrow> log_fits (invalid_setting key) []"
  unfolding invalid_setting_def by (rule log_fits_plain) (simp_all add: QUERAL_LOG_BUFFER_SIZE_def)

lemma log_fits_too_long:
  assumes "CHR ''%'' \<notin> set key" and "NUL \<notin> set key" and "length key < 100"
    and "0 \<le> i" and "i < 10000"
  shows "log_fits (too_long key) [AInt i]"
proof -
  have "too_long key = (''Maximum length exceeded on '' @ quoted key @ '': '') @ ''%d''"
    by (simp add: too_long_def)
  moreover have "length (show_int i) \<le> 4" using length_show_int [of i 3] assms(4,5) by simp
  ultimately show ?thesis
    using assms(1-3) log_fits_number [of "''Maximum length exceeded on '' @ quoted key @ '': ''" i]
    by (simp add: QUERAL_LOG_BUFFER_SIZE_def)
qed

lemmas reader_log = log_defs log_write_fits log_fits_no_setting log_fits_invalid log_fits_too_long

interpretation pidfile: bounded_setting "\<lambda>cfg. lookup_string cfg ''pidfile.filename''" PATH_MAX
    read_pidfile_filename
  by unfold_locales (auto simp: read_pidfile_filename_def reader_log PATH_MAX_def)

interpretation socket_file: bounded_setting "\<lambda>cfg. lookup_string cfg ''socket.filename''" PATH_MAX
    read_socket_filename
  by unfold_locales (auto simp: read_socket_filename_def reader_log PATH_MAX_def)

interpretation key_prefix: bounded_setting "\<lambda>cfg. lookup_string cfg ''memcached.key.prefix''"
    MAX_KEY_PREFIX_LENGTH read_memcached_key_prefix
  by unfold_locales (auto simp: read_memcached_key_prefix_def reader_log MAX_KEY_PREFIX_LENGTH_def)

interpretation include_dir: bounded_setting "\<lambda>cfg. lookup_string cfg ''include_dir''" PATH_MAX
    read_include_dir
  by unfold_locales (auto simp: read_include_dir_def reader_log PATH_MAX_def)

text \<open>The numbers: no reader faults, and each reports the setting it found.\<close>

lemma read_workers_count_eq:
  "\<exists>s'. read_workers_count cfg n s
      = Inr (case lookup_int cfg ''worker.threads'' of None \<Rightarrow> (-1, n, s') | Some v \<Rightarrow> (1, v, s'))
     \<and> same_heap s s'"
  by (auto simp: read_workers_count_def reader_log address_negative_def split: option.splits)

lemma read_worker_contention_eq:
  "\<exists>s'. read_worker_contention cfg n s
      = Inr (case lookup_int cfg ''worker.contention'' of None \<Rightarrow> (-1, n, s') | Some v \<Rightarrow> (1, v, s'))
     \<and> same_heap s s'"
  by (auto simp: read_worker_contention_def reader_log address_negative_def split: option.splits)

lemma read_memcached_expiration_eq:
  "\<exists>s'. read_memcached_expiration cfg n s
      = Inr (case lookup_int cfg ''memcached.expiration'' of
               None \<Rightarrow> (-1, n, s') | Some v \<Rightarrow> if v < 0 then (-1, n, s') else (1, v, s'))
     \<and> same_heap s s'"
  by (auto simp: read_memcached_expiration_def reader_log split: option.splits)

end
