(* ===== verification/Config_Lists.thy ===== *)
theory Config_Lists
  imports Config_Utils
begin

text \<open>
  The second half of \<^verbatim>\<open>src/src/config_utils.c\<close>: the settings that are lists. The memcached servers,
  the variables and the pages of an action become null-terminated lists of heap strings; the
  variables are substituted in the pages.
\<close>

section \<open>Storing an entry\<close>

text \<open>\<^verbatim>\<open>list[idx] = x\<close> on a \<^verbatim>\<open>char **\<close>.\<close>

definition set_entry :: "string_list \<Rightarrow> nat \<Rightarrow> string option \<Rightarrow> string_list res" where
  "set_entry list idx x =
     (case list of
        None \<Rightarrow> Inl NullPointer
      | Some xs \<Rightarrow> if idx < length xs then Inr (Some (xs[idx := x])) else Inl OutOfBounds)"

text \<open>The end of every round of the three reading loops: duplicate the text in \<open>tmp\<close>, store it, and
  on failure log, destroy the list and return a null pointer. The flag says whether the function
  returns from inside the loop.\<close>

definition store_entry ::
  "string \<Rightarrow> string_list \<Rightarrow> int \<Rightarrow> nat \<Rightarrow> cbuf \<Rightarrow> sys \<Rightarrow> (bool \<times> string_list \<times> sys) res" where
  "store_entry failure list count idx tmp s =
     chk (str_at tmp 0) (\<lambda>t.
     let (dup, s) = dup_string t s in
     chk (set_entry list idx dup) (\<lambda>list.
     if dup = None then
       chk (log_error failure [] s) (\<lambda>s.
       chk (destroy_string_list list count s) (\<lambda>s.
       Inr (True, None, s)))
     else Inr (False, list, s)))"

section \<open>The memcached servers\<close>

fun server_loop ::
  "setting list \<Rightarrow> int \<Rightarrow> nat \<Rightarrow> cbuf \<Rightarrow> string_list \<Rightarrow> sys \<Rightarrow> (string_list \<times> sys) res" where
  "server_loop [] count idx tmp list s = Inr (list, s)"
| "server_loop (server # rest) count idx tmp list s =
     (case (setting_string server ''hostname'', setting_int server ''port'') of
        (Some hostname, Some port) \<Rightarrow>
          chk (printf_from ''%s:%ld'' [AStr hostname, AInt port]) (\<lambda>t.
          chk (strcpy tmp 0 t) (\<lambda>tmp.
          chk (store_entry ''Failed to allocate memory for memcached server names'' list count idx
                 tmp s) (\<lambda>(returned, list, s).
          if returned then Inr (list, s) else server_loop rest count (idx + 1) tmp list s)))
      | _ \<Rightarrow>
          chk (log_warning ''memcached servers incomplete'' [] s) (\<lambda>s.
          server_loop rest count idx tmp list s))"

definition read_memcached_servers ::
  "config \<Rightarrow> int \<Rightarrow> sys \<Rightarrow> (string_list \<times> int \<times> sys) res" where
  "read_memcached_servers cfg server_count s =
     (case lookup_list cfg ''memcached.servers'' of
        None \<Rightarrow>
          chk (log_info (no_setting ''memcached.servers'') [] s) (\<lambda>s. Inr (None, server_count, s))
      | Some setting \<Rightarrow>
          let server_count = int (length setting);
              (memcached_servers, s) = init_string_list server_count s in
          chk (server_loop setting server_count 0 (fresh MAX_LINE_LENGTH) memcached_servers s)
            (\<lambda>(list, s). Inr (list, server_count, s)))"

section \<open>The variables\<close>

fun variable_loop ::
  "setting list \<Rightarrow> int \<Rightarrow> nat \<Rightarrow> cbuf \<Rightarrow> string_list \<Rightarrow> sys \<Rightarrow> (string_list \<times> sys) res" where
  "variable_loop [] count idx tmp list s = Inr (list, s)"
| "variable_loop (variable # rest) count idx tmp list s =
     (case (setting_string variable ''name'', setting_string variable ''value'') of
        (Some name, Some val) \<Rightarrow>
          if CHR '' '' \<in> set name then
            chk (log_warning (''Found invalid name while parsing variables: '' @ quoted ''%s'')
                   [AStr name] s) (\<lambda>s.
            variable_loop rest count idx tmp list s)
          else
            chk (printf_from ''$%s%c%s'' [AStr name, AChar VAR_SEPARATOR, AStr val]) (\<lambda>t.
            chk (strcpy tmp 0 t) (\<lambda>tmp.
            chk (store_entry ''Failed to allocate memory for cache variables'' list count idx tmp s)
              (\<lambda>(returned, list, s).
              if returned then Inr (list, s) else variable_loop rest count (idx + 1) tmp list s)))
      | _ \<Rightarrow>
          chk (log_warning ''Cache variables incomplete'' [] s) (\<lambda>s.
          variable_loop rest count idx tmp list s))"

definition read_variable_list ::
  "config \<Rightarrow> int \<Rightarrow> int \<Rightarrow> sys \<Rightarrow> (string_list \<times> int \<times> sys) res" where
  "read_variable_list cfg variable_count maximum_count s =
     (case lookup_list cfg ''cache.variables'' of
        None \<Rightarrow>
          chk (log_info (no_setting ''cache.variables'') [] s) (\<lambda>s. Inr (None, variable_count, s))
      | Some setting \<Rightarrow>
          let variable_count = int (length setting) in
          if maximum_count < variable_count then
            chk (log_info ''Maximum number of variables exceeded in configuration: %d''
                   [AInt maximum_count] s) (\<lambda>s.
            Inr (None, variable_count, s))
          else
            let (variables_list, s) = init_string_list variable_count s in
            chk (variable_loop setting variable_count 0 (fresh MAX_LINE_LENGTH) variables_list s)
              (\<lambda>(list, s). Inr (list, variable_count, s)))"

section \<open>Substituting variables\<close>

text \<open>\<^verbatim>\<open>strtok\<close> with one delimiter, on the text at an offset: the offset of the token (\<open>None\<close> for a
  null pointer), the array with the delimiter behind the token overwritten, and the offset at which
  \<^verbatim>\<open>strtok(NULL, ...)\<close> goes on.\<close>

definition strtok :: "cbuf \<Rightarrow> nat \<Rightarrow> char \<Rightarrow> (nat option \<times> cbuf \<times> nat) res" where
  "strtok b p c =
     chk (str_at b p) (\<lambda>s.
     let k = length (takeWhile (\<lambda>x. x = c) s); t = takeWhile (\<lambda>x. x \<noteq> c) (drop k s);
         e = p + k + length t in
     if t = [] then Inr (None, b, e)
     else if k + length t < length s then
       chk (put_char b e NUL) (\<lambda>b. Inr (Some (p + k), b, e + 1))
     else Inr (Some (p + k), b, e))"

text \<open>Split an entry into the arrays \<open>name\<close> and \<open>variable\<close> (which ends up holding the value).\<close>

definition split_variable ::
  "platform \<Rightarrow> nat \<Rightarrow> cbuf \<Rightarrow> cbuf \<Rightarrow> string \<Rightarrow> (cbuf \<times> cbuf) res" where
  "split_variable pl str_length variable name entry =
     chk (strcpy variable 0 entry) (\<lambda>variable.
     chk (strtok variable 0 VAR_SEPARATOR) (\<lambda>(ptok, variable, saved).
     case ptok of
       None \<Rightarrow> Inr (variable, name)
     | Some p \<Rightarrow>
         chk (str_at variable p) (\<lambda>t.
         chk (strcpy name 0 t) (\<lambda>name.
         chk (strtok variable saved VAR_SEPARATOR) (\<lambda>(ptok, variable, saved).
         case ptok of
           None \<Rightarrow> Inr (variable, name)
         | Some p \<Rightarrow>
             chk (memmove_within pl variable 0 p str_length) (\<lambda>variable.
             Inr (variable, name)))))))"

text \<open>A computation that may not return: \<open>None\<close> stands for the loop that never ends.\<close>

type_synonym 'a run = "'a res option"

definition andthen :: "'a run \<Rightarrow> ('a \<Rightarrow> 'b run) \<Rightarrow> 'b run" where
  "andthen r f =
     (case r of None \<Rightarrow> None | Some (Inl e) \<Rightarrow> Some (Inl e) | Some (Inr x) \<Rightarrow> f x)"

lemma andthen_simps [simp]:
  "andthen None f = None" "andthen (Some (Inl e)) f = Some (Inl e)" "andthen (Some (Inr x)) f = f x"
  by (simp_all add: andthen_def)

text \<open>The loop that replaces every occurrence. \<open>name\<close> and \<open>val\<close> do not change in it.\<close>

partial_function (option) replace_all :: "nat \<Rightarrow> string \<Rightarrow> string \<Rightarrow> cbuf \<Rightarrow> cbuf run" where
  "replace_all str_length name val str =
     (case replace_string str str_length name val of
        Inl e \<Rightarrow> Some (Inl e)
      | Inr (replaced, str) \<Rightarrow>
          if replaced = 1 then replace_all str_length name val str else Some (Inr str))"

declare replace_all.simps [code]

text \<open>\<open>variable\<close> and \<open>name\<close> are the local arrays, which keep their contents between rounds.\<close>

fun substitute_loop ::
  "platform \<Rightarrow> nat \<Rightarrow> string option list \<Rightarrow> int \<Rightarrow> cbuf \<Rightarrow> cbuf \<Rightarrow> cbuf \<Rightarrow> cbuf run" where
  "substitute_loop pl str_length [] n variable name str =
     (if 0 < n then Some (Inl OutOfBounds) else Some (Inr str))"
| "substitute_loop pl str_length (entry # rest) n variable name str =
     (if 0 < n then
        (case entry of
           None \<Rightarrow> Some (Inr str)
         | Some e \<Rightarrow>
             andthen (Some (split_variable pl str_length variable name e)) (\<lambda>(variable, name).
             andthen (Some (str_at name 0)) (\<lambda>nm.
             andthen (Some (str_at variable 0)) (\<lambda>val.
             andthen (replace_all str_length nm val str) (\<lambda>str.
             substitute_loop pl str_length rest (n - 1) variable name str)))))
      else Some (Inr str))"

definition substitute_variables ::
  "platform \<Rightarrow> cbuf \<Rightarrow> nat \<Rightarrow> string option list \<Rightarrow> int \<Rightarrow> cbuf run" where
  "substitute_variables pl str str_length variables variable_count =
     substitute_loop pl str_length variables variable_count (fresh MAX_LINE_LENGTH)
       (fresh MAX_LINE_LENGTH) str"

section \<open>The pages\<close>

fun url_loop ::
  "platform \<Rightarrow> setting list \<Rightarrow> int \<Rightarrow> string option list \<Rightarrow> int \<Rightarrow> nat \<Rightarrow> cbuf \<Rightarrow> string_list \<Rightarrow> sys
   \<Rightarrow> (string_list \<times> sys) run" where
  "url_loop pl [] count variables variable_count idx tmp list s = Some (Inr (list, s))"
| "url_loop pl (page # rest) count variables variable_count idx tmp list s =
     (case setting_string page ''url'' of
        None \<Rightarrow>
          andthen (Some (log_warning ''Cache pages incomplete'' [] s)) (\<lambda>s.
          url_loop pl rest count variables variable_count idx tmp list s)
      | Some url \<Rightarrow>
          andthen (Some (strcpy tmp 0 url)) (\<lambda>tmp.
          andthen (substitute_variables pl tmp MAX_LINE_LENGTH variables variable_count) (\<lambda>tmp.
          andthen (Some (store_entry ''Failed to allocate memory for cache pages'' list count idx
                           tmp s)) (\<lambda>(returned, list, s).
          if returned then Some (Inr (list, s))
          else url_loop pl rest count variables variable_count (idx + 1) tmp list s))))"

definition read_url_list ::
  "platform \<Rightarrow> config \<Rightarrow> int \<Rightarrow> int \<Rightarrow> string option list \<Rightarrow> int \<Rightarrow> sys
   \<Rightarrow> (string_list \<times> int \<times> sys) run" where
  "read_url_list pl cfg url_count maximum_count variables variable_count s =
     (case lookup_list cfg ''cache.pages'' of
        None \<Rightarrow>
          andthen (Some (log_info (no_setting ''cache.pages'') [] s)) (\<lambda>s.
          Some (Inr (None, url_count, s)))
      | Some setting \<Rightarrow>
          let url_count = int (length setting) in
          if maximum_count < url_count then
            andthen (Some (log_info ''Maximum number of pages exceeded in configuration: %d''
                             [AInt maximum_count] s)) (\<lambda>s.
            Some (Inr (None, url_count, s)))
          else
            let (urls_list, s) = init_string_list url_count s in
            andthen (url_loop pl setting url_count variables variable_count 0
                       (fresh MAX_LINE_LENGTH) urls_list s) (\<lambda>(list, s).
            Some (Inr (list, url_count, s))))"

section \<open>The lists the readers build\<close>

text \<open>The text of an element, when it has all of its fields.\<close>

definition server_name :: "setting \<Rightarrow> string option" where
  "server_name x =
     (case (setting_string x ''hostname'', setting_int x ''port'') of
        (Some h, Some p) \<Rightarrow> Some (h @ '':'' @ show_int p) | _ \<Rightarrow> None)"

definition variable_entry :: "setting \<Rightarrow> string option" where
  "variable_entry x =
     (case (setting_string x ''name'', setting_string x ''value'') of
        (Some n, Some v) \<Rightarrow> if CHR '' '' \<in> set n then None else Some (CHR ''$'' # n @ CHR '' '' # v)
      | _ \<Rightarrow> None)"

text \<open>Elements that do not overrun \<open>tmp\<close> or the log buffer.\<close>

definition server_good :: "setting \<Rightarrow> bool" where
  "server_good x \<longleftrightarrow>
     (case server_name x of None \<Rightarrow> True | Some t \<Rightarrow> NUL \<notin> set t \<and> length t < MAX_LINE_LENGTH)"

definition variable_good :: "setting \<Rightarrow> bool" where
  "variable_good x \<longleftrightarrow>
     (case variable_entry x of
        None \<Rightarrow> (\<forall>n. setting_string x ''name'' = Some n \<longrightarrow> NUL \<notin> set n \<and> length n < 200)
      | Some t \<Rightarrow> NUL \<notin> set t \<and> length t < MAX_LINE_LENGTH)"

lemma store_entry_plenty:
  assumes "plenty s" and "str_at tmp 0 = Inr t" and "idx < length xs"
  shows "store_entry failure (Some xs) count idx tmp s
       = Inr (False, Some (xs[idx := Some t]), s\<lparr>live := live s + 1\<rparr>)"
  using assms by (simp add: store_entry_def dup_string_def set_entry_def)

lemma log_fits_incomplete:
  "log_fits ''memcached servers incomplete'' []" "log_fits ''Cache variables incomplete'' []"
  "log_fits ''Cache pages incomplete'' []"
  by (simp_all add: log_fits_def QUERAL_LOG_BUFFER_SIZE_def)

lemma log_fits_invalid_name:
  "NUL \<notin> set n \<Longrightarrow> length n < 200
   \<Longrightarrow> log_fits (''Found invalid name while parsing variables: '' @ quoted ''%s'') [AStr n]"
  by (simp add: log_fits_def convert_def QUERAL_LOG_BUFFER_SIZE_def)

lemma printf_server:
  "printf_from ''%s:%ld'' [AStr h, AInt p] = Inr (h @ '':'' @ show_int p)"
  by (simp add: convert_def)

lemma printf_variable:
  "printf_from ''$%s%c%s'' [AStr n, AChar c, AStr v] = Inr (CHR ''$'' # n @ c # v)"
  by (simp add: convert_def)

interpretation servers: filling_loop "\<lambda>rest. server_loop rest count" "\<lambda>list s. Inr (list, s)"
    server_name server_good MAX_LINE_LENGTH for count
proof unfold_locales
  fix x rest idx tmp list s
  assume "server_name x = None"
  then show "\<exists>s'. server_loop (x # rest) count idx tmp list s = server_loop rest count idx tmp list s'
      \<and> same_heap s s'"
    by (auto simp: server_name_def log_defs log_write_fits log_fits_incomplete
        split: option.splits)
next
  fix x t and s :: sys and tmp :: cbuf and idx and xs :: "string option list" and rest
  assume x: "server_good x" "server_name x = Some t" and s: "plenty s"
    and tmp: "length tmp = MAX_LINE_LENGTH" and idx: "idx < length xs"
  obtain h p where hp: "setting_string x ''hostname'' = Some h" "setting_int x ''port'' = Some p"
      "t = h @ '':'' @ show_int p"
    using x(2) by (auto simp: server_name_def split: option.splits)
  have t: "NUL \<notin> set t" "length t < length tmp" using x tmp by (simp_all add: server_good_def)
  then obtain tmp' where "strcpy tmp 0 t = Inr tmp'" "str_at tmp' 0 = Inr t" "length tmp' = length tmp"
    by (rule strcpy_fits)
  then show "\<exists>tmp' s'. server_loop (x # rest) count idx tmp (Some xs) s
        = server_loop rest count (idx + 1) tmp' (Some (xs[idx := Some t])) s'
      \<and> length tmp' = MAX_LINE_LENGTH \<and> grown 1 s s'"
    using hp tmp store_entry_plenty [OF s _ idx] grown_live [OF s]
    unfolding server_loop.simps hp(1,2) prod.case option.case printf_server hp(3) [symmetric]
    by auto
qed simp

interpretation variables: filling_loop "\<lambda>rest. variable_loop rest count"
    "\<lambda>list s. Inr (list, s)" variable_entry variable_good MAX_LINE_LENGTH for count
proof unfold_locales
  fix x rest idx tmp list s
  assume x: "variable_good x" "variable_entry x = None"
  show "\<exists>s'. variable_loop (x # rest) count idx tmp list s
        = variable_loop rest count idx tmp list s' \<and> same_heap s s'"
  proof (cases "setting_string x ''name'' = None \<or> setting_string x ''value'' = None")
    case True
    then show ?thesis
      by (auto simp: log_defs log_write_fits log_fits_incomplete split: option.splits)
  next
    case False
    then obtain n v where nv: "setting_string x ''name'' = Some n" "setting_string x ''value'' = Some v"
      by auto
    then have blank: "CHR '' '' \<in> set n"
      using x(2) by (simp add: variable_entry_def split: if_splits)
    have n: "NUL \<notin> set n" "length n < 200" using x nv by (simp_all add: variable_good_def)
    show ?thesis
      unfolding variable_loop.simps nv prod.case option.case log_warning_def
        log_write_fits [OF log_fits_invalid_name [OF n]]
      using blank by auto
  qed
next
  fix x t and s :: sys and tmp :: cbuf and idx and xs :: "string option list" and rest
  assume x: "variable_good x" "variable_entry x = Some t" and s: "plenty s"
    and tmp: "length tmp = MAX_LINE_LENGTH" and idx: "idx < length xs"
  obtain n v where nv: "setting_string x ''name'' = Some n" "setting_string x ''value'' = Some v"
      "CHR '' '' \<notin> set n" "t = CHR ''$'' # n @ VAR_SEPARATOR # v"
    using x(2) by (auto simp: variable_entry_def VAR_SEPARATOR_def split: option.splits if_splits)
  have t: "NUL \<notin> set t" "length t < length tmp" using x tmp by (simp_all add: variable_good_def)
  then obtain tmp' where "strcpy tmp 0 t = Inr tmp'" "str_at tmp' 0 = Inr t" "length tmp' = length tmp"
    by (rule strcpy_fits)
  then show "\<exists>tmp' s'. variable_loop (x # rest) count idx tmp (Some xs) s
        = variable_loop rest count (idx + 1) tmp' (Some (xs[idx := Some t])) s'
      \<and> length tmp' = MAX_LINE_LENGTH \<and> grown 1 s s'"
    using nv(3) tmp store_entry_plenty [OF s _ idx] grown_live [OF s]
    unfolding variable_loop.simps nv(1,2) prod.case option.case printf_variable nv(4) [symmetric]
    by auto
qed simp

section \<open>Splitting an entry\<close>

text \<open>What the code takes for the value: the first word behind the name.\<close>

definition value_word :: "string \<Rightarrow> string" where
  "value_word v = takeWhile (\<lambda>x. x \<noteq> CHR '' '') (dropWhile (\<lambda>x. x = CHR '' '') v)"

lemma takeWhile_eq_replicate: "takeWhile (\<lambda>x. x = c) s = replicate (length (takeWhile (\<lambda>x. x = c) s)) c"
  by (induction s) auto

text \<open>A token leaves its text and a NUL in the array, at its offset.\<close>

lemma token_at_front:
  assumes "t = takeWhile (\<lambda>x. x \<noteq> c) (dropWhile (\<lambda>x. x = c) (t @ v))" and "t \<noteq> []"
  shows "takeWhile (\<lambda>x. x = c) (t @ v) = []"
proof -
  obtain x t' where x: "t = x # t'" using assms(2) by (cases t) auto
  then have "x \<in> set (takeWhile (\<lambda>x. x \<noteq> c) (dropWhile (\<lambda>x. x = c) (t @ v)))"
    using assms(1) by (metis list.set_intros(1))
  then have "x \<noteq> c" by (blast dest: set_takeWhileD)
  then show ?thesis by (simp add: x)
qed

lemma strtok_token:
  assumes pre: "length pre = p" and nul: "NUL \<notin> set s"
    and t: "t = takeWhile (\<lambda>x. x \<noteq> c) (dropWhile (\<lambda>x. x = c) s)" "t \<noteq> []"
  defines "k \<equiv> length (takeWhile (\<lambda>x. x = c) s)"
  shows "\<exists>r' saved. strtok (pre @ cells s @ Some NUL # r) p c
      = Inr (Some (p + k), pre @ cells (replicate k c @ t) @ Some NUL # r', saved)
    \<and> length (cells (replicate k c @ t) @ Some NUL # r') = length (cells s @ Some NUL # r)
    \<and> (\<forall>v. s = t @ c # v \<longrightarrow> saved = p + length t + 1 \<and> r' = cells v @ Some NUL # r)"
proof -
  define u where "u = drop (k + length t) s"
  let ?b = "pre @ cells s @ Some NUL # r"
  have b: "str_at ?b p = Inr s" using pre nul by simp
  have dw: "dropWhile (\<lambda>x. x = c) s = drop k s"
    unfolding k_def by (rule dropWhile_eq_drop)
  have "drop k s = t @ drop (length t) (drop k s)"
    unfolding t(1) dw by (metis append_take_drop_id takeWhile_eq_take)
  then have s: "s = replicate k c @ t @ u"
    by (metis takeWhile_eq_replicate takeWhile_dropWhile_id dw k_def u_def drop_drop add.commute)
  have k0: "k = 0" if "s = t @ c # v" for v
    unfolding k_def that using token_at_front [OF t(1) [unfolded that] t(2)] by simp
  show ?thesis
  proof (cases "k + length t < length s")
    case True
    then obtain x v where u: "u = x # v" by (cases u) (auto simp: u_def)
    have "put_char ((pre @ cells (replicate k c @ t)) @ Some x # cells v @ Some NUL # r)
        (p + k + length t) NUL
      = Inr ((pre @ cells (replicate k c @ t)) @ Some NUL # cells v @ Some NUL # r)"
      by (rule put_char_layout) (simp add: pre)
    moreover have "?b = (pre @ cells (replicate k c @ t)) @ Some x # cells v @ Some NUL # r"
      by (subst s) (simp add: u)
    ultimately have put: "put_char ?b (p + k + length t) NUL
        = Inr (pre @ cells (replicate k c @ t) @ Some NUL # cells v @ Some NUL # r)"
      by simp
    have "strtok ?b p c = Inr (Some (p + k),
        pre @ cells (replicate k c @ t) @ Some NUL # cells v @ Some NUL # r, p + k + length t + 1)"
      using b t True put unfolding strtok_def by (simp add: Let_def dw [symmetric] flip: k_def)
    moreover have "length (cells (replicate k c @ t) @ Some NUL # cells v @ Some NUL # r)
        = length (cells s @ Some NUL # r)"
      by (subst s) (simp add: u)
    moreover have "v' = v" if "s = t @ c # v'" for v'
      using s that k0 [OF that] by (simp add: u)
    ultimately show ?thesis using k0 by auto
  next
    case False
    then have "u = []" by (simp add: u_def)
    then have "?b = pre @ cells (replicate k c @ t) @ Some NUL # r" by (subst s) simp
    moreover have "s \<noteq> t @ c # v" for v
      using False k0 [of v] by auto
    ultimately show ?thesis
      using b t False
      by (simp add: strtok_def Let_def dw [symmetric] flip: k_def)
  qed
qed

lemma strtok_none:
  assumes "length pre = p" and "NUL \<notin> set s"
    and "takeWhile (\<lambda>x. x \<noteq> c) (dropWhile (\<lambda>x. x = c) s) = []"
  shows "\<exists>saved. strtok (pre @ cells s @ Some NUL # r) p c
      = Inr (None, pre @ cells s @ Some NUL # r, saved)"
  using assms by (simp add: strtok_def Let_def dropWhile_eq_drop [symmetric])

text \<open>Both tokens of an entry. Without a value the array keeps the name.\<close>

lemma split_variable_start:
  assumes nm: "CHR '' '' \<notin> set nm" and nul: "NUL \<notin> set (nm @ raw)"
    and variable: "length (nm @ raw) + 2 < length variable"
    and name: "length (nm @ raw) + 2 < length name"
  obtains name' r where "str_at name' 0 = Inr (CHR ''$'' # nm)" and "length name' = length name"
    and "length ((cells (CHR ''$'' # nm) @ [Some NUL]) @ cells raw @ Some NUL # r) = length variable"
    and "split_variable pl n variable name (CHR ''$'' # nm @ CHR '' '' # raw)
      = chk (strtok ((cells (CHR ''$'' # nm) @ [Some NUL]) @ cells raw @ Some NUL # r)
              (length (cells (CHR ''$'' # nm) @ [Some NUL])) (CHR '' ''))
          (\<lambda>(ptok, variable, saved).
            case ptok of None \<Rightarrow> Inr (variable, name')
            | Some p \<Rightarrow> chk (memmove_within pl variable 0 p n) (\<lambda>variable. Inr (variable, name')))"
proof -
  let ?t = "CHR ''$'' # nm" let ?e = "?t @ CHR '' '' # raw"
  define r where "r = drop (Suc (length ?e)) variable"
  have copy: "strcpy variable 0 ?e = Inr (cells ?e @ Some NUL # r)"
    unfolding r_def using variable by (intro strcpy_start) simp
  have tok: "takeWhile (\<lambda>x. x \<noteq> CHR '' '') (dropWhile (\<lambda>x. x = CHR '' '') ?e) = ?t"
    using nm by (simp add: takeWhile_append)
  have first: "strtok (cells ?e @ Some NUL # r) 0 (CHR '' '')
      = Inr (Some 0, cells ?t @ Some NUL # cells raw @ Some NUL # r, length ?t + 1)"
    using strtok_token [of "[]" 0 ?e ?t "CHR '' ''" r] tok nul by auto
  have at: "str_at (cells ?t @ Some NUL # cells raw @ Some NUL # r) 0 = Inr ?t"
    using nul str_at_0 [of ?t "cells raw @ Some NUL # r"] by simp
  obtain name' where name': "strcpy name 0 ?t = Inr name'" "str_at name' 0 = Inr ?t"
      "length name' = length name"
    using nul name strcpy_fits [of ?t name] by auto
  show thesis
    using that [of name' r] name' copy first at variable
    by (simp add: split_variable_def VAR_SEPARATOR_def r_def)
qed

lemma split_variable_eq:
  assumes nm: "CHR '' '' \<notin> set nm" and nul: "NUL \<notin> set (nm @ raw)"
    and variable: "length (nm @ raw) + 2 < length variable"
    and name: "length (nm @ raw) + 2 < length name"
  shows "\<exists>variable1 name'. str_at name' 0 = Inr (CHR ''$'' # nm) \<and> length name' = length name
     \<and> (if value_word raw = []
        then split_variable pl n variable name (CHR ''$'' # nm @ CHR '' '' # raw)
               = Inr (variable1, name')
           \<and> str_at variable1 0 = Inr (CHR ''$'' # nm) \<and> length variable1 = length variable
        else \<exists>pre r'. variable1 = pre @ cells (value_word raw) @ Some NUL # r'
           \<and> length variable1 = length variable \<and> pre \<noteq> []
           \<and> split_variable pl n variable name (CHR ''$'' # nm @ CHR '' '' # raw)
             = chk (memmove_within pl variable1 0 (length pre) n) (\<lambda>variable. Inr (variable, name')))"
proof -
  let ?t = "CHR ''$'' # nm" let ?e = "CHR ''$'' # nm @ CHR '' '' # raw" let ?pre = "cells ?t @ [Some NUL]"
  obtain name' r where name': "str_at name' 0 = Inr ?t" "length name' = length name"
    and len: "length (?pre @ cells raw @ Some NUL # r) = length variable"
    and start: "split_variable pl n variable name ?e
      = chk (strtok (?pre @ cells raw @ Some NUL # r) (length ?pre) (CHR '' ''))
          (\<lambda>(ptok, variable, saved).
            case ptok of None \<Rightarrow> Inr (variable, name')
            | Some p \<Rightarrow> chk (memmove_within pl variable 0 p n) (\<lambda>variable. Inr (variable, name')))"
    using assms by (rule split_variable_start)
  have at: "str_at (?pre @ cells raw @ Some NUL # r) 0 = Inr ?t"
    using nul str_at_0 [of ?t "cells raw @ Some NUL # r"] by simp
  show ?thesis
  proof (cases "value_word raw = []")
    case True
    have "\<exists>saved. strtok (?pre @ cells raw @ Some NUL # r) (length ?pre) (CHR '' '')
        = Inr (None, ?pre @ cells raw @ Some NUL # r, saved)"
      using nul True by (intro strtok_none) (simp_all add: value_word_def)
    then have "split_variable pl n variable name ?e = Inr (?pre @ cells raw @ Some NUL # r, name')"
      using start by auto
    then show ?thesis using True name' at len by auto
  next
    case False
    define k where "k = length (takeWhile (\<lambda>x. x = CHR '' '') raw)"
    obtain r' saved where second: "strtok (?pre @ cells raw @ Some NUL # r) (length ?pre) (CHR '' '')
        = Inr (Some (length ?pre + k),
            ?pre @ cells (replicate k (CHR '' '') @ value_word raw) @ Some NUL # r', saved)"
      and len': "length (cells (replicate k (CHR '' '') @ value_word raw) @ Some NUL # r')
        = length (cells raw @ Some NUL # r)"
      using strtok_token [of ?pre "length ?pre" raw "value_word raw" "CHR '' ''" r] nul False
      unfolding value_word_def k_def by auto
    define q where "q = ?pre @ cells (replicate k (CHR '' ''))"
    have "split_variable pl n variable name ?e
        = chk (memmove_within pl (q @ cells (value_word raw) @ Some NUL # r') 0 (length q) n)
            (\<lambda>variable. Inr (variable, name'))"
      using start second by (simp add: q_def)
    moreover have "length (q @ cells (value_word raw) @ Some NUL # r') = length variable"
      using len len' by (simp add: q_def)
    moreover have "q \<noteq> []" by (simp add: q_def)
    ultimately show ?thesis using False name' by force
  qed
qed

section \<open>Replacing every occurrence\<close>

text \<open>Names start with a dollar sign. A replacement by a value without one takes a dollar sign out
  of the text, which bounds the number of rounds and the length of the result.\<close>

definition dollars :: "string \<Rightarrow> nat" where
  "dollars s = count_list s (CHR ''$'')"

lemma dollars_append [simp]: "dollars (s @ t) = dollars s + dollars t"
  by (simp add: dollars_def)

lemma dollars_free: "CHR ''$'' \<notin> set s \<Longrightarrow> dollars s = 0"
  by (simp add: dollars_def count_list_0_iff)

lemma dollars_replace_at:
  assumes "strstr s (CHR ''$'' # nm) = Some i" and "CHR ''$'' \<notin> set val"
  shows "dollars (replace_at i (CHR ''$'' # nm) val s) < dollars s"
proof -
  let ?name = "CHR ''$'' # nm"
  have "dollars s = dollars (take i s @ ?name @ drop (i + length ?name) s)"
    using strstr_Some [OF assms(1)] by simp
  then show ?thesis
    using dollars_free [OF assms(2)] by (simp add: replace_at_def, simp add: dollars_def)
qed

function expand :: "string \<Rightarrow> string \<Rightarrow> string \<Rightarrow> string" where
  "expand name val s =
     (case replace_first name val s of
        None \<Rightarrow> s
      | Some t \<Rightarrow> if dollars t < dollars s then expand name val t else t)"
  by pat_completeness auto
termination
  by (relation "measure (\<lambda>(name, val, s). dollars s)") auto

declare expand.simps [simp del]

lemma expand_step:
  assumes "strstr s (CHR ''$'' # nm) = Some i" and "CHR ''$'' \<notin> set val"
  shows "expand (CHR ''$'' # nm) val s = expand (CHR ''$'' # nm) val (replace_at i (CHR ''$'' # nm) val s)"
  using assms dollars_replace_at [OF assms]
  by (subst expand.simps) (simp add: replace_first_def)

lemma expand_none: "\<not> sublist name s \<Longrightarrow> expand name val s = s"
  by (subst expand.simps) (simp add: replace_first_def flip: strstr_None)

text \<open>Nothing is left to replace.\<close>

lemma expand_complete:
  assumes "CHR ''$'' \<notin> set val"
  shows "\<not> sublist (CHR ''$'' # nm) (expand (CHR ''$'' # nm) val s)"
proof (induction "dollars s" arbitrary: s rule: less_induct)
  case less
  show ?case
  proof (cases "strstr s (CHR ''$'' # nm)")
    case None
    then show ?thesis by (simp add: strstr_None expand_none)
  next
    case (Some i)
    then show ?thesis
      using less dollars_replace_at [OF Some assms] by (simp add: expand_step [OF Some assms])
  qed
qed

lemma expand_NUL: "NUL \<notin> set s \<Longrightarrow> NUL \<notin> set val \<Longrightarrow> NUL \<notin> set (expand name val s)"
proof (induction name val s rule: expand.induct)
  case (1 name val s)
  then show ?case
    by (subst expand.simps)
      (auto simp: replace_first_def NUL_notin_replace_at split: option.splits)
qed

text \<open>A bound that no round increases.\<close>

definition weight :: "nat \<Rightarrow> string \<Rightarrow> nat" where
  "weight m s = length s + dollars s * m"

lemma weight_replace_at:
  assumes i: "strstr s (CHR ''$'' # nm) = Some i" and val: "CHR ''$'' \<notin> set val" "length val \<le> m"
  shows "weight m (replace_at i (CHR ''$'' # nm) val s) \<le> weight m s"
proof -
  let ?name = "CHR ''$'' # nm" let ?t = "replace_at i ?name val s"
  have less: "dollars ?t < dollars s" by (rule dollars_replace_at [OF i val(1)])
  have "length ?name \<le> length s" using strstr_Some [OF i] by simp
  then have "length ?t \<le> length s + m" using length_replace_at [OF i, of val] val(2) by simp
  moreover have "(dollars ?t + 1) * m \<le> dollars s * m" using less by (intro mult_le_mono1) simp
  ultimately show ?thesis by (simp add: weight_def)
qed

lemma replace_all_expand:
  assumes "CHR ''$'' \<notin> set val" and "NUL \<notin> set val" and "length val \<le> m"
    and "str_at str 0 = Inr s" and "weight m s < length str"
  shows "\<exists>str'. replace_all (length str) (CHR ''$'' # nm) val str = Some (Inr str')
     \<and> str_at str' 0 = Inr (expand (CHR ''$'' # nm) val s) \<and> length str' = length str
     \<and> weight m (expand (CHR ''$'' # nm) val s) \<le> weight m s"
  using assms(4,5)
proof (induction "dollars s" arbitrary: str s rule: less_induct)
  case less
  let ?name = "CHR ''$'' # nm"
  show ?case
  proof (cases "strstr s ?name")
    case None
    then have none: "\<not> sublist ?name s" by (simp add: strstr_None)
    then have "replace_string str (length str) ?name val = Inr (0, str)"
      using replace_refused [OF less.prems(1)] by blast
    then show ?thesis using less.prems none by (subst replace_all.simps) (simp add: expand_none)
  next
    case (Some i)
    let ?t = "replace_at i ?name val s"
    have weight: "weight m ?t \<le> weight m s" by (rule weight_replace_at [OF Some assms(1,3)])
    then have fits: "length ?t < length str" using less.prems(2) by (simp add: weight_def)
    have nul: "NUL \<notin> set s" using less.prems(1) by (auto simp: str_at_def cstr_eq_Inr_iff)
    obtain str1 where str1: "replace_string str (length str) ?name val = Inr (1, str1)"
        "str_at str1 0 = Inr ?t" "length str1 = length str"
      using replace_found_fits [OF nul assms(2) Some fits less.prems(1)] by blast
    obtain str' where "replace_all (length str) ?name val str1 = Some (Inr str')"
        "str_at str' 0 = Inr (expand ?name val ?t)" "length str' = length str"
        "weight m (expand ?name val ?t) \<le> weight m ?t"
      using less.hyps [OF dollars_replace_at [OF Some assms(1)] str1(2)] str1(3) weight less.prems(2)
      by auto
    then show ?thesis
      using str1 weight expand_step [OF Some assms(1)]
      by (subst replace_all.simps) (simp add: order_trans)
  qed
qed

text \<open>With any value that has no dollar sign the loop ends, if only in a fault.\<close>

lemma replace_all_returns:
  assumes "CHR ''$'' \<notin> set val" and "NUL \<notin> set val" and "str_at str 0 = Inr s"
  shows "\<exists>r. replace_all (length str) (CHR ''$'' # nm) val str = Some r"
  using assms(3)
proof (induction "dollars s" arbitrary: str s rule: less_induct)
  case less
  let ?name = "CHR ''$'' # nm"
  have nul: "NUL \<notin> set s" using less.prems(1) by (auto simp: str_at_def cstr_eq_Inr_iff)
  show ?case
  proof (cases "replace_string str (length str) ?name val")
    case (Inl e)
    then show ?thesis by (subst replace_all.simps) simp
  next
    case (Inr p)
    obtain code str1 where p: "p = (code, str1)" by (cases p)
    show ?thesis
    proof (cases "code = 1")
      case False
      then show ?thesis using Inr p by (subst replace_all.simps) simp
    next
      case True
      obtain i where i: "strstr s ?name = Some i"
        using Inr p True replace_refused [OF less.prems, of ?name "length str" val]
        by (cases "strstr s ?name") (auto simp: strstr_None)
      have "i < length str"
        using strstr_Some [OF i] less.prems by (auto simp: str_at_def cstr_eq_Inr_iff)
      then have "length (replace_at i ?name val s) < length str"
        using Inr p True i replace_refused [OF less.prems, of ?name "length str" val]
          replace_found_overflow [OF less.prems i, of "length str" val]
        by (metis (no_types) Inl_Inr_False Inr_inject linorder_not_le one_neq_neg_one prod.inject)
      then have "str_at str1 0 = Inr (replace_at i ?name val s) \<and> length str1 = length str"
        using Inr p replace_found_fits [OF nul assms(2) i _ less.prems] by auto
      then have "\<exists>r. replace_all (length str) ?name val str1 = Some r"
        using less.hyps [OF dollars_replace_at [OF i assms(1)], of str1] by auto
      then show ?thesis using Inr p True by (subst replace_all.simps) simp
    qed
  qed
qed

text \<open>A variable that stands for itself is replaced for ever.\<close>

lemma replace_self:
  assumes "str_at str 0 = Inr s" and "strstr s name = Some i"
  shows "\<exists>str'. replace_string str (length str) name name = Inr (1, str')
     \<and> str_at str' 0 = Inr s \<and> length str' = length str"
proof -
  have s: "replace_at i name name s = s"
    using strstr_Some [OF assms(2)] by (simp add: replace_at_def)
  have nul: "NUL \<notin> set s" "length s < length str"
    using assms(1) by (auto simp: str_at_def cstr_eq_Inr_iff)
  have "set name \<subseteq> set s"
    using strstr_Some [OF assms(2)] by (metis Un_iff set_append subsetI)
  then show ?thesis
    using replace_found_fits [OF nul(1) _ assms(2) _ assms(1), of name] nul s by auto
qed

lemma replace_all_self:
  assumes "replace_all n name val str = Some y"
  shows "name = val \<longrightarrow> length str = n \<longrightarrow> (\<forall>s. str_at str 0 = Inr s \<longrightarrow> \<not> sublist name s)"
  using assms
proof (rule replace_all.raw_induct [rotated], intro impI allI notI)
  fix loop n name val str y s
  assume IH: "\<And>n name val str y. loop n name val str = Some y \<Longrightarrow>
      name = val \<longrightarrow> length str = n \<longrightarrow> (\<forall>s. str_at str 0 = Inr s \<longrightarrow> \<not> sublist name s)"
    and body: "(case replace_string str n name val of
        Inl e \<Rightarrow> Some (Inl e)
      | Inr (replaced, str) \<Rightarrow> if replaced = 1 then loop n name val str else Some (Inr str)) = Some y"
    and same: "name = val" "length str = n" and s: "str_at str 0 = Inr s" "sublist name s"
  obtain i where "strstr s name = Some i"
    using s(2) by (cases "strstr s name") (auto simp: strstr_None)
  then obtain str' where str': "replace_string str n name val = Inr (1, str')"
      "str_at str' 0 = Inr s" "length str' = n"
    using replace_self [OF s(1)] same by auto
  then have "loop n name val str' = Some y" using body by simp
  then show False using IH str'(2,3) same s(2) by blast
qed

lemma replace_all_diverges:
  assumes "str_at str 0 = Inr s" and "sublist name s"
  shows "replace_all (length str) name name str = None"
proof (rule ccontr)
  assume "replace_all (length str) name name str \<noteq> None"
  then obtain y where "replace_all (length str) name name str = Some y" by blast
  then show False using replace_all_self assms by blast
qed

end
