(* ===== verification/Config_Pages.thy ===== *)
theory Config_Pages
  imports Config_Lists
begin

text \<open>
  What the list readers of \<^verbatim>\<open>config_utils.c\<close> deliver: the servers, the variables, and the pages with
  their variables substituted. A variable is given as the pair of its name and its raw value; the
  code uses the first word of the value only.
\<close>

section \<open>Variables and their substitution\<close>

definition entry_text :: "string \<times> string \<Rightarrow> string" where
  "entry_text v = CHR ''$'' # fst v @ CHR '' '' # snd v"

definition expand_all :: "(string \<times> string) list \<Rightarrow> string \<Rightarrow> string" where
  "expand_all vs s = foldl (\<lambda>s v. expand (CHR ''$'' # fst v) (value_word (snd v)) s) s vs"

text \<open>A variable that fits the arrays and whose value is a word without a dollar sign.\<close>

definition variable_fits :: "string \<times> string \<Rightarrow> bool" where
  "variable_fits v \<longleftrightarrow>
     CHR '' '' \<notin> set (fst v) \<and> NUL \<notin> set (fst v @ snd v)
     \<and> length (fst v @ snd v) + 2 < MAX_LINE_LENGTH"

definition variable_ok :: "nat \<Rightarrow> string \<times> string \<Rightarrow> bool" where
  "variable_ok m v \<longleftrightarrow>
     variable_fits v \<and> value_word (snd v) \<noteq> []
     \<and> CHR ''$'' \<notin> set (value_word (snd v)) \<and> length (value_word (snd v)) \<le> m"

lemma expand_all_simps [simp]:
  "expand_all [] s = s"
  "expand_all (v # vs) s = expand_all vs (expand (CHR ''$'' # fst v) (value_word (snd v)) s)"
  by (simp_all add: expand_all_def)

lemma set_value_word: "set (value_word v) \<subseteq> set v"
  by (auto simp: value_word_def dest!: set_takeWhileD set_dropWhileD)

text \<open>One variable with a value, on a platform that tolerates the over-long block read.\<close>

lemma split_variable_value:
  assumes "over_read pl" and v: "variable_fits v" "value_word (snd v) \<noteq> []"
    and len: "length variable = MAX_LINE_LENGTH" "length name = MAX_LINE_LENGTH"
  shows "\<exists>variable' name'. split_variable pl MAX_LINE_LENGTH variable name (entry_text v)
      = Inr (variable', name')
     \<and> str_at name' 0 = Inr (CHR ''$'' # fst v) \<and> str_at variable' 0 = Inr (value_word (snd v))
     \<and> length variable' = MAX_LINE_LENGTH \<and> length name' = MAX_LINE_LENGTH"
proof -
  let ?n = MAX_LINE_LENGTH
  have fits: "CHR '' '' \<notin> set (fst v)" "NUL \<notin> set (fst v @ snd v)"
      "length (fst v @ snd v) + 2 < length variable" "length (fst v @ snd v) + 2 < length name"
    using v(1) len by (simp_all add: variable_fits_def)
  obtain name' pre r' where name': "str_at name' 0 = Inr (CHR ''$'' # fst v)"
      "length name' = length name" and pre: "pre \<noteq> []"
      and b: "length (pre @ cells (value_word (snd v)) @ Some NUL # r') = length variable"
      and split: "split_variable pl ?n variable name (entry_text v)
        = chk (memmove_within pl (pre @ cells (value_word (snd v)) @ Some NUL # r') 0 (length pre) ?n)
            (\<lambda>variable. Inr (variable, name'))"
    using split_variable_eq [OF fits, of pl ?n] v(2) unfolding entry_text_def by auto
  let ?b = "pre @ cells (value_word (snd v)) @ Some NUL # r'"
  have n: "?n = length ?b" using b len(1) by (rule trans [OF sym sym, rotated])
  have rest: "take ?n (drop (length pre) ?b) = cells (value_word (snd v)) @ Some NUL # r'"
    unfolding n by simp
  have "length pre \<le> length ?b" by simp
  then obtain more where more: "memmove_within pl ?b 0 (length pre) ?n
      = Inr ((cells (value_word (snd v)) @ Some NUL # r') @ more @ drop ?n ?b)"
    and lmore: "length (cells (value_word (snd v)) @ Some NUL # r') + length more = ?n"
    using memmove_to_front [of pl "length pre" ?n ?b] assms(1) n unfolding rest by auto
  let ?v = "(cells (value_word (snd v)) @ Some NUL # r') @ more @ drop ?n ?b"
  have "drop ?n ?b = []" unfolding n by simp
  then have "length ?v = ?n" using lmore by simp
  moreover have "str_at ?v 0 = Inr (value_word (snd v))"
  proof -
    have "NUL \<notin> set (value_word (snd v))" using fits(2) set_value_word by auto
    then show ?thesis by simp
  qed
  ultimately show ?thesis using split more name' len(2) by auto
qed

lemma split_variable_overreads:
  assumes "\<not> over_read pl" and v: "variable_fits v" "value_word (snd v) \<noteq> []"
    and len: "length variable = MAX_LINE_LENGTH" "length name = MAX_LINE_LENGTH"
  shows "split_variable pl MAX_LINE_LENGTH variable name (entry_text v) = Inl OutOfBounds"
proof -
  let ?n = MAX_LINE_LENGTH
  have fits: "CHR '' '' \<notin> set (fst v)" "NUL \<notin> set (fst v @ snd v)"
      "length (fst v @ snd v) + 2 < length variable" "length (fst v @ snd v) + 2 < length name"
    using v(1) len by (simp_all add: variable_fits_def)
  obtain name' pre r' where pre: "pre \<noteq> []"
      and b: "length (pre @ cells (value_word (snd v)) @ Some NUL # r') = length variable"
      and split: "split_variable pl ?n variable name (entry_text v)
        = chk (memmove_within pl (pre @ cells (value_word (snd v)) @ Some NUL # r') 0 (length pre) ?n)
            (\<lambda>variable. Inr (variable, name'))"
    using split_variable_eq [OF fits, of pl ?n] v(2) unfolding entry_text_def by auto
  let ?b = "pre @ cells (value_word (snd v)) @ Some NUL # r'"
  have "length ?b < length pre + ?n" using pre b len(1) by (cases pre) simp_all
  then have "memmove_within pl ?b 0 (length pre) ?n = Inl OutOfBounds"
    using assms(1) by (rule memmove_faults)
  then show ?thesis using split by simp
qed

text \<open>A blank value: the array \<open>variable\<close> still holds the name.\<close>

lemma split_variable_blank:
  assumes v: "variable_fits v" "value_word (snd v) = []"
    and len: "length variable = MAX_LINE_LENGTH" "length name = MAX_LINE_LENGTH"
  shows "\<exists>variable' name'. split_variable pl n variable name (entry_text v) = Inr (variable', name')
     \<and> str_at name' 0 = Inr (CHR ''$'' # fst v) \<and> str_at variable' 0 = Inr (CHR ''$'' # fst v)"
proof -
  have "CHR '' '' \<notin> set (fst v)" "NUL \<notin> set (fst v @ snd v)"
      "length (fst v @ snd v) + 2 < length variable" "length (fst v @ snd v) + 2 < length name"
    using v(1) len by (simp_all add: variable_fits_def)
  then show ?thesis
    using split_variable_eq [of "fst v" "snd v" variable name pl n] v(2)
    unfolding entry_text_def by auto
qed

lemma substitute_prefix:
  assumes "over_read pl" and "\<forall>v \<in> set vs. variable_ok m v"
    and "length variable = MAX_LINE_LENGTH" and "length name = MAX_LINE_LENGTH"
    and "length str = MAX_LINE_LENGTH" and "str_at str 0 = Inr s" and "weight m s < MAX_LINE_LENGTH"
    and "0 \<le> c"
  shows "\<exists>variable' name' str'.
     substitute_loop pl MAX_LINE_LENGTH (map (Some \<circ> entry_text) vs @ rest) (int (length vs) + c)
       variable name str
     = substitute_loop pl MAX_LINE_LENGTH rest c variable' name' str'
     \<and> length variable' = MAX_LINE_LENGTH \<and> length name' = MAX_LINE_LENGTH
     \<and> length str' = MAX_LINE_LENGTH \<and> str_at str' 0 = Inr (expand_all vs s)"
  using assms(2-7)
proof (induction vs arbitrary: variable name str s)
  case Nil
  then show ?case by auto
next
  case (Cons v vs)
  have v: "variable_fits v" "value_word (snd v) \<noteq> []" "CHR ''$'' \<notin> set (value_word (snd v))"
      "length (value_word (snd v)) \<le> m"
    using Cons.prems(1) by (simp_all add: variable_ok_def)
  have vs: "\<forall>v \<in> set vs. variable_ok m v" using Cons.prems(1) by simp
  obtain variable1 name1 where split: "split_variable pl MAX_LINE_LENGTH variable name (entry_text v)
      = Inr (variable1, name1)"
    "str_at name1 0 = Inr (CHR ''$'' # fst v)" "str_at variable1 0 = Inr (value_word (snd v))"
    "length variable1 = MAX_LINE_LENGTH" "length name1 = MAX_LINE_LENGTH"
    using split_variable_value [OF assms(1) v(1,2) Cons.prems(2,3)] by blast
  have nul: "NUL \<notin> set (value_word (snd v))"
    using v(1) set_value_word by (auto simp: variable_fits_def)
  obtain str1 where all: "replace_all (length str) (CHR ''$'' # fst v) (value_word (snd v)) str
      = Some (Inr str1)"
    "str_at str1 0 = Inr (expand (CHR ''$'' # fst v) (value_word (snd v)) s)"
    "length str1 = length str"
    "weight m (expand (CHR ''$'' # fst v) (value_word (snd v)) s) \<le> weight m s"
    using replace_all_expand [OF v(3) nul v(4) Cons.prems(5)] Cons.prems(4,6) by auto
  have "0 < int (length (v # vs)) + c" and e: "int (length (v # vs)) + c - 1 = int (length vs) + c"
    using assms(8) by simp_all
  then have step: "substitute_loop pl MAX_LINE_LENGTH (map (Some \<circ> entry_text) (v # vs) @ rest)
        (int (length (v # vs)) + c) variable name str
      = substitute_loop pl MAX_LINE_LENGTH (map (Some \<circ> entry_text) vs @ rest)
          (int (length vs) + c) variable1 name1 str1"
    using split all(1) Cons.prems(4) by simp
  show ?case
    unfolding step expand_all_simps
    using all(3,4) Cons.prems(4,6) by (intro Cons.IH [OF vs split(4,5) _ all(2)]) simp_all
qed

lemma substitute_variables_ok:
  assumes "over_read pl" and "\<forall>v \<in> set vs. variable_ok m v"
    and "length str = MAX_LINE_LENGTH" and "str_at str 0 = Inr s" and "weight m s < MAX_LINE_LENGTH"
  shows "\<exists>str'. substitute_variables pl str MAX_LINE_LENGTH
       (map (Some \<circ> entry_text) vs @ replicate k None) (int (length vs + k)) = Some (Inr str')
     \<and> str_at str' 0 = Inr (expand_all vs s) \<and> length str' = MAX_LINE_LENGTH"
proof -
  have stop: "substitute_loop pl n (replicate k None) (int k) variable name str = Some (Inr str)"
    for n variable name str by (cases k) simp_all
  show ?thesis
    using substitute_prefix [OF assms(1,2) length_fresh length_fresh assms(3-5) of_nat_0_le_iff [of k],
        of "replicate k None"]
    by (auto simp: substitute_variables_def stop)
qed

section \<open>The pages\<close>

definition page_url :: "(string \<times> string) list \<Rightarrow> setting \<Rightarrow> string option" where
  "page_url vs x = map_option (expand_all vs) (setting_string x ''url'')"

definition page_good :: "platform \<Rightarrow> nat \<Rightarrow> (string \<times> string) list \<Rightarrow> setting \<Rightarrow> bool" where
  "page_good pl m vs x \<longleftrightarrow>
     over_read pl \<and> (\<forall>v \<in> set vs. variable_ok m v)
     \<and> (\<forall>u. setting_string x ''url'' = Some u \<longrightarrow> NUL \<notin> set u \<and> weight m u < MAX_LINE_LENGTH)"

interpretation pages: filling_loop
    "\<lambda>rest. url_loop pl rest count (map (Some \<circ> entry_text) vs @ replicate k None) (int (length vs + k))"
    "\<lambda>list s. Some (Inr (list, s))" "page_url vs" "page_good pl m vs" MAX_LINE_LENGTH
  for pl count vs k m
proof unfold_locales
  fix x rest idx tmp list s
  assume "page_url vs x = None"
  then show "\<exists>s'. url_loop pl (x # rest) count (map (Some \<circ> entry_text) vs @ replicate k None)
        (int (length vs + k)) idx tmp list s
      = url_loop pl rest count (map (Some \<circ> entry_text) vs @ replicate k None)
        (int (length vs + k)) idx tmp list s' \<and> same_heap s s'"
    by (auto simp: page_url_def log_defs log_write_fits log_fits_incomplete)
next
  fix x t and s :: sys and tmp :: cbuf and idx and xs :: "string option list" and rest
  assume x: "page_good pl m vs x" "page_url vs x = Some t" and s: "plenty s"
    and tmp: "length tmp = MAX_LINE_LENGTH" and idx: "idx < length xs"
  obtain u where u: "setting_string x ''url'' = Some u" "t = expand_all vs u"
    using x(2) by (auto simp: page_url_def)
  have good: "over_read pl" "\<forall>v \<in> set vs. variable_ok m v" "NUL \<notin> set u"
      "weight m u < MAX_LINE_LENGTH"
    using x(1) u(1) by (simp_all add: page_good_def)
  have "length u < length tmp" using good(4) tmp by (simp add: weight_def)
  then obtain tmp1 where tmp1: "strcpy tmp 0 u = Inr tmp1" "str_at tmp1 0 = Inr u"
      "length tmp1 = MAX_LINE_LENGTH"
    using strcpy_fits [OF good(3)] tmp by metis
  obtain tmp' where tmp': "substitute_variables pl tmp1 MAX_LINE_LENGTH
        (map (Some \<circ> entry_text) vs @ replicate k None) (int (length vs + k)) = Some (Inr tmp')"
      "str_at tmp' 0 = Inr t" "length tmp' = MAX_LINE_LENGTH"
    using substitute_variables_ok [OF good(1,2) tmp1(3,2) good(4)] u(2) by blast
  show "\<exists>tmp' s'. url_loop pl (x # rest) count (map (Some \<circ> entry_text) vs @ replicate k None)
        (int (length vs + k)) idx tmp (Some xs) s
      = url_loop pl rest count (map (Some \<circ> entry_text) vs @ replicate k None)
        (int (length vs + k)) (idx + 1) tmp' (Some (xs[idx := Some t])) s'
      \<and> length tmp' = MAX_LINE_LENGTH \<and> grown 1 s s'"
    unfolding url_loop.simps u(1) option.case tmp1(1) tmp'(1) andthen_simps
      store_entry_plenty [OF s tmp'(2) idx] prod.case if_False
    using tmp'(3) grown_live [OF s] by blast
qed simp

text \<open>Setting up a list, on a heap that has room.\<close>

lemma init_string_list_plenty:
  "plenty s \<Longrightarrow> 0 < n \<Longrightarrow>
   init_string_list (int n) s = (Some (replicate n None), s\<lparr>live := live s + 1\<rparr>)"
  by (simp add: init_string_list_def)

lemma log_fits_list_missing:
  "log_fits (no_setting ''cache.variables'') []" "log_fits (no_setting ''cache.pages'') []"
  "log_fits (no_setting ''memcached.servers'') []"
  by (simp_all add: log_fits_no_setting)

lemma log_fits_list_long:
  assumes "0 \<le> i" and "i < 10000"
  shows "log_fits ''Maximum number of variables exceeded in configuration: %d'' [AInt i]"
    and "log_fits ''Maximum number of pages exceeded in configuration: %d'' [AInt i]"
  using length_show_int [of i 3] assms NUL_notin_show_int [of i]
  by (simp_all add: log_fits_def convert_def QUERAL_LOG_BUFFER_SIZE_def)

lemma read_servers_fills:
  assumes xs: "lookup_list cfg ''memcached.servers'' = Some xs" "xs \<noteq> []"
    and good: "\<forall>x \<in> set xs. server_good x" and s: "plenty s"
  shows "\<exists>s'. read_memcached_servers cfg n s
       = Inr (Some (map Some (usable server_name xs)
                      @ replicate (length xs - length (usable server_name xs)) None),
              int (length xs), s')
     \<and> grown (Suc (length (usable server_name xs))) s s'"
proof -
  let ?s = "s\<lparr>live := live s + 1\<rparr>"
  have init: "init_string_list (int (length xs)) s = (Some (replicate (length xs) None), ?s)"
    using s xs(2) by (simp add: init_string_list_plenty)
  have "plenty ?s" using s by simp
  then obtain s' where "server_loop xs (int (length xs)) 0 (fresh MAX_LINE_LENGTH)
        (Some (replicate (length xs) None)) ?s
      = Inr (Some (map Some (usable server_name xs)
                     @ replicate (length xs - length (usable server_name xs)) None), s')"
    "grown (length (usable server_name xs)) ?s s'"
    using servers.run_fills [OF good _ length_fresh order_refl, of ?s "int (length xs)" "[]"] by auto
  then show ?thesis
    using init xs(1) grown_trans [OF grown_live [OF s]]
    by (simp add: read_memcached_servers_def Let_def)
qed

lemma read_variables_fills:
  assumes xs: "lookup_list cfg ''cache.variables'' = Some xs" "xs \<noteq> []"
    and few: "int (length xs) \<le> limit"
    and good: "\<forall>x \<in> set xs. variable_good x" and s: "plenty s"
  shows "\<exists>s'. read_variable_list cfg n limit s
       = Inr (Some (map Some (usable variable_entry xs)
                      @ replicate (length xs - length (usable variable_entry xs)) None),
              int (length xs), s')
     \<and> grown (Suc (length (usable variable_entry xs))) s s'"
proof -
  let ?s = "s\<lparr>live := live s + 1\<rparr>"
  have init: "init_string_list (int (length xs)) s = (Some (replicate (length xs) None), ?s)"
    using s xs(2) by (simp add: init_string_list_plenty)
  have "plenty ?s" using s by simp
  then obtain s' where "variable_loop xs (int (length xs)) 0 (fresh MAX_LINE_LENGTH)
        (Some (replicate (length xs) None)) ?s
      = Inr (Some (map Some (usable variable_entry xs)
                     @ replicate (length xs - length (usable variable_entry xs)) None), s')"
    "grown (length (usable variable_entry xs)) ?s s'"
    using variables.run_fills [OF good _ length_fresh order_refl, of ?s "int (length xs)" "[]"] by auto
  then show ?thesis
    using init xs(1) few grown_trans [OF grown_live [OF s]]
    by (simp add: read_variable_list_def Let_def)
qed

lemma read_urls_fills:
  assumes xs: "lookup_list cfg ''cache.pages'' = Some xs" "xs \<noteq> []"
    and few: "int (length xs) \<le> limit"
    and good: "\<forall>x \<in> set xs. page_good pl m vs x" and s: "plenty s"
  shows "\<exists>s'. read_url_list pl cfg n limit (map (Some \<circ> entry_text) vs @ replicate k None)
         (int (length vs + k)) s
       = Some (Inr (Some (map Some (usable (page_url vs) xs)
                      @ replicate (length xs - length (usable (page_url vs) xs)) None),
              int (length xs), s'))
     \<and> grown (Suc (length (usable (page_url vs) xs))) s s'"
proof -
  let ?s = "s\<lparr>live := live s + 1\<rparr>" and ?vars = "map (Some \<circ> entry_text) vs @ replicate k None"
  have init: "init_string_list (int (length xs)) s = (Some (replicate (length xs) None), ?s)"
    using s xs(2) by (simp add: init_string_list_plenty)
  have "plenty ?s" using s by simp
  then obtain s' where "url_loop pl xs (int (length xs)) ?vars (int (length vs + k)) 0
        (fresh MAX_LINE_LENGTH) (Some (replicate (length xs) None)) ?s
      = Some (Inr (Some (map Some (usable (page_url vs) xs)
                     @ replicate (length xs - length (usable (page_url vs) xs)) None), s'))"
    "grown (length (usable (page_url vs) xs)) ?s s'"
    using pages.run_fills [OF good _ length_fresh order_refl, of ?s "int (length xs)" k "[]"] by auto
  then show ?thesis
    using init xs(1) few grown_trans [OF grown_live [OF s]]
    by (simp add: read_url_list_def Let_def del: of_nat_add o_apply)
qed

text \<open>Configurations to evaluate on.\<close>

definition sample_server :: setting where
  "sample_server =
     \<lparr>setting_string = (\<lambda>k. if k = ''hostname'' then Some ''localhost'' else None),
      setting_int = (\<lambda>k. if k = ''port'' then Some 11211 else None)\<rparr>"

definition sample_page :: "string \<Rightarrow> setting" where
  "sample_page url =
     \<lparr>setting_string = (\<lambda>k. if k = ''url'' then Some url else None), setting_int = (\<lambda>_. None)\<rparr>"

definition sample_variable :: "string \<Rightarrow> string \<Rightarrow> setting" where
  "sample_variable n v =
     \<lparr>setting_string = (\<lambda>k. if k = ''name'' then Some n else if k = ''value'' then Some v else None),
      setting_int = (\<lambda>_. None)\<rparr>"

definition sample_config :: config where
  "sample_config =
     \<lparr>lookup_string = (\<lambda>k. if k = ''version'' then Some ''1.0''
                          else if k = ''cache.name'' then Some ''home'' else None),
      lookup_int = (\<lambda>_. None),
      lookup_list = (\<lambda>k. if k = ''memcached.servers'' then Some [sample_server, sample_page []]
        else if k = ''cache.variables'' then Some [sample_variable ''host'' ''www.a.org'']
        else if k = ''cache.pages'' then Some [sample_page ''http://$host/'', sample_server]
        else None)\<rparr>"

section \<open>Properties\<close>

text \<open>
  The server list holds \<open>host:port\<close> for each complete server of the configuration, in order,
  with null pointers behind, and destroying it gives back everything it took from the heap.
\<close>

lemma read_memcached_servers_lists:
  assumes "lookup_list cfg ''memcached.servers'' = Some xs" and "xs \<noteq> []"
    and "\<forall>x \<in> set xs. server_good x" and "plenty s"
  shows "\<exists>list s' s''. read_memcached_servers cfg n s = Inr (Some list, int (length xs), s')
     \<and> packed list \<and> entries list = usable server_name xs
     \<and> destroy_string_list (Some list) (int (length xs)) s' = Inr s'' \<and> live s'' = live s"
proof -
  let ?ss = "usable server_name xs"
  let ?list = "map Some ?ss @ replicate (length xs - length ?ss) None"
  obtain s' where s': "read_memcached_servers cfg n s = Inr (Some ?list, int (length xs), s')"
      "grown (Suc (length ?ss)) s s'"
    using read_servers_fills [OF assms] by blast
  have packed: "packed ?list" by (auto simp: packed_def)
  have "length ?list = length xs" using length_usable [of server_name xs] by simp
  then have "destroy_string_list (Some ?list) (int (length xs)) s'
      = Inr (s'\<lparr>live := live s' - int (length ?ss) - 1\<rparr>)"
    using destroy_packed [OF packed, of s'] by simp
  moreover have "live s' - int (length ?ss) - 1 = live s" using s'(2) by (simp add: grown_def)
  ultimately show ?thesis using s'(1) packed entries_packed by auto
qed

text \<open>
  C16: On a platform that tolerates its over-long block reads, \<open>substitute_variables\<close> returns with
  every variable substituted in turn, and no occurrence of the last one is left.
\<close>

theorem substitute_variables_replaces:
  assumes "over_read pl" and "\<forall>v \<in> set (vs @ [v]). variable_ok m v"
    and "length str = MAX_LINE_LENGTH" and "str_at str 0 = Inr s" and "weight m s < MAX_LINE_LENGTH"
  shows "\<exists>str'. substitute_variables pl str MAX_LINE_LENGTH
       (map (Some \<circ> entry_text) (vs @ [v]) @ replicate k None) (int (length (vs @ [v]) + k))
       = Some (Inr str')
     \<and> str_at str' 0 = Inr (expand_all (vs @ [v]) s)
     \<and> \<not> sublist (CHR ''$'' # fst v) (expand_all (vs @ [v]) s)"
proof -
  have "CHR ''$'' \<notin> set (value_word (snd v))"
    using assms(2) by (simp add: variable_ok_def)
  then have "\<not> sublist (CHR ''$'' # fst v) (expand_all (vs @ [v]) s)"
    using expand_complete by (simp add: expand_all_def)
  then show ?thesis using substitute_variables_ok [OF assms, of k] by blast
qed

definition sample_text :: "string \<Rightarrow> cbuf" where
  "sample_text s = cells s @ Some NUL # fresh (MAX_LINE_LENGTH - Suc (length s))"

lemma sample_text_holds:
  "NUL \<notin> set s \<Longrightarrow> length s < MAX_LINE_LENGTH \<Longrightarrow>
   length (sample_text s) = MAX_LINE_LENGTH \<and> str_at (sample_text s) 0 = Inr s"
  by (simp add: sample_text_def)

theorem substitute_variables_replaces_witness:
  "\<exists>str'. substitute_variables permissive (sample_text ''http://$host/$page'') MAX_LINE_LENGTH
       (map (Some \<circ> entry_text) ([(''host'', ''a.org b'')] @ [(''page'', ''x'')]) @ replicate 1 None)
       (int (length ([(''host'', ''a.org b'')] @ [(''page'', ''x'')]) + 1)) = Some (Inr str')
     \<and> str_at str' 0 = Inr ''http://a.org/x''"
proof -
  let ?vs = "[(''host'', ''a.org b'')]" and ?v = "(''page'', ''x'')"
  let ?s = "''http://$host/$page''"
  have vs: "\<forall>v \<in> set (?vs @ [?v]). variable_ok 5 v" by code_simp
  have s: "NUL \<notin> set ?s" "length ?s < MAX_LINE_LENGTH" "weight 5 ?s < MAX_LINE_LENGTH"
      "expand_all (?vs @ [?v]) ?s = ''http://a.org/x''"
    by code_simp+
  show ?thesis
    using substitute_variables_replaces [OF platform_sel(3) vs
        sample_text_holds [OF s(1,2), THEN conjunct1] sample_text_holds [OF s(1,2), THEN conjunct2]
        s(3), of 1]
    unfolding s(4) by blast
qed

text \<open>
  C34: A variable whose value is blank stands for itself: when its name occurs in the page (after the
  variables in front of it are substituted), the replacing loop never ends.
\<close>

theorem substitute_variables_diverges:
  assumes "over_read pl" and "\<forall>v \<in> set vs. variable_ok m v"
    and "length str = MAX_LINE_LENGTH" and "str_at str 0 = Inr s" and "weight m s < MAX_LINE_LENGTH"
    and "variable_fits v" and "value_word (snd v) = []"
    and "sublist (CHR ''$'' # fst v) (expand_all vs s)" and "0 < c"
  shows "substitute_variables pl str MAX_LINE_LENGTH
     (map (Some \<circ> entry_text) vs @ Some (entry_text v) # rest) (int (length vs) + c) = None"
proof -
  have "0 \<le> c" using assms(9) by simp
  then obtain variable1 name1 str1 where eq: "substitute_loop pl MAX_LINE_LENGTH
        (map (Some \<circ> entry_text) vs @ Some (entry_text v) # rest) (int (length vs) + c)
        (fresh MAX_LINE_LENGTH) (fresh MAX_LINE_LENGTH) str
      = substitute_loop pl MAX_LINE_LENGTH (Some (entry_text v) # rest) c variable1 name1 str1"
    and len: "length variable1 = MAX_LINE_LENGTH" "length name1 = MAX_LINE_LENGTH"
      "length str1 = MAX_LINE_LENGTH"
    and str1: "str_at str1 0 = Inr (expand_all vs s)"
    using substitute_prefix [OF assms(1,2) length_fresh length_fresh assms(3-5)] by blast
  obtain variable' name' where "split_variable pl MAX_LINE_LENGTH variable1 name1 (entry_text v)
      = Inr (variable', name')" "str_at name' 0 = Inr (CHR ''$'' # fst v)"
      "str_at variable' 0 = Inr (CHR ''$'' # fst v)"
    using split_variable_blank [OF assms(6,7) len(1,2)] by blast
  then show ?thesis
    using eq assms(9) replace_all_diverges [OF str1 assms(8)] len(3)
    by (simp add: substitute_variables_def)
qed

theorem substitute_variables_diverges_witness:
  "substitute_variables permissive (sample_text ''http://$host/'') MAX_LINE_LENGTH
     [Some ''$host  ''] 1 = None"
proof -
  let ?v = "(''host'', '' '')" and ?s = "''http://$host/''"
  have v: "variable_fits ?v" "value_word (snd ?v) = []" by code_simp+
  have s: "NUL \<notin> set ?s" "length ?s < MAX_LINE_LENGTH" "weight 0 ?s < MAX_LINE_LENGTH"
      "strstr ?s ''$host'' = Some 7"
    by code_simp+
  have "sublist ''$host'' ?s" using strstr_None [of ?s "''$host''"] unfolding s(4) by blast
  then have sub: "sublist (CHR ''$'' # fst ?v) (expand_all [] ?s)" by simp
  have none: "\<forall>v \<in> set []. variable_ok 0 v" by simp
  have e: "entry_text ?v = ''$host  ''" by code_simp
  show ?thesis
    using substitute_variables_diverges [OF platform_sel(3) none
        sample_text_holds [OF s(1,2), THEN conjunct1] sample_text_holds [OF s(1,2), THEN conjunct2]
        s(3) v sub, of 1 "[]"]
    unfolding e by simp
qed

text \<open>
  The value is moved to the front of \<open>variable\<close> by a block copy of the size of the whole array,
  from behind the name: under ISO C every variable with a value makes it read past the array.
\<close>

lemma substitute_variables_overreads:
  assumes "variable_fits v" and "value_word (snd v) \<noteq> []" and "0 < count"
  shows "substitute_variables iso_c str MAX_LINE_LENGTH (Some (entry_text v) # rest) count
     = Some (Inl OutOfBounds)"
  using split_variable_overreads [of iso_c v "fresh MAX_LINE_LENGTH" "fresh MAX_LINE_LENGTH"] assms
  by (simp add: substitute_variables_def)

end
