(* ===== verification/Action.thy ===== *)
theory Action
  imports Config_Pages
begin

text \<open>
  \<^verbatim>\<open>src/src/action.c\<close>: the caches that can be updated by name, and the loop of \<^verbatim>\<open>main\<close> that loads
  them. An \<^verbatim>\<open>action_t **\<close> is \<open>None\<close> (a null pointer) or the block's pointers: each is \<open>None\<close> while it
  was never written, \<open>Some None\<close> for a null pointer, or \<open>Some (Some a)\<close>.
\<close>

section \<open>State\<close>

definition ARGUMENT_MAX_LENGTH :: nat where
  "ARGUMENT_MAX_LENGTH = 256"

definition VARIABLE_MAX_COUNT :: int where
  "VARIABLE_MAX_COUNT = 32"

definition URL_MAX_COUNT :: int where
  "URL_MAX_COUNT = 32"

record action =
  action_name :: cbuf
  refresh_list :: string_list
  action_count :: int

type_synonym action_slot = "action option option"

section \<open>The code\<close>

fun count_files :: "string option list \<Rightarrow> nat res" where
  "count_files [] = Inl OutOfBounds"
| "count_files (None # fs) = Inr 0"
| "count_files (Some f # fs) = chk (count_files fs) (\<lambda>n. Inr (n + 1))"

definition create_actions ::
  "platform \<Rightarrow> string option list \<Rightarrow> sys \<Rightarrow> (action_slot list option \<times> sys) res" where
  "create_actions pl include_files s =
     chk (count_files include_files) (\<lambda>i.
     if 0 < i then
       let (ok, s) = malloc s in
       if ok then Inr (Some ((replicate (i + spare pl i) None)[0 := Some None]), s) else Inr (None, s)
     else Inr (None, s))"

fun destroy_from :: "action_slot list \<Rightarrow> sys \<Rightarrow> sys res" where
  "destroy_from [] s = Inl OutOfBounds"
| "destroy_from (None # xs) s = Inl Uninitialised"
| "destroy_from (Some None # xs) s = Inr s"
| "destroy_from (Some (Some a) # xs) s =
     chk (destroy_string_list (refresh_list a) (action_count a) s) (\<lambda>s.
     destroy_from xs (free_block s))"

definition destroy_actions :: "action_slot list option \<Rightarrow> sys \<Rightarrow> sys res" where
  "destroy_actions actions s =
     (case actions of None \<Rightarrow> Inr s | Some xs \<Rightarrow> chk (destroy_from xs s) (\<lambda>s. Inr (free_block s)))"

definition create_action :: "string \<Rightarrow> sys \<Rightarrow> (action option \<times> sys) res" where
  "create_action name s =
     (let (ok, s) = malloc s in
      if ok then
        chk (strcpy (fresh ARGUMENT_MAX_LENGTH) 0 name) (\<lambda>b.
        Inr (Some \<lparr>action_name = b, refresh_list = None, action_count = 0\<rparr>, s))
      else Inr (None, s))"

definition put_slot :: "action_slot list \<Rightarrow> nat \<Rightarrow> action option \<Rightarrow> action_slot list res" where
  "put_slot actions i a = (if i < length actions then Inr (actions[i := Some a]) else Inl OutOfBounds)"

text \<open>\<^verbatim>\<open>if (actions[i]) actions[i] = NULL\<close>. A pointer that was never written ends up null whichever
  way the test goes.\<close>

definition clear_slot :: "platform \<Rightarrow> action_slot list \<Rightarrow> nat \<Rightarrow> action_slot list res" where
  "clear_slot pl actions i =
     (if i < length actions then
        (if actions ! i = None \<and> \<not> garbage pl then Inl Uninitialised
         else Inr (actions[i := Some None]))
      else Inl OutOfBounds)"

definition load_action ::
  "platform \<Rightarrow> config_files \<Rightarrow> action_slot list \<Rightarrow> string \<Rightarrow> nat \<Rightarrow> string \<Rightarrow> sys
   \<Rightarrow> (int \<times> action_slot list \<times> sys) run" where
  "load_action pl files actions include_file index version s =
     andthen (Some (load_config files include_file s)) (\<lambda>(code, cfg, s).
     case cfg of
       None \<Rightarrow> Some (Inr (0, actions, s))
     | Some cfg \<Rightarrow>
         andthen (Some (check_version cfg None version s)) (\<lambda>(code, str, s).
         if code = -1 then Some (Inr (0, actions, s))
         else
           andthen (Some (read_string cfg ''cache.name'' str ARGUMENT_MAX_LENGTH s)) (\<lambda>(code, str, s).
           if code = -1 then Some (Inr (0, actions, s))
           else
             andthen (Some (case str of None \<Rightarrow> Inl NullPointer | Some name \<Rightarrow> create_action name s))
               (\<lambda>(a, s).
             andthen (Some (put_slot actions index a)) (\<lambda>actions.
             andthen (Some (clear_slot pl actions (index + 1))) (\<lambda>actions.
             andthen (Some (case a of None \<Rightarrow> Inl NullPointer | Some a \<Rightarrow> str_at (action_name a) 0))
               (\<lambda>name.
             andthen (Some (log_info (''Loading cache configuration: '' @ quoted ''%s'') [AStr name] s))
               (\<lambda>s.
             andthen (Some (read_variable_list cfg 0 VARIABLE_MAX_COUNT s))
               (\<lambda>(variable_list, variable_count, s).
             case variable_list of
               None \<Rightarrow> Some (Inr (0, actions, s))
             | Some variables \<Rightarrow>
                 andthen (read_url_list pl cfg 0 URL_MAX_COUNT variables variable_count s)
                   (\<lambda>(urls, count, s).
                 andthen (Some (put_slot actions index
                   (map_option (\<lambda>a. a\<lparr>refresh_list := urls, action_count := count\<rparr>) a)))
                   (\<lambda>actions.
                 andthen (Some (destroy_string_list variable_list variable_count s)) (\<lambda>s.
                 Some (Inr (1, actions, s))))))))))))))"

fun find_from :: "action_slot list \<Rightarrow> string \<Rightarrow> action option res" where
  "find_from [] name = Inl OutOfBounds"
| "find_from (None # xs) name = Inl Uninitialised"
| "find_from (Some None # xs) name = Inr None"
| "find_from (Some (Some a) # xs) name =
     chk (str_at (action_name a) 0) (\<lambda>n. if n = name then Inr (Some a) else find_from xs name)"

definition find_action :: "action_slot list option \<Rightarrow> string \<Rightarrow> action option res" where
  "find_action actions name = (case actions of None \<Rightarrow> Inr None | Some xs \<Rightarrow> find_from xs name)"

text \<open>The loop of \<^verbatim>\<open>main\<close>: \<open>Inl\<close> of the result means that the daemon exits.\<close>

fun load_actions ::
  "platform \<Rightarrow> config_files \<Rightarrow> string \<Rightarrow> string option list \<Rightarrow> nat \<Rightarrow> action_slot list \<Rightarrow> sys
   \<Rightarrow> (bool \<times> action_slot list \<times> nat \<times> sys) run" where
  "load_actions pl files version [] i actions s = Some (Inl OutOfBounds)"
| "load_actions pl files version (None # fs) i actions s = Some (Inr (True, actions, i, s))"
| "load_actions pl files version (Some f # fs) i actions s =
     andthen (load_action pl files actions f i version s) (\<lambda>(code, actions, s).
     if code = -1 then Some (Inr (False, actions, i, s))
     else load_actions pl files version fs (i + 1) actions s)"

section \<open>Lemmas\<close>

lemma andthen_eq_Inr:
  "andthen r f = Some (Inr y) \<longleftrightarrow> (\<exists>x. r = Some (Inr x) \<and> f x = Some (Inr y))"
  by (cases r; cases "the r") (auto simp: andthen_def split: option.splits sum.splits)

text \<open>Looking up a name among the actions in front of the null pointer.\<close>

definition named :: "action \<Rightarrow> string \<Rightarrow> bool" where
  "named a name \<longleftrightarrow> str_at (action_name a) 0 = Inr name"

lemma find_from_terminated:
  assumes "\<forall>a \<in> set as. \<exists>n. named a n"
  shows "find_from (map (\<lambda>a. Some (Some a)) as @ Some None # rest) name
     = Inr (find (\<lambda>a. named a name) as)"
  using assms by (induction as) (auto simp: named_def)

lemma count_files_terminated: "count_files (map Some fs @ None # rest) = Inr (length fs)"
  by (induction fs) simp_all

lemma count_files_full: "count_files (map Some fs) = Inl OutOfBounds"
  by (induction fs) simp_all

text \<open>A file that \<open>load_action\<close> loads: its name, its variables and its pages.\<close>

definition action_file ::
  "platform \<Rightarrow> nat \<Rightarrow> string \<Rightarrow> config \<Rightarrow> string \<Rightarrow> (string \<times> string) list \<Rightarrow> setting list \<Rightarrow> bool" where
  "action_file pl m version cfg name vs pages \<longleftrightarrow>
     lookup_string cfg ''version'' = Some version \<and> lookup_string cfg ''cache.name'' = Some name
     \<and> NUL \<notin> set name \<and> length name < 200
     \<and> (\<exists>variables. lookup_list cfg ''cache.variables'' = Some variables \<and> variables \<noteq> []
          \<and> int (length variables) \<le> VARIABLE_MAX_COUNT \<and> (\<forall>x \<in> set variables. variable_good x)
          \<and> usable variable_entry variables = map entry_text vs)
     \<and> lookup_list cfg ''cache.pages'' = Some pages \<and> pages \<noteq> []
     \<and> int (length pages) \<le> URL_MAX_COUNT \<and> (\<forall>x \<in> set pages. page_good pl m vs x)"

lemma log_fits_loading:
  "NUL \<notin> set name \<Longrightarrow> length name < 200 \<Longrightarrow>
   log_fits (''Loading cache configuration: '' @ quoted ''%s'') [AStr name]"
  by (simp add: log_fits_def convert_def QUERAL_LOG_BUFFER_SIZE_def)

lemma create_action_plenty:
  assumes "NUL \<notin> set name" and "length name < ARGUMENT_MAX_LENGTH" and "plenty s"
  shows "\<exists>b. create_action name s
       = Inr (Some \<lparr>action_name = b, refresh_list = None, action_count = 0\<rparr>, s\<lparr>live := live s + 1\<rparr>)
     \<and> str_at b 0 = Inr name"
proof -
  obtain b where "strcpy (fresh ARGUMENT_MAX_LENGTH) 0 name = Inr b" "str_at b 0 = Inr name"
    using strcpy_fits [OF assms(1), of "fresh ARGUMENT_MAX_LENGTH"] assms(2) by auto
  then show ?thesis using assms(3) by (simp add: create_action_def)
qed

text \<open>The slots a load writes.\<close>

lemma load_slots:
  assumes "Suc i < length actions"
  shows "(actions[i := Some a, Suc i := Some None])[i := x] = actions[i := x, Suc i := Some None]"
  using assms by (simp add: list_update_swap)

text \<open>Reading the variables and the pages of a file, and giving the variables back.\<close>

lemma action_file_lists:
  assumes "action_file pl m version cfg name vs pages" and "plenty s"
  shows "\<exists>vl n s2 s3 s4. read_variable_list cfg 0 VARIABLE_MAX_COUNT s = Inr (Some vl, n, s2)
     \<and> read_url_list pl cfg 0 URL_MAX_COUNT vl n s2
         = Some (Inr (Some (map Some (usable (page_url vs) pages)
                        @ replicate (length pages - length (usable (page_url vs) pages)) None),
                      int (length pages), s3))
     \<and> destroy_string_list (Some vl) n s3 = Inr s4
     \<and> grown (Suc (length (usable (page_url vs) pages))) s s4"
proof -
  obtain variables where vars: "lookup_list cfg ''cache.variables'' = Some variables"
      "variables \<noteq> []" "int (length variables) \<le> VARIABLE_MAX_COUNT"
      "\<forall>x \<in> set variables. variable_good x" "usable variable_entry variables = map entry_text vs"
    and pages: "lookup_list cfg ''cache.pages'' = Some pages" "pages \<noteq> []"
      "int (length pages) \<le> URL_MAX_COUNT" "\<forall>x \<in> set pages. page_good pl m vs x"
    using assms(1) unfolding action_file_def by blast
  let ?k = "length variables - length vs"
  let ?vl = "map Some (map entry_text vs) @ replicate ?k None"
  obtain s2 where read: "read_variable_list cfg 0 VARIABLE_MAX_COUNT s
      = Inr (Some ?vl, int (length variables), s2)" "grown (Suc (length vs)) s s2"
    using read_variables_fills [OF vars(1-4) assms(2), of 0] unfolding vars(5) by auto
  have few: "length vs \<le> length variables"
    using length_usable [of variable_entry variables] vars(5) by simp
  have split: "?vl = map (Some \<circ> entry_text) vs @ replicate ?k None" by simp
  have count: "int (length variables) = int (length vs + ?k)" using few by simp
  obtain s3 where urls: "read_url_list pl cfg 0 URL_MAX_COUNT ?vl (int (length variables)) s2
      = Some (Inr (Some (map Some (usable (page_url vs) pages)
                     @ replicate (length pages - length (usable (page_url vs) pages)) None),
                   int (length pages), s3))" "grown (Suc (length (usable (page_url vs) pages))) s2 s3"
    using read_urls_fills [OF pages(1-3), of pl m vs s2 0 ?k] pages(4) grown_plenty [OF read(2)]
    unfolding split count by auto
  have packed: "packed ?vl" unfolding packed_def by (intro exI) (rule refl)
  have len: "length ?vl = length variables" using few by simp
  have es: "entries ?vl = map entry_text vs" by (rule entries_packed)
  have "destroy_string_list (Some ?vl) (int (length variables)) s3
      = Inr (s3\<lparr>live := live s3 - int (length vs) - 1\<rparr>)"
    using destroy_packed [OF packed, of s3] unfolding len es by simp
  moreover have "grown (Suc (length (usable (page_url vs) pages))) s
      (s3\<lparr>live := live s3 - int (length vs) - 1\<rparr>)"
    using read(2) urls(2) by (simp add: grown_def)
  ultimately show ?thesis using read(1) urls(1) by blast
qed

lemma load_action_ok:
  assumes f: "files f = Parsed cfg" and af: "action_file pl m version cfg name vs pages"
    and s: "plenty s" and i: "Suc index < length actions" and pl: "garbage pl"
  shows "\<exists>a s'. load_action pl files actions f index version s
       = Some (Inr (1, actions[index := Some (Some a), Suc index := Some None], s'))
     \<and> named a name
     \<and> refresh_list a = Some (map Some (usable (page_url vs) pages)
                               @ replicate (length pages - length (usable (page_url vs) pages)) None)
     \<and> action_count a = int (length pages)
     \<and> grown (length (usable (page_url vs) pages) + 2) s s'"
proof -
  have nm: "lookup_string cfg ''version'' = Some version" "lookup_string cfg ''cache.name'' = Some name"
      "NUL \<notin> set name" "length name < 200"
    using af unfolding action_file_def by blast+
  have short: "length name < ARGUMENT_MAX_LENGTH" using nm(4) by (simp add: ARGUMENT_MAX_LENGTH_def)
  obtain b where create: "create_action name s
      = Inr (Some \<lparr>action_name = b, refresh_list = None, action_count = 0\<rparr>, s\<lparr>live := live s + 1\<rparr>)"
    and b: "str_at b 0 = Inr name"
    using create_action_plenty [OF nm(3) short s] by blast
  define s1 where "s1 = logged LOG_INFO (''Loading cache configuration: '' @ quoted ''%s'') [AStr name]
      (s\<lparr>live := live s + 1\<rparr>)"
  have log: "log_info (''Loading cache configuration: '' @ quoted ''%s'') [AStr name]
      (s\<lparr>live := live s + 1\<rparr>) = Inr s1"
    unfolding log_info_def s1_def using log_fits_loading [OF nm(3,4)] by (rule log_write_fits)
  have s1: "plenty s1" "grown 1 s s1" using s by (simp_all add: s1_def grown_def)
  obtain vl n s2 s3 s4 urls where lists: "read_variable_list cfg 0 VARIABLE_MAX_COUNT s1 = Inr (Some vl, n, s2)"
      "read_url_list pl cfg 0 URL_MAX_COUNT vl n s2 = Some (Inr (Some urls, int (length pages), s3))"
      "destroy_string_list (Some vl) n s3 = Inr s4"
    and urls: "urls = map Some (usable (page_url vs) pages)
         @ replicate (length pages - length (usable (page_url vs) pages)) None"
    and s4: "grown (Suc (length (usable (page_url vs) pages))) s1 s4"
    using action_file_lists [OF af s1(1)] by blast
  let ?a = "\<lparr>action_name = b, refresh_list = Some urls, action_count = int (length pages)\<rparr>"
  have "load_action pl files actions f index version s
      = Some (Inr (1, actions[index := Some (Some ?a), Suc index := Some None], s4))"
    using f nm(1,2) short create b log lists i pl
    by (simp add: load_action_def load_config_def check_version_def read_string_def put_slot_def
        clear_slot_def load_slots)
  moreover have "grown (length (usable (page_url vs) pages) + 2) s s4"
    using s1(2) s4 by (simp add: grown_def)
  moreover have "named ?a name" using b by (simp add: named_def)
  ultimately show ?thesis using urls by force
qed

subsection \<open>Loading every file\<close>

type_synonym action_spec = "string \<times> (string \<times> string) list \<times> setting list"

definition loadable :: "platform \<Rightarrow> nat \<Rightarrow> string \<Rightarrow> config_files \<Rightarrow> string \<Rightarrow> action_spec \<Rightarrow> bool" where
  "loadable pl m version files f x \<longleftrightarrow>
     (\<exists>cfg. files f = Parsed cfg \<and> action_file pl m version cfg (fst x) (fst (snd x)) (snd (snd x)))"

definition matches :: "action \<Rightarrow> action_spec \<Rightarrow> bool" where
  "matches a x \<longleftrightarrow>
     named a (fst x)
     \<and> refresh_list a = Some (map Some (usable (page_url (fst (snd x))) (snd (snd x)))
         @ replicate (length (snd (snd x)) - length (usable (page_url (fst (snd x))) (snd (snd x)))) None)
     \<and> action_count a = int (length (snd (snd x)))"

text \<open>The blocks one action takes: itself, its list and the pages.\<close>

definition cost :: "action_spec \<Rightarrow> nat" where
  "cost x = length (usable (page_url (fst (snd x))) (snd (snd x))) + 2"

lemma slots_behind_action:
  fixes a
  assumes "Suc i < length actions"
  defines "xs \<equiv> actions[i := Some (Some a), Suc i := Some None]"
  shows "take (Suc i) xs = take i actions @ [Some (Some a)]"
    and "xs = take i actions @ [Some (Some a)] @ Some None # drop (Suc (Suc i)) actions"
proof -
  show take1: "take (Suc i) xs = take i actions @ [Some (Some a)]"
    using assms by (simp add: take_Suc_conv_app_nth)
  have "drop (Suc i) xs = Some None # drop (Suc (Suc i)) actions"
    using assms by (simp add: drop_update_swap flip: Cons_nth_drop_Suc)
  then show "xs = take i actions @ [Some (Some a)] @ Some None # drop (Suc (Suc i)) actions"
    using append_take_drop_id [of "Suc i" xs] unfolding take1 by simp
qed

lemma load_actions_ok:
  assumes "list_all2 (loadable pl m version files) fs specs" and "plenty s"
    and "i + length fs < length actions" and "garbage pl" and "fs \<noteq> []"
  shows "\<exists>as s'. load_actions pl files version (map Some fs @ rest) i actions s
       = load_actions pl files version rest (i + length fs)
           (take i actions @ map (\<lambda>a. Some (Some a)) as @ Some None # drop (i + length fs + 1) actions) s'
     \<and> list_all2 matches as specs \<and> grown (sum_list (map cost specs)) s s'"
  using assms(1-3,5)
proof (induction fs arbitrary: specs i actions s)
  case Nil
  then show ?case by simp
next
  case (Cons f fs)
  obtain x xs where specs: "specs = x # xs" and x: "loadable pl m version files f x"
      and xs: "list_all2 (loadable pl m version files) fs xs"
    using Cons.prems(1) by (auto simp: list_all2_Cons1)
  obtain cfg where cfg: "files f = Parsed cfg"
      "action_file pl m version cfg (fst x) (fst (snd x)) (snd (snd x))"
    using x by (auto simp: loadable_def)
  have room: "Suc i < length actions" using Cons.prems(3) by simp
  obtain a s1 where load: "load_action pl files actions f i version s
      = Some (Inr (1, actions[i := Some (Some a), Suc i := Some None], s1))"
    and a: "matches a x" and s1: "grown (cost x) s s1"
    using load_action_ok [where files = files and f = f, OF cfg Cons.prems(2) room assms(4)]
    unfolding matches_def cost_def by blast
  let ?actions = "actions[i := Some (Some a), Suc i := Some None]"
  note slots = slots_behind_action [OF room, of a]
  have step: "load_actions pl files version (map Some (f # fs) @ rest) i actions s
      = load_actions pl files version (map Some fs @ rest) (Suc i) ?actions s1"
    using load by simp
  show ?case
  proof (cases "fs = []")
    case True
    then show ?thesis
      unfolding step slots(2) using specs xs a s1 by (intro exI [of _ "[a]"]) auto
  next
    case False
    have "Suc i + length fs < length ?actions" using Cons.prems(3) by simp
    from Cons.IH [OF xs grown_plenty [OF s1] this False] obtain as s' where
      "load_actions pl files version (map Some fs @ rest) (Suc i) ?actions s1
         = load_actions pl files version rest (Suc i + length fs)
             (take (Suc i) ?actions @ map (\<lambda>a. Some (Some a)) as
                @ Some None # drop (Suc i + length fs + 1) ?actions) s'"
      and as: "list_all2 matches as xs" "grown (sum_list (map cost xs)) s1 s'"
      by blast
    moreover have "drop (Suc i + length fs + 1) ?actions = drop (i + length (f # fs) + 1) actions"
      by simp
    ultimately show ?thesis
      unfolding step slots(1) using specs a grown_trans [OF s1]
      by (intro exI [of _ "a # as"] exI [of _ s']) simp
  qed
qed

lemma destroy_from_loaded:
  "list_all2 matches as specs \<Longrightarrow>
   destroy_from (map (\<lambda>a. Some (Some a)) as @ Some None # rest) s
     = Inr (s\<lparr>live := live s - int (sum_list (map cost specs))\<rparr>)"
proof (induction as arbitrary: specs s)
  case Nil
  then show ?case by simp
next
  case (Cons a as)
  then obtain x xs where specs: "specs = x # xs" "matches a x" "list_all2 matches as xs"
    by (auto simp: list_all2_Cons1)
  let ?us = "usable (page_url (fst (snd x))) (snd (snd x))"
  let ?list = "map Some ?us @ replicate (length (snd (snd x)) - length ?us) None"
  have "packed ?list" unfolding packed_def by (intro exI) (rule refl)
  then have "destroy_string_list (Some ?list) (int (length ?list)) s
      = Inr (s\<lparr>live := live s - int (length (entries ?list)) - 1\<rparr>)"
    by (rule destroy_packed)
  moreover have "length ?list = length (snd (snd x))"
    using length_usable [of "page_url (fst (snd x))" "snd (snd x)"] by simp
  moreover have "entries ?list = ?us" by (rule entries_packed)
  ultimately have "destroy_string_list (refresh_list a) (action_count a) s
      = Inr (s\<lparr>live := live s - int (length ?us) - 1\<rparr>)"
    using specs(2) by (simp only: matches_def)
  then show ?case
    using Cons.IH [OF specs(3)] specs(1) by (simp add: cost_def free_block_def algebra_simps)
qed

text \<open>What a load leaves alone, and its codes.\<close>

definition frame :: "nat \<Rightarrow> action_slot list \<Rightarrow> action_slot list \<Rightarrow> bool" where
  "frame i actions actions' \<longleftrightarrow>
     length actions' = length actions
     \<and> (\<forall>j. j \<noteq> i \<and> j \<noteq> Suc i \<longrightarrow> actions' ! j = actions ! j)"

lemma frame_refl: "frame i actions actions"
  and frame_trans: "frame i actions actions1 \<Longrightarrow> frame i actions1 actions2 \<Longrightarrow> frame i actions actions2"
  by (simp_all add: frame_def)

lemma put_slot_frame: "put_slot actions i a = Inr actions' \<Longrightarrow> frame i actions actions'"
  and clear_slot_frame: "clear_slot pl actions (Suc i) = Inr actions' \<Longrightarrow> frame i actions actions'"
  by (auto simp: put_slot_def clear_slot_def frame_def split: if_split_asm)

lemma andthen_E:
  assumes "andthen r f = Some (Inr y)"
  obtains x where "r = Some (Inr x)" and "f x = Some (Inr y)"
  using assms by (auto simp: andthen_eq_Inr)

lemma load_action_frame:
  assumes "load_action pl files actions f index version s = Some (Inr (code, actions', s'))"
  shows "frame index actions actions' \<and> (code = 0 \<or> code = 1)"
  using assms unfolding load_action_def
  by (elim andthen_E)
    (auto elim!: andthen_E simp: frame_refl split: option.split_asm if_split_asm prod.split_asm
      dest!: put_slot_frame clear_slot_frame, (blast intro: frame_trans)+)

lemma load_actions_frame:
  "load_actions pl files version fs i actions s = Some (Inr (ok, actions', k, s')) \<Longrightarrow>
   ok \<and> length actions' = length actions \<and> (\<forall>j < i. actions' ! j = actions ! j)"
proof (induction fs arbitrary: i actions s)
  case (Cons f fs)
  show ?case
  proof (cases f)
    case None
    then show ?thesis using Cons.prems by simp
  next
    case (Some g)
    obtain code actions1 s1 where load: "load_action pl files actions g i version s
        = Some (Inr (code, actions1, s1))"
      and rest: "(if code = -1 then Some (Inr (False, actions1, i, s1))
        else load_actions pl files version fs (i + 1) actions1 s1) = Some (Inr (ok, actions', k, s'))"
      using Cons.prems Some by (auto simp: andthen_eq_Inr)
    have frame: "length actions1 = length actions" "code = 0 \<or> code = 1"
        "\<forall>j. j \<noteq> i \<and> j \<noteq> Suc i \<longrightarrow> actions1 ! j = actions ! j"
      using load_action_frame [OF load] by (auto simp: frame_def)
    then have "load_actions pl files version fs (i + 1) actions1 s1 = Some (Inr (ok, actions', k, s'))"
      using rest by auto
    from Cons.IH [OF this] show ?thesis using frame by auto
  qed
qed simp

lemma create_actions_files:
  assumes "plenty s" and "fs \<noteq> []"
  shows "create_actions pl (map Some fs @ None # rest) s
     = Inr (Some ((replicate (length fs + spare pl (length fs)) None)[0 := Some None]),
            s\<lparr>live := live s + 1\<rparr>)"
  using assms by (simp add: create_actions_def count_files_terminated)

text \<open>After a file that fails, the null pointer in its place hides all that follows.\<close>

lemma find_from_hidden:
  assumes "\<forall>a \<in> set as. \<exists>n. named a n" and "length as < length actions"
    and "take (Suc (length as)) actions = map (\<lambda>a. Some (Some a)) as @ [Some None]"
  shows "find_from actions name = Inr (find (\<lambda>a. named a name) as)"
proof -
  have "actions = map (\<lambda>a. Some (Some a)) as @ Some None # drop (Suc (length as)) actions"
    using assms(3) by (metis append.assoc append_Cons append_Nil append_take_drop_id)
  then show ?thesis using find_from_terminated [OF assms(1)] by metis
qed

lemma matches_named: "list_all2 matches as specs \<Longrightarrow> \<forall>a \<in> set as. \<exists>n. named a n"
  by (induction as arbitrary: specs) (auto simp: list_all2_Cons1 matches_def)

text \<open>A file to evaluate on.\<close>

definition sample_files :: config_files where
  "sample_files f = (if f = ''bad'' then ParseError 1 ''syntax error'' else Parsed sample_config)"

definition sample_spec :: action_spec where
  "sample_spec = (''home'', [(''host'', ''www.a.org'')], [sample_page ''http://$host/'', sample_server])"

lemma sample_loadable: "f \<noteq> ''bad'' \<Longrightarrow> loadable permissive 9 ''1.0'' sample_files f sample_spec"
proof -
  assume f: "f \<noteq> ''bad''"
  have v: "variable_entry (sample_variable ''host'' ''www.a.org'') = Some ''$host www.a.org''"
    by (simp add: variable_entry_def sample_variable_def)
  have e: "entry_text (''host'', ''www.a.org'') = ''$host www.a.org''" by code_simp
  have ok: "variable_ok 9 (''host'', ''www.a.org'')" by code_simp
  have w: "NUL \<notin> set ''http://$host/''" "weight 9 ''http://$host/'' < MAX_LINE_LENGTH" by code_simp+
  have pages: "\<forall>x \<in> set [sample_page ''http://$host/'', sample_server].
      page_good permissive 9 [(''host'', ''www.a.org'')] x"
    using ok w by (simp add: page_good_def sample_page_def sample_server_def)
  have good: "variable_good (sample_variable ''host'' ''www.a.org'')"
    by (simp add: variable_good_def v MAX_LINE_LENGTH_def)
  have "action_file permissive 9 ''1.0'' sample_config ''home'' [(''host'', ''www.a.org'')]
      [sample_page ''http://$host/'', sample_server]"
    unfolding action_file_def using good v e pages
    by (simp add: sample_config_def VARIABLE_MAX_COUNT_def URL_MAX_COUNT_def)
  then show ?thesis using f by (simp add: loadable_def sample_files_def sample_spec_def)
qed

section \<open>Properties\<close>

text \<open>
  C15: When every file is sound, the loop of \<^verbatim>\<open>main\<close> loads one action per file, in order, with its
  name and its pages; \<open>find_action\<close> then finds the first action of each name and nothing else, and
  \<open>destroy_actions\<close> gives back all that was allocated. (On a platform where the pointer behind the
  array belongs to its block.)
\<close>

theorem load_actions_finds:
  assumes "list_all2 (loadable pl m version files) fs specs" and "fs \<noteq> []" and "plenty s"
    and "garbage pl" and "0 < spare pl (length fs)"
  shows "\<exists>actions s1 as actions' s2 s3.
     create_actions pl (map Some fs @ None # rest) s = Inr (Some actions, s1)
     \<and> load_actions pl files version (map Some fs @ None # rest) 0 actions s1
         = Some (Inr (True, actions', length fs, s2))
     \<and> list_all2 matches as specs
     \<and> (\<forall>name. find_action (Some actions') name = Inr (find (\<lambda>a. named a name) as))
     \<and> destroy_actions (Some actions') s2 = Inr s3 \<and> live s3 = live s"
proof -
  let ?actions = "(replicate (length fs + spare pl (length fs)) None)[0 := Some None]"
  let ?s = "s\<lparr>live := live s + 1\<rparr>"
  have "plenty ?s" and room: "0 + length fs < length ?actions" using assms(3,5) by simp_all
  from load_actions_ok [OF assms(1) this assms(4,2), of "None # rest"] obtain as s2 where
    load: "load_actions pl files version (map Some fs @ None # rest) 0 ?actions ?s
      = Some (Inr (True, map (\<lambda>a. Some (Some a)) as @ Some None # drop (length fs + 1) ?actions,
                   length fs, s2))"
    and as: "list_all2 matches as specs" and s2: "grown (sum_list (map cost specs)) ?s s2"
    by auto
  let ?actions' = "map (\<lambda>a. Some (Some a)) as @ Some None # drop (length fs + 1) ?actions"
  have find: "\<forall>name. find_action (Some ?actions') name = Inr (find (\<lambda>a. named a name) as)"
    using find_from_terminated [OF matches_named [OF as]] by (simp add: find_action_def)
  have "destroy_actions (Some ?actions') s2
      = Inr (free_block (s2\<lparr>live := live s2 - int (sum_list (map cost specs))\<rparr>))"
    using destroy_from_loaded [OF as, of _ s2] by (simp add: destroy_actions_def)
  moreover have "live (free_block (s2\<lparr>live := live s2 - int (sum_list (map cost specs))\<rparr>)) = live s"
    using s2 by (simp add: grown_def free_block_def)
  ultimately show ?thesis
    using create_actions_files [OF assms(3,2)] load as find by blast
qed

theorem load_actions_finds_witness:
  "\<exists>actions s1 as actions' s2.
     create_actions permissive (map Some [''a'', ''b''] @ None # []) sample_sys = Inr (Some actions, s1)
     \<and> load_actions permissive sample_files ''1.0'' (map Some [''a'', ''b''] @ None # []) 0 actions s1
         = Some (Inr (True, actions', 2, s2))
     \<and> list_all2 matches as [sample_spec, sample_spec]
     \<and> find_action (Some actions') ''home'' = Inr (Some (hd as))"
proof -
  have l: "list_all2 (loadable permissive 9 ''1.0'' sample_files) [''a'', ''b''] [sample_spec, sample_spec]"
    by (simp add: sample_loadable)
  have ne: "[''a'', ''b''] \<noteq> []" by simp
  have sp: "0 < spare permissive (length [''a'', ''b''])" by simp
  obtain actions s1 as actions' s2 s3 where r:
    "create_actions permissive (map Some [''a'', ''b''] @ None # []) sample_sys = Inr (Some actions, s1)"
    "load_actions permissive sample_files ''1.0'' (map Some [''a'', ''b''] @ None # []) 0 actions s1
         = Some (Inr (True, actions', length [''a'', ''b''], s2))"
    "list_all2 matches as [sample_spec, sample_spec]"
    "\<forall>name. find_action (Some actions') name = Inr (find (\<lambda>a. named a name) as)"
    using load_actions_finds [OF l ne plenty_sample platform_sel(7) sp, of "[]"] by blast
  obtain a as' where as: "as = a # as'" "matches a sample_spec"
    using r(3) by (auto simp: list_all2_Cons2)
  have "named a ''home''" using as(2) by (simp add: matches_def sample_spec_def)
  then have "find_action (Some actions') ''home'' = Inr (Some (hd as))" using r(4) as(1) by simp
  moreover have "length [''a'', ''b''] = 2" by simp
  ultimately show ?thesis using r(1-3) by auto
qed

text \<open>
  C36: A file that cannot be parsed is not noticed by \<^verbatim>\<open>main\<close> (\<open>load_action\<close> returns 0, never the
  tested -1), and it hides the actions of all files behind it: \<open>find_action\<close> stops at its place.
\<close>

theorem load_actions_hides:
  assumes "list_all2 (loadable pl m version files) fs specs" and "fs \<noteq> []" and "plenty s"
    and "garbage pl" and "length fs < length actions"
    and "files f = ParseError line msg"
    and "log_fits ''%s:%d - %s'' [AStr f, AInt line, AStr msg]"
    and "load_actions pl files version (map Some fs @ Some f # gs) 0 actions s
           = Some (Inr (ok, actions', k, s'))"
  shows "\<exists>as. ok \<and> list_all2 matches as specs
     \<and> (\<forall>name. find_action (Some actions') name = Inr (find (\<lambda>a. named a name) as))"
proof -
  have room: "0 + length fs < length actions" using assms(5) by simp
  from load_actions_ok [OF assms(1,3) room assms(4,2), of "Some f # gs"] obtain as s2 where
    load: "load_actions pl files version (map Some fs @ Some f # gs) 0 actions s
      = load_actions pl files version (Some f # gs) (length fs)
          (map (\<lambda>a. Some (Some a)) as @ Some None # drop (length fs + 1) actions) s2"
    and as: "list_all2 matches as specs"
    by auto
  let ?actions = "map (\<lambda>a. Some (Some a)) as @ Some None # drop (length fs + 1) actions"
  have len: "length as = length fs" using assms(1) as by (metis list_all2_lengthD)
  have "load_action pl files ?actions f (length fs) version s2
      = Some (Inr (0, ?actions, logged LOG_ERR ''%s:%d - %s'' [AStr f, AInt line, AStr msg] s2))"
    using assms(6) log_write_fits [OF assms(7)]
    by (simp add: load_action_def load_config_def log_error_def)
  then have "load_actions pl files version gs (length fs + 1) ?actions
      (logged LOG_ERR ''%s:%d - %s'' [AStr f, AInt line, AStr msg] s2) = Some (Inr (ok, actions', k, s'))"
    using assms(8) load by simp
  from load_actions_frame [OF this] have ok: ok and same: "length actions' = length ?actions"
    "\<forall>j < Suc (length as). actions' ! j = ?actions ! j"
    by (simp_all add: len)
  have "take (Suc (length as)) actions' = take (Suc (length as)) ?actions"
    using same by (intro nth_take_lemma) simp_all
  then have "take (Suc (length as)) actions' = map (\<lambda>a. Some (Some a)) as @ [Some None]" by simp
  moreover have "length as < length actions'" using same(1) by simp
  ultimately show ?thesis
    using ok as find_from_hidden [OF matches_named [OF as]] by (auto simp: find_action_def)
qed

theorem load_actions_hides_witness:
  "\<exists>as actions' s'. load_actions permissive sample_files ''1.0'' (map Some [''a''] @ Some ''bad'' # [None]) 0
       [Some None, None, None] sample_sys = Some (Inr (True, actions', 2, s'))
     \<and> list_all2 matches as [sample_spec]
     \<and> (\<forall>name. find_action (Some actions') name = Inr (find (\<lambda>a. named a name) as))"
proof -
  have l: "list_all2 (loadable permissive 9 ''1.0'' sample_files) [''a''] [sample_spec]"
    by (simp add: sample_loadable)
  have n: "[''a''] \<noteq> []" "length [''a''] < length [Some None, None, None]" by simp_all
  have bad: "sample_files ''bad'' = ParseError 1 ''syntax error''" by (simp add: sample_files_def)
  have fits: "log_fits ''%s:%d - %s'' [AStr ''bad'', AInt 1, AStr ''syntax error'']"
    by (simp add: log_fits_def convert_def show_int_def show_nat.simps digit_char_def
        QUERAL_LOG_BUFFER_SIZE_def)
  have "0 + length [''a''] < length [Some None :: action_slot, None, None]" by simp
  from load_actions_ok [OF l plenty_sample this platform_sel(7) n(1), of "[Some ''bad'', None]"]
  obtain as s1 where load: "load_actions permissive sample_files ''1.0''
        (map Some [''a''] @ Some ''bad'' # [None]) 0 [Some None, None, None] sample_sys
      = load_actions permissive sample_files ''1.0'' [Some ''bad'', None] 1
          (map (\<lambda>a. Some (Some a)) as @ Some None # [None]) s1"
    by auto
  let ?actions = "map (\<lambda>a. Some (Some a)) as @ Some None # [None]"
  have "load_action permissive sample_files ?actions ''bad'' 1 ''1.0'' s1
      = Some (Inr (0, ?actions, logged LOG_ERR ''%s:%d - %s''
          [AStr ''bad'', AInt 1, AStr ''syntax error''] s1))"
    using bad log_write_fits [OF fits] by (simp add: load_action_def load_config_def log_error_def)
  then have run: "load_actions permissive sample_files ''1.0''
        (map Some [''a''] @ Some ''bad'' # [None]) 0 [Some None, None, None] sample_sys
      = Some (Inr (True, ?actions, 2, logged LOG_ERR ''%s:%d - %s''
          [AStr ''bad'', AInt 1, AStr ''syntax error''] s1))"
    unfolding load by (simp add: numeral_2_eq_2)
  show ?thesis
    using load_actions_hides [OF l n(1) plenty_sample platform_sel(7) n(2) bad fits run] run by blast
qed

text \<open>
  The array has no place for the null pointer behind the last action: under ISO C loading the
  file of the last place writes the action and then touches the pointer behind the block.
\<close>

lemma load_action_last_overruns:
  assumes "files f = Parsed cfg" and "lookup_string cfg ''version'' = Some version"
    and "lookup_string cfg ''cache.name'' = Some name" and "NUL \<notin> set name"
    and "length name < ARGUMENT_MAX_LENGTH" and "plenty s" and "Suc index = length actions"
  shows "load_action pl files actions f index version s = Some (Inl OutOfBounds)"
proof -
  obtain b where "create_action name s
      = Inr (Some \<lparr>action_name = b, refresh_list = None, action_count = 0\<rparr>, s\<lparr>live := live s + 1\<rparr>)"
    using create_action_plenty [OF assms(4-6)] by blast
  then show ?thesis
    using assms(1-5,7)
    by (simp add: load_action_def load_config_def check_version_def read_string_def put_slot_def
        clear_slot_def)
qed

text \<open>
  A name of 225 to 256 bytes passes the length check of \<open>read_string\<close> and overruns an array:
  the log buffer, or with 256 bytes the action's name.
\<close>

lemma load_action_long_name:
  assumes "files f = Parsed cfg" and "lookup_string cfg ''version'' = Some version"
    and "lookup_string cfg ''cache.name'' = Some name" and "NUL \<notin> set name"
    and "225 \<le> length name" and "length name \<le> 256" and "plenty s"
    and "Suc index < length actions" and "garbage pl"
  shows "load_action pl files actions f index version s = Some (Inl OutOfBounds)"
proof (cases "length name < ARGUMENT_MAX_LENGTH")
  case True
  obtain b where create: "create_action name s
      = Inr (Some \<lparr>action_name = b, refresh_list = None, action_count = 0\<rparr>, s\<lparr>live := live s + 1\<rparr>)"
    "str_at b 0 = Inr name"
    using create_action_plenty [OF assms(4) True assms(7)] by blast
  have "printf_from ((''Loading cache configuration: '' @ squote) @ ''%s'' @ squote) [AStr name]
      = Inr ((''Loading cache configuration: '' @ squote) @ name @ squote)"
    by (subst printf_from_append) (simp_all add: convert_def)
  then have printf: "printf_from (''Loading cache configuration: '' @ quoted ''%s'') [AStr name]
      = Inr (''Loading cache configuration: '' @ quoted name)"
    by (simp only: append_assoc)
  have log: "log_info (''Loading cache configuration: '' @ quoted ''%s'') [AStr name] s'
      = Inl OutOfBounds" for s'
    unfolding log_info_def
    by (rule log_write_overflow [OF printf])
      (use assms(5) in \<open>simp add: QUERAL_LOG_BUFFER_SIZE_def\<close>)
  show ?thesis
    using create log assms
    by (simp add: load_action_def load_config_def check_version_def read_string_def put_slot_def
        clear_slot_def ARGUMENT_MAX_LENGTH_def)
next
  case False
  then have "create_action name s = Inl OutOfBounds"
    using assms(7) by (simp add: create_action_def strcpy_start_overflow)
  then show ?thesis
    using assms(1-3,6)
    by (simp add: load_action_def load_config_def check_version_def read_string_def
        ARGUMENT_MAX_LENGTH_def)
qed

end
