(* ===== verification/Curl_Client.thy ===== *)
theory Curl_Client
  imports Logger "HOL-Library.Word"
begin

text \<open>
  \<^verbatim>\<open>src/src/curl_client.c\<close>: downloading a document into a buffer of fixed size. libcurl is not part
  of the sources: \<^verbatim>\<open>curl_easy_init\<close> is a Boolean (a handle or a null pointer), and
  \<^verbatim>\<open>curl_easy_perform\<close> an argument that drives the write callback and returns an error text or
  success. \<^verbatim>\<open>size_t\<close> is a 64-bit word.
\<close>

section \<open>State\<close>

definition BUFFER_MEMORY_SIZE :: nat where
  "BUFFER_MEMORY_SIZE = 102400"

text \<open>\<open>memory\<close> is \<open>None\<close> where \<^verbatim>\<open>malloc\<close> returned a null pointer.\<close>

record memory_struct =
  memory :: "cbuf option"
  mem_size :: "64 word"
  enabled :: bool

record curl_t =
  handle :: bool
  buffer :: memory_struct

type_synonym write_function =
  "string \<Rightarrow> 64 word \<Rightarrow> 64 word \<Rightarrow> memory_struct \<Rightarrow> sys \<Rightarrow> (64 word \<times> memory_struct \<times> sys) res"

text \<open>\<^verbatim>\<open>curl_easy_perform\<close> on a URL: \<open>None\<close> stands for \<^verbatim>\<open>CURLE_OK\<close>, \<open>Some\<close> for an error and its text.\<close>

type_synonym perform_function =
  "string \<Rightarrow> write_function \<Rightarrow> memory_struct \<Rightarrow> sys \<Rightarrow> (string option \<times> memory_struct \<times> sys) res"

section \<open>The code\<close>

text \<open>\<open>ptr\<close> is the block libcurl passes; its length is the number of bytes that may be read.\<close>

definition write_callback :: write_function where
  "write_callback ptr item_size nmemb mem s =
     (let realsize = item_size * nmemb in
      if \<not> enabled mem then Inr (realsize, mem, s)
      else
        let buffer_length = mem_size mem + realsize + 1 in
        if of_nat BUFFER_MEMORY_SIZE < buffer_length then
          chk (log_error ''Not enough memory to download data, limit is %d bytes''
                 [AInt (int BUFFER_MEMORY_SIZE)] s) (\<lambda>s.
          Inr (-1, mem, s))
        else
          (case memory mem of
             None \<Rightarrow> Inl NullPointer
           | Some b \<Rightarrow>
               if length ptr < unat realsize then Inl OutOfBounds
               else
                 chk (store b (unat (mem_size mem)) (cells (take (unat realsize) ptr))) (\<lambda>b.
                 let new_size = mem_size mem + realsize in
                 chk (put_char b (unat new_size) NUL) (\<lambda>b.
                 Inr (realsize, mem\<lparr>memory := Some b, mem_size := new_size\<rparr>, s)))))"

text \<open>The test of the handle looks at the structure's own address, which is never null.\<close>

definition curl_init :: "bool \<Rightarrow> curl_t \<Rightarrow> sys \<Rightarrow> int \<times> curl_t \<times> sys" where
  "curl_init easy_handle curl s =
     (let (ok, s) = malloc s;
          curl = curl\<lparr>buffer := (buffer curl)\<lparr>memory := if ok then Some (fresh BUFFER_MEMORY_SIZE) else None,
                                              mem_size := 0\<rparr>,
                      handle := easy_handle\<rparr>
      in (1, curl, s))"

definition curl_destroy :: "curl_t \<Rightarrow> sys \<Rightarrow> sys" where
  "curl_destroy curl s = (if memory (buffer curl) \<noteq> None then free_block s else s)"

definition curl_fetch_url :: "perform_function \<Rightarrow> curl_t \<Rightarrow> string \<Rightarrow> sys \<Rightarrow> (int \<times> curl_t \<times> sys) res" where
  "curl_fetch_url perform curl url s =
     (case memory (buffer curl) of
        None \<Rightarrow> Inl NullPointer
      | Some b \<Rightarrow>
          chk (memset b NUL BUFFER_MEMORY_SIZE) (\<lambda>b.
          chk (perform url write_callback ((buffer curl)\<lparr>memory := Some b, mem_size := 0\<rparr>) s)
            (\<lambda>(result, mem, s).
            let curl = curl\<lparr>buffer := mem\<rparr> in
            case result of
              None \<Rightarrow>
                if enabled mem then
                  chk (log_info ''URL: %s, succeeded, %lu bytes retrieved''
                         [AStr url, AInt (uint (mem_size mem))] s) (\<lambda>s.
                  Inr (1, curl, s))
                else
                  chk (log_info ''URL: %s, succeeded, fetch only'' [AStr url] s) (\<lambda>s.
                  Inr (1, curl, s))
            | Some error \<Rightarrow>
                chk (log_notice ''URL: %s, failed with error: %s'' [AStr url, AStr error] s) (\<lambda>s.
                Inr (-1, curl, s)))))"

section \<open>What libcurl documents\<close>

text \<open>A transfer hands over the document in blocks of one-byte items, in order; a callback that
  returns another number than it was given ends the transfer with a write error.\<close>

fun transfer ::
  "string \<Rightarrow> string list \<Rightarrow> string option \<Rightarrow> write_function \<Rightarrow> memory_struct \<Rightarrow> sys
   \<Rightarrow> (string option \<times> memory_struct \<times> sys) res" where
  "transfer write_error [] result write mem s = Inr (result, mem, s)"
| "transfer write_error (block # blocks) result write mem s =
     chk (write block 1 (of_nat (length block)) mem s) (\<lambda>(n, mem, s).
     if n \<noteq> of_nat (length block) then Inr (Some write_error, mem, s)
     else transfer write_error blocks result write mem s)"

text \<open>A peer that answers a URL with these blocks.\<close>

definition delivers :: "perform_function \<Rightarrow> string \<Rightarrow> string \<Rightarrow> string list \<Rightarrow> string option \<Rightarrow> bool" where
  "delivers perform write_error url blocks result \<longleftrightarrow>
     (\<forall>write mem s. perform url write mem s = transfer write_error blocks result write mem s)"

section \<open>Lemmas\<close>

text \<open>The download buffer holds the bytes received so far, followed by a NUL.\<close>

definition received :: "memory_struct \<Rightarrow> string \<Rightarrow> bool" where
  "received mem data \<longleftrightarrow>
     (\<exists>r. memory mem = Some (cells data @ Some NUL # r)
        \<and> length (cells data @ Some NUL # r) = BUFFER_MEMORY_SIZE)
     \<and> mem_size mem = of_nat (length data)"

lemma received_length: "received mem data \<Longrightarrow> length data < BUFFER_MEMORY_SIZE"
  by (auto simp: received_def)

lemma size_small: "n < 2 ^ 64 \<Longrightarrow> unat (of_nat n :: 64 word) = n"
  by (simp add: unsigned_of_nat take_bit_nat_eq_self)

text \<open>The bound in 64-bit arithmetic is the bound on the numbers, for blocks below 2 to the 32.\<close>

lemma buffer_length_exceeds:
  assumes "length data < BUFFER_MEMORY_SIZE" and "length block < 2 ^ 32"
  shows "(of_nat BUFFER_MEMORY_SIZE :: 64 word) < of_nat (length data) + of_nat (length block) + 1
     \<longleftrightarrow> BUFFER_MEMORY_SIZE < length data + length block + 1"
proof -
  have "of_nat (length data) + of_nat (length block) + (1 :: 64 word)
      = of_nat (length data + length block + 1)" by simp
  moreover have "length data + length block + 1 < 2 ^ 64" "BUFFER_MEMORY_SIZE < 2 ^ 64"
    using assms by (simp_all add: BUFFER_MEMORY_SIZE_def)
  ultimately show ?thesis by (simp only: word_less_nat_alt size_small)
qed

lemma log_fits_memory:
  "log_fits ''Not enough memory to download data, limit is %d bytes'' [AInt (int BUFFER_MEMORY_SIZE)]"
  using length_show_int [of "int BUFFER_MEMORY_SIZE" 5] NUL_notin_show_int
  by (simp add: log_fits_def convert_def QUERAL_LOG_BUFFER_SIZE_def BUFFER_MEMORY_SIZE_def)

lemma write_callback_appends:
  assumes "enabled mem" and "received mem data" and "length block < 2 ^ 32"
    and room: "length data + length block < BUFFER_MEMORY_SIZE"
  shows "\<exists>mem'. write_callback block 1 (of_nat (length block)) mem s
       = Inr (of_nat (length block), mem', s)
     \<and> received mem' (data @ block) \<and> enabled mem'"
proof -
  obtain r where r: "memory mem = Some (cells data @ Some NUL # r)"
      "length (cells data @ Some NUL # r) = BUFFER_MEMORY_SIZE"
      "mem_size mem = of_nat (length data)"
    using assms(2) by (auto simp: received_def)
  let ?b = "cells data @ Some NUL # r" and ?n = "length data + length block"
  have small: "unat (mem_size mem) = length data" "unat (of_nat (length block) :: 64 word) = length block"
      "unat (mem_size mem + of_nat (length block)) = ?n"
    using r(3) room assms(3) size_small [of "length data"] size_small [of "length block"]
      size_small [of ?n]
    by (simp_all add: BUFFER_MEMORY_SIZE_def)
  have ok: "\<not> (of_nat BUFFER_MEMORY_SIZE :: 64 word) < mem_size mem + of_nat (length block) + 1"
    using buffer_length_exceeds [of data block] room assms(3) r(3) by simp
  obtain x r' where rest: "drop (length block) (Some NUL # r) = x # r'"
    using r(2) room by (cases "drop (length block) (Some NUL # r)") auto
  have "store ?b (length data) (cells block) = Inr (cells data @ cells block @ x # r')"
    using room r(2) rest by (simp add: store_def)
  moreover have "put_char (cells data @ cells block @ x # r') ?n NUL
      = Inr (cells (data @ block) @ Some NUL # r')"
    using put_char_layout [of "cells (data @ block)" ?n x r' NUL] by simp
  ultimately have "write_callback block 1 (of_nat (length block)) mem s
      = Inr (of_nat (length block),
          mem\<lparr>memory := Some (cells (data @ block) @ Some NUL # r'),
              mem_size := mem_size mem + of_nat (length block)\<rparr>, s)"
    using assms(1) r(1) small ok by (simp add: write_callback_def Let_def)
  moreover have "length (cells (data @ block) @ Some NUL # r') = BUFFER_MEMORY_SIZE"
    using r(2) arg_cong [OF rest, of length] room by simp
  ultimately show ?thesis using r(3) assms(1) by (auto simp: received_def)
qed

lemma write_callback_refuses:
  assumes "enabled mem" and "received mem data" and "length block < 2 ^ 32"
    and big: "BUFFER_MEMORY_SIZE \<le> length data + length block"
  shows "write_callback block 1 (of_nat (length block)) mem s
     = Inr (-1, mem, logged LOG_ERR ''Not enough memory to download data, limit is %d bytes''
                       [AInt (int BUFFER_MEMORY_SIZE)] s)"
proof -
  have "(of_nat BUFFER_MEMORY_SIZE :: 64 word) < mem_size mem + of_nat (length block) + 1"
    using buffer_length_exceeds [of data block] received_length [OF assms(2)] big assms(2,3)
    by (simp add: received_def)
  then show ?thesis
    using assms(1)
    by (simp add: write_callback_def Let_def log_error_def log_write_fits [OF log_fits_memory])
qed

lemma write_callback_disabled:
  "\<not> enabled mem \<Longrightarrow> write_callback block 1 n mem s = Inr (n, mem, s)"
  by (simp add: write_callback_def Let_def)

lemma received_cleared:
  assumes "memory mem = Some b" and "length b = BUFFER_MEMORY_SIZE"
  shows "\<exists>b'. memset b NUL BUFFER_MEMORY_SIZE = Inr b' \<and> length b' = BUFFER_MEMORY_SIZE
     \<and> received (mem\<lparr>memory := Some b', mem_size := 0\<rparr>) []"
proof -
  have "replicate BUFFER_MEMORY_SIZE (Some NUL)
      = Some NUL # replicate (BUFFER_MEMORY_SIZE - 1) (Some NUL)"
    by (simp add: BUFFER_MEMORY_SIZE_def flip: replicate_Suc)
  moreover have "memset b NUL BUFFER_MEMORY_SIZE = Inr (replicate BUFFER_MEMORY_SIZE (Some NUL))"
    using assms(2) by (simp add: memset_def store_def)
  ultimately show ?thesis by (simp add: received_def BUFFER_MEMORY_SIZE_def)
qed

lemma transfer_completes:
  assumes "enabled mem" and "received mem data" and "\<forall>b \<in> set blocks. length b < 2 ^ 32"
    and "length data + length (concat blocks) < BUFFER_MEMORY_SIZE"
  shows "\<exists>mem'. transfer e blocks result write_callback mem s = Inr (result, mem', s)
     \<and> received mem' (data @ concat blocks) \<and> enabled mem'"
  using assms
proof (induction blocks arbitrary: mem data)
  case Nil
  then show ?case by simp
next
  case (Cons b bs)
  obtain mem1 where "write_callback b 1 (of_nat (length b)) mem s = Inr (of_nat (length b), mem1, s)"
      "received mem1 (data @ b)" "enabled mem1"
    using write_callback_appends [OF Cons.prems(1,2), of b s] Cons.prems(3,4) by auto
  then show ?case using Cons.IH [of mem1 "data @ b"] Cons.prems(3,4) by simp
qed

lemma transfer_stops:
  assumes "enabled mem" and "received mem data" and "\<forall>b \<in> set blocks. length b < 2 ^ 32"
    and "BUFFER_MEMORY_SIZE \<le> length data + length (concat blocks)"
  shows "\<exists>mem' got. transfer e blocks result write_callback mem s
       = Inr (Some e, mem', logged LOG_ERR ''Not enough memory to download data, limit is %d bytes''
                              [AInt (int BUFFER_MEMORY_SIZE)] s)
     \<and> received mem' got \<and> prefix got (data @ concat blocks) \<and> enabled mem'"
  using assms
proof (induction blocks arbitrary: mem data)
  case Nil
  then show ?case using received_length [OF Nil(2)] by simp
next
  case (Cons b bs)
  have b: "length b < 2 ^ 32" and bs: "\<forall>b \<in> set bs. length b < 2 ^ 32" using Cons.prems(3) by simp_all
  show ?case
  proof (cases "length data + length b < BUFFER_MEMORY_SIZE")
    case True
    obtain mem1 where "write_callback b 1 (of_nat (length b)) mem s
          = Inr (of_nat (length b), mem1, s)" "received mem1 (data @ b)" "enabled mem1"
      using write_callback_appends [OF Cons.prems(1,2) b True] by blast
    then show ?thesis using Cons.IH [of mem1 "data @ b"] bs Cons.prems(4) by simp
  next
    case False
    have "of_nat (length b) \<noteq> (-1 :: 64 word)"
    proof
      assume "of_nat (length b) = (-1 :: 64 word)"
      then have "of_nat (Suc (length b)) = (0 :: 64 word)" by simp
      then show False using b size_small [of "Suc (length b)"] by simp
    qed
    then show ?thesis
      using write_callback_refuses [OF Cons.prems(1,2) b] False Cons.prems(1,2)
      by (auto simp: not_less)
  qed
qed

lemma transfer_disabled:
  assumes "\<not> enabled mem"
  shows "transfer e blocks result write_callback mem s = Inr (result, mem, s)"
proof (induction blocks)
  case (Cons b bs)
  then show ?case using assms by (simp add: write_callback_disabled)
qed simp

lemma printf_fetch_only:
  "printf_from ''URL: %s, succeeded, fetch only'' [AStr url]
     = Inr (''URL: '' @ url @ '', succeeded, fetch only'')"
  by (simp add: convert_def)

lemma printf_retrieved:
  "printf_from ''URL: %s, succeeded, %lu bytes retrieved'' [AStr url, AInt n]
     = Inr (''URL: '' @ url @ '', succeeded, '' @ show_int n @ '' bytes retrieved'')"
  by (simp add: convert_def)

lemma printf_failed:
  "printf_from ''URL: %s, failed with error: %s'' [AStr url, AStr e]
     = Inr (''URL: '' @ url @ '', failed with error: '' @ e)"
  by (simp add: convert_def)

lemma log_fits_retrieved:
  assumes "NUL \<notin> set url" and "length url < 200" and "n < BUFFER_MEMORY_SIZE"
  shows "log_fits ''URL: %s, succeeded, %lu bytes retrieved'' [AStr url, AInt (int n)]"
proof -
  have "length (show_int (int n)) \<le> 6"
    using length_show_int [of "int n" 5] assms(3) by (simp add: BUFFER_MEMORY_SIZE_def)
  then show ?thesis
    unfolding log_fits_def printf_retrieved using assms(1,2) NUL_notin_show_int [of "int n"]
    by (simp add: QUERAL_LOG_BUFFER_SIZE_def)
qed

lemma log_fits_failed:
  "NUL \<notin> set url \<Longrightarrow> NUL \<notin> set e \<Longrightarrow> length url + length e < 200
   \<Longrightarrow> log_fits ''URL: %s, failed with error: %s'' [AStr url, AStr e]"
  unfolding log_fits_def printf_failed by (simp add: QUERAL_LOG_BUFFER_SIZE_def)

lemma log_fits_fetch_only:
  "NUL \<notin> set url \<Longrightarrow> length url < 228 \<Longrightarrow> log_fits ''URL: %s, succeeded, fetch only'' [AStr url]"
  unfolding log_fits_def printf_fetch_only by (simp add: QUERAL_LOG_BUFFER_SIZE_def)

text \<open>A client that is set up.\<close>

definition curl_ready :: "curl_t \<Rightarrow> bool" where
  "curl_ready curl \<longleftrightarrow> (\<exists>b. memory (buffer curl) = Some b \<and> length b = BUFFER_MEMORY_SIZE)"

lemma received_ready: "received (buffer curl) data \<Longrightarrow> curl_ready curl"
  by (auto simp: received_def curl_ready_def)

lemma curl_init_ready: "plenty s \<Longrightarrow> \<exists>curl' s'. curl_init ok curl s = (1, curl', s') \<and> curl_ready curl'"
  by (simp add: curl_init_def curl_ready_def Let_def)

text \<open>The three outcomes of a download.\<close>

lemma fetch_downloads:
  assumes "curl_ready curl" and "enabled (buffer curl)"
    and "delivers perform e url blocks None"
    and "\<forall>b \<in> set blocks. length b < 2 ^ 32" and "length (concat blocks) < BUFFER_MEMORY_SIZE"
    and "NUL \<notin> set url" and "length url < 200"
  shows "\<exists>curl' s'. curl_fetch_url perform curl url s = Inr (1, curl', s')
     \<and> received (buffer curl') (concat blocks) \<and> live s' = live s \<and> plenty s' = plenty s
     \<and> log_upto s' = log_upto s"
proof -
  obtain b b' where b: "memory (buffer curl) = Some b" "memset b NUL BUFFER_MEMORY_SIZE = Inr b'"
      "received ((buffer curl)\<lparr>memory := Some b', mem_size := 0\<rparr>) []"
    using assms(1) received_cleared [of "buffer curl"] by (auto simp: curl_ready_def)
  let ?mem = "(buffer curl)\<lparr>memory := Some b', mem_size := 0\<rparr>"
  have "enabled ?mem" using assms(2) by simp
  then obtain mem' where mem': "transfer e blocks None write_callback ?mem s = Inr (None, mem', s)"
      "received mem' (concat blocks)" "enabled mem'"
    using transfer_completes [OF _ b(3) assms(4), of e None s] assms(5) by auto
  have size: "uint (mem_size mem') = int (length (concat blocks))"
  proof -
    have "mem_size mem' = of_nat (length (concat blocks))"
      using mem'(2) by (simp add: received_def)
    moreover have "unat (of_nat (length (concat blocks)) :: 64 word) = length (concat blocks)"
      using assms(5) by (intro size_small) (simp add: BUFFER_MEMORY_SIZE_def)
    ultimately show ?thesis by (simp only: uint_nat)
  qed
  show ?thesis
    using b(1,2) mem' assms(3) log_write_fits [OF log_fits_retrieved [OF assms(6,7,5)]]
    by (simp add: curl_fetch_url_def delivers_def log_info_def size Let_def)
qed

lemma fetch_too_big:
  assumes "curl_ready curl" and "enabled (buffer curl)"
    and "delivers perform e url blocks result"
    and "\<forall>b \<in> set blocks. length b < 2 ^ 32" and "BUFFER_MEMORY_SIZE \<le> length (concat blocks)"
    and "NUL \<notin> set url" and "NUL \<notin> set e" and "length url + length e < 200"
  shows "\<exists>curl' s' got. curl_fetch_url perform curl url s = Inr (-1, curl', s')
     \<and> received (buffer curl') got \<and> prefix got (concat blocks) \<and> live s' = live s
     \<and> plenty s' = plenty s \<and> log_upto s' = log_upto s"
proof -
  obtain b b' where b: "memory (buffer curl) = Some b" "memset b NUL BUFFER_MEMORY_SIZE = Inr b'"
      "received ((buffer curl)\<lparr>memory := Some b', mem_size := 0\<rparr>) []"
    using assms(1) received_cleared [of "buffer curl"] by (auto simp: curl_ready_def)
  let ?mem = "(buffer curl)\<lparr>memory := Some b', mem_size := 0\<rparr>"
  have "enabled ?mem" using assms(2) by simp
  then obtain mem' got where "transfer e blocks result write_callback ?mem s
      = Inr (Some e, mem', logged LOG_ERR ''Not enough memory to download data, limit is %d bytes''
                             [AInt (int BUFFER_MEMORY_SIZE)] s)"
      "received mem' got" "prefix got (concat blocks)"
    using transfer_stops [OF _ b(3) assms(4), of e result s] assms(5) by auto
  then show ?thesis
    using b(1,2) assms(3) log_write_fits [OF log_fits_failed [OF assms(6-8)]]
    by (auto simp: curl_fetch_url_def delivers_def log_notice_def Let_def)
qed

text \<open>In fetch-only mode nothing is kept of the document, whatever libcurl delivers. The message about
  it overruns the log buffer exactly when the URL has 228 bytes or more, which a job of up to 254
  bytes can have.\<close>

lemma fetch_only:
  assumes "curl_ready curl" and "\<not> enabled (buffer curl)"
    and "delivers perform e url blocks None" and "NUL \<notin> set url"
  shows "if length url < 228
     then \<exists>curl' s'. curl_fetch_url perform curl url s = Inr (1, curl', s')
       \<and> received (buffer curl') [] \<and> live s' = live s
     else curl_fetch_url perform curl url s = Inl OutOfBounds"
proof -
  obtain b b' where b: "memory (buffer curl) = Some b" "memset b NUL BUFFER_MEMORY_SIZE = Inr b'"
      "received ((buffer curl)\<lparr>memory := Some b', mem_size := 0\<rparr>) []"
    using assms(1) received_cleared [of "buffer curl"] by (auto simp: curl_ready_def)
  let ?mem = "(buffer curl)\<lparr>memory := Some b', mem_size := 0\<rparr>"
  have "\<not> enabled ?mem" using assms(2) by simp
  then have fetch: "curl_fetch_url perform curl url s
      = chk (log_info ''URL: %s, succeeded, fetch only'' [AStr url] s)
          (\<lambda>s. Inr (1, curl\<lparr>buffer := ?mem\<rparr>, s))"
    using b(1,2) assms(2,3) transfer_disabled [of ?mem e blocks None s]
    by (simp add: curl_fetch_url_def delivers_def Let_def)
  show ?thesis
  proof (cases "length url < 228")
    case True
    then show ?thesis
      unfolding fetch log_info_def log_write_fits [OF log_fits_fetch_only [OF assms(4) True]]
      using b(3) by simp
  next
    case False
    have "log_write LOG_INFO ''URL: %s, succeeded, fetch only'' [AStr url] s = Inl OutOfBounds"
      by (rule log_write_overflow [OF printf_fetch_only])
        (use False in \<open>simp add: QUERAL_LOG_BUFFER_SIZE_def\<close>)
    then show ?thesis unfolding fetch log_info_def using False by simp
  qed
qed

text \<open>A client and a peer to evaluate on.\<close>

definition sample_curl :: "bool \<Rightarrow> curl_t" where
  "sample_curl on = \<lparr>handle = True,
     buffer = \<lparr>memory = Some (fresh BUFFER_MEMORY_SIZE), mem_size = 0, enabled = on\<rparr>\<rparr>"

definition sample_perform :: "string list \<Rightarrow> perform_function" where
  "sample_perform blocks url write mem s = transfer ''write error'' blocks None write mem s"

lemma sample_delivers: "delivers (sample_perform blocks) ''write error'' url blocks None"
  by (simp add: delivers_def sample_perform_def)

lemma sample_curl_ready: "curl_ready (sample_curl on)" "enabled (buffer (sample_curl on)) = on"
  by (simp_all add: curl_ready_def sample_curl_def)

section \<open>Properties\<close>

text \<open>
  C19: A document that fits the buffer with a NUL behind it is downloaded completely and in order,
  however libcurl cuts it into blocks; one that does not fit is refused with -1, and the buffer then
  holds a prefix of it, still closed by a NUL.
\<close>

theorem curl_fetch_url_downloads:
  assumes "curl_ready curl" and "enabled (buffer curl)"
    and "delivers perform e url blocks None" and "\<forall>b \<in> set blocks. length b < 2 ^ 32"
    and "NUL \<notin> set url" and "NUL \<notin> set e" and "length url + length e < 200"
  shows "\<exists>curl' s' got. curl_fetch_url perform curl url s
       = Inr (if length (concat blocks) < BUFFER_MEMORY_SIZE then 1 else -1, curl', s')
     \<and> received (buffer curl') got \<and> prefix got (concat blocks)
     \<and> (length (concat blocks) < BUFFER_MEMORY_SIZE \<longrightarrow> got = concat blocks)"
proof (cases "length (concat blocks) < BUFFER_MEMORY_SIZE")
  case True
  have "length url < 200" using assms(7) by simp
  then show ?thesis using fetch_downloads [OF assms(1-4) True assms(5), of s] True by auto
next
  case False
  then have big: "BUFFER_MEMORY_SIZE \<le> length (concat blocks)" by simp
  show ?thesis using fetch_too_big [OF assms(1-4) big assms(5-7), of s] False by auto
qed

theorem curl_fetch_url_downloads_witness:
  "\<exists>curl' s'. curl_fetch_url (sample_perform [''ab'', ''c'']) (sample_curl True) ''http://a'' sample_sys
       = Inr (1, curl', s') \<and> received (buffer curl') ''abc''"
proof -
  have u: "NUL \<notin> set ''http://a''" "NUL \<notin> set ''write error''"
      "length ''http://a'' + length ''write error'' < 200"
    by code_simp+
  have b: "\<forall>b \<in> set [''ab'', ''c'']. length b < 2 ^ 32" by simp
  have on: "enabled (buffer (sample_curl True))" by (simp add: sample_curl_ready)
  have "length (concat [''ab'', ''c'']) < BUFFER_MEMORY_SIZE" by (simp add: BUFFER_MEMORY_SIZE_def)
  then show ?thesis
    using curl_fetch_url_downloads [OF sample_curl_ready(1) on sample_delivers b u, of sample_sys]
    by auto
qed

end
