(* ===== verification/Memcached_Client.thy ===== *)
theory Memcached_Client
  imports Logger
begin

text \<open>
  \<^verbatim>\<open>src/src/memcached_client.c\<close>. libmemcached is not part of the sources: the outcome of each of its
  calls is an argument (\<open>None\<close> for success, \<open>Some\<close> for an error and its text), and the records the
  client asks it to store or delete are collected in order. \<open>max_key\<close> stands for the library's
  \<^verbatim>\<open>MEMCACHED_MAX_KEY\<close>.
\<close>

section \<open>State\<close>

text \<open>\<open>memc\<close> says whether the handle is non-null; \<open>servers\<close> is \<open>None\<close> while the pointer is
  indeterminate, and otherwise says whether it is non-null.\<close>

record memcached_t =
  memc :: bool
  servers :: "bool option"

datatype mc_request = McSet string string int | McDelete string

type_synonym mc_peer = "mc_request list \<Rightarrow> string option"

section \<open>The code\<close>

definition memcached_init :: "bool \<Rightarrow> bool" where
  "memcached_init created = created"

definition memcached_destroy :: "memcached_t \<Rightarrow> memcached_t res" where
  "memcached_destroy m =
     (case servers m of
        None \<Rightarrow> Inl Uninitialised
      | Some listed \<Rightarrow>
          let m = (if listed then m\<lparr>servers := Some False\<rparr> else m);
              m = (if memc m then m\<lparr>servers := Some False\<rparr> else m)
          in Inr m)"

definition memcached_connect :: "string option \<Rightarrow> string \<Rightarrow> sys \<Rightarrow> (int \<times> sys) res" where
  "memcached_connect outcome servername s =
     (case outcome of
        None \<Rightarrow> Inr (1, s)
      | Some error \<Rightarrow>
          chk (log_error (''Failed to add memcached server '' @ quoted ''%s'' @ '': %s'')
                 [AStr servername, AStr error] s) (\<lambda>s.
          Inr (-1, s)))"

definition memcached_connect_list ::
  "bool \<Rightarrow> string option \<Rightarrow> memcached_t \<Rightarrow> sys \<Rightarrow> (int \<times> memcached_t \<times> sys) res" where
  "memcached_connect_list parsed outcome m s =
     (let m = m\<lparr>servers := Some parsed\<rparr> in
      if \<not> parsed then
        chk (log_error ''Failed to parse memcached server list'' [] s) (\<lambda>s. Inr (-1, m, s))
      else
        let m = m\<lparr>servers := Some False\<rparr> in
        case outcome of
          None \<Rightarrow> Inr (1, m, s)
        | Some error \<Rightarrow>
            chk (log_error ''Failed to connect memcached servers from the list: %s'' [AStr error] s)
              (\<lambda>s. Inr (-1, m, s)))"

text \<open>A null string as the argument of a conversion is a fault.\<close>

definition server_display_function :: "string option \<Rightarrow> string \<times> int \<Rightarrow> sys \<Rightarrow> sys res" where
  "server_display_function context server s =
     (case context of
        None \<Rightarrow> Inl NullPointer
      | Some c \<Rightarrow> log_info ''%s: %s:%d'' [AStr c, AStr (fst server), AInt (snd server)] s)"

text \<open>\<^verbatim>\<open>memcached_server_cursor\<close> calls the function for each server with the context it was given.\<close>

fun server_cursor ::
  "(string option \<Rightarrow> string \<times> int \<Rightarrow> sys \<Rightarrow> sys res) \<Rightarrow> string option \<Rightarrow> (string \<times> int) list \<Rightarrow> sys \<Rightarrow> sys res" where
  "server_cursor f context [] s = Inr s"
| "server_cursor f context (x # xs) s = chk (f context x s) (server_cursor f context xs)"

definition memcached_display_servers :: "(string \<times> int) list \<Rightarrow> sys \<Rightarrow> sys res" where
  "memcached_display_servers server_list s =
     chk (strcpy (fresh 22) 0 ''memcached server info'') (\<lambda>context.
     server_cursor server_display_function None server_list s)"

definition memcached_override_record ::
  "mc_peer \<Rightarrow> string \<Rightarrow> cbuf option \<Rightarrow> int \<Rightarrow> mc_request list \<Rightarrow> sys \<Rightarrow> (int \<times> mc_request list \<times> sys) res" where
  "memcached_override_record peer key val expiration requests s =
     (case val of
        None \<Rightarrow> Inl NullPointer
      | Some b \<Rightarrow>
          chk (str_at b 0) (\<lambda>v.
          let requests = requests @ [McSet key v expiration] in
          case peer requests of
            None \<Rightarrow> chk (log_info ''Cache: %s, updated'' [AStr key] s) (\<lambda>s. Inr (1, requests, s))
          | Some error \<Rightarrow>
              chk (log_warning (''Failed to store record '' @ quoted ''%s'' @ '' on memcached: %s'')
                     [AStr key, AStr error] s) (\<lambda>s.
              Inr (-1, requests, s))))"

definition memcached_delete_record ::
  "mc_peer \<Rightarrow> string \<Rightarrow> bool \<Rightarrow> mc_request list \<Rightarrow> sys \<Rightarrow> (int \<times> mc_request list \<times> sys) res" where
  "memcached_delete_record peer key with_warning requests s =
     (let requests = requests @ [McDelete key] in
      case peer requests of
        None \<Rightarrow> chk (log_info ''Cache: %s, deleted'' [AStr key] s) (\<lambda>s. Inr (1, requests, s))
      | Some error \<Rightarrow>
          if with_warning then
            chk (log_warning (''Failed to delete record '' @ quoted ''%s'' @ '' on memcached: %s'')
                   [AStr key, AStr error] s) (\<lambda>s.
            Inr (-1, requests, s))
          else
            chk (log_info (''Failed to delete record '' @ quoted ''%s'' @ '' on memcached: %s'')
                   [AStr key, AStr error] s) (\<lambda>s.
            Inr (-1, requests, s)))"

definition create_key ::
  "nat \<Rightarrow> cbuf option \<Rightarrow> nat \<Rightarrow> string option \<Rightarrow> string option \<Rightarrow> sys \<Rightarrow> (int \<times> cbuf option \<times> sys) res" where
  "create_key max_key out out_len key_prefix url s =
     (case (out, key_prefix, url) of
        (Some b, Some p, Some u) \<Rightarrow>
          let key_length = length p + length u in
          if key_length < max_key \<and> key_length \<le> out_len then
            chk (strcpy b 0 p) (\<lambda>b.
            chk (strcat b u) (\<lambda>b.
            Inr (1, Some b, s)))
          else
            chk (log_error (''Maximum memcached key length exceeded: %d, URL: '' @ quoted ''%s'')
                   [AInt (int max_key), AStr u] s) (\<lambda>s.
            Inr (-1, out, s))
      | (_, _, None) \<Rightarrow> Inl NullPointer
      | (_, _, Some u) \<Rightarrow>
          chk (log_error (''Failed to create memcached key from URL: '' @ quoted ''%s'') [AStr u] s)
            (\<lambda>s. Inr (-1, out, s)))"

section \<open>Lemmas\<close>

text \<open>The key of a URL: prefix and URL, when they leave room for a NUL.\<close>

lemma create_key_fits:
  assumes "NUL \<notin> set p" and "NUL \<notin> set u" and "length b = out_len"
    and "length p + length u < max_key" and "length p + length u < out_len"
  shows "\<exists>b'. create_key max_key (Some b) out_len (Some p) (Some u) s = Inr (1, Some b', s)
     \<and> str_at b' 0 = Inr (p @ u) \<and> length b' = length b"
proof -
  obtain b1 where b1: "strcpy b 0 p = Inr b1" "str_at b1 0 = Inr p" "length b1 = length b"
    using strcpy_fits [OF assms(1), of b] assms(3,5) by auto
  obtain b' where "strcat b1 u = Inr b'" "str_at b' 0 = Inr (p @ u)" "length b' = length b1"
    using strcat_at [OF b1(2) assms(2)] b1(3) assms(3,5) by auto
  then show ?thesis using assms b1 by (simp add: create_key_def)
qed

section \<open>Properties\<close>



end
