(* ===== verification/Sleep_Utils.thy ===== *)
theory Sleep_Utils
  imports Prelude_C "HOL-Library.Word" "HOL-Library.Signed_Division"
begin

text \<open>
  \<^verbatim>\<open>src/src/sleep_utils.c\<close>: the pause of a worker after each job. The outcome of \<^verbatim>\<open>rand()\<close> is an
  argument; the request handed to \<^verbatim>\<open>nanosleep\<close> is a result. \<^verbatim>\<open>unsigned long\<close> is a 64-bit word,
  \<^verbatim>\<open>int\<close> a 32-bit one.
\<close>

record timespec =
  tv_sec :: int
  tv_nsec :: int

definition milli_sleep :: "64 word \<Rightarrow> timespec" where
  "milli_sleep millis_to_sleep =
     (let secs = sint (ucast (millis_to_sleep div 1000) :: 32 word);
          millisecs = millis_to_sleep - word_of_int (secs * 1000)
      in \<lparr>tv_sec = secs, tv_nsec = sint (millisecs * 1000000)\<rparr>)"

text \<open>\<^verbatim>\<open>rand() % (base + 1)\<close> is computed in \<^verbatim>\<open>long\<close> and stored in an \<^verbatim>\<open>int\<close>; its sign is that of the
  dividend.\<close>

definition sleep_millis :: "int \<Rightarrow> int \<Rightarrow> (int \<times> timespec) res" where
  "sleep_millis random base =
     (if base + 1 = 0 then Inl DivisionByZero
      else
        let millis_to_sleep = sint (word_of_int (random smod (base + 1)) :: 32 word)
        in Inr (millis_to_sleep, milli_sleep (word_of_int millis_to_sleep)))"

definition RAND_MAX :: int where
  "RAND_MAX = 2147483647"

section \<open>Lemmas\<close>

lemma sint_small: "0 \<le> i \<Longrightarrow> i < 2147483648 \<Longrightarrow> sint (word_of_int i :: 32 word) = i"
  by (simp add: signed_of_int signed_take_bit_int_eq_self)

lemma sint_small_64:
  "0 \<le> i \<Longrightarrow> i < 9223372036854775808 \<Longrightarrow> sint (word_of_int i :: 64 word) = i"
  by (simp add: signed_of_int signed_take_bit_int_eq_self)

lemma milli_sleep_splits:
  assumes "0 \<le> n" and "n < 2147483648"
  shows "milli_sleep (word_of_int n) = \<lparr>tv_sec = n div 1000, tv_nsec = (n mod 1000) * 1000000\<rparr>"
proof -
  let ?m = "word_of_int n :: 64 word"
  have m: "uint ?m = n" using assms by (simp add: uint_word_of_int take_bit_int_eq_self)
  have "uint (?m div 1000) = n div 1000" by (simp add: uint_div m)
  then have "?m div 1000 = word_of_int (n div 1000)" by (metis word_of_int_uint)
  then have "(ucast (?m div 1000) :: 32 word) = word_of_int (n div 1000)"
    using assms by (simp add: ucast_eq uint_word_of_int take_bit_int_eq_self)
  then have secs: "sint (ucast (?m div 1000) :: 32 word) = n div 1000"
    using assms by (simp add: sint_small)
  have rest: "n - n div 1000 * 1000 = n mod 1000" by (simp add: minus_div_mult_eq_mod)
  have "?m - word_of_int (n div 1000 * 1000) = word_of_int (n mod 1000)"
    unfolding wi_hom_sub rest ..
  then have "(?m - word_of_int (n div 1000 * 1000)) * 1000000
      = (word_of_int (n mod 1000 * 1000000) :: 64 word)"
    by (simp add: wi_hom_mult)
  moreover have "sint (word_of_int (n mod 1000 * 1000000) :: 64 word) = n mod 1000 * 1000000"
  proof -
    have "0 \<le> n mod 1000" "n mod 1000 < 1000" by simp_all
    then show ?thesis by (intro sint_small_64) simp_all
  qed
  ultimately show ?thesis by (simp add: milli_sleep_def secs Let_def)
qed

lemma millis_split: "(n::int) div 1000 * 1000000000 + n mod 1000 * 1000000 = n * 1000000"
  by presburger

section \<open>Properties\<close>

text \<open>
  C38: With a contention of at least 0 a worker sleeps for a time between 0 and the contention, and
  the request given to \<^verbatim>\<open>nanosleep\<close> is valid and adds up to that time.
\<close>

theorem sleep_millis_bounded:
  assumes "0 \<le> base" and "0 \<le> random" and "random \<le> RAND_MAX"
  shows "\<exists>ms request. sleep_millis random base = Inr (ms, request) \<and> 0 \<le> ms \<and> ms \<le> base
     \<and> 0 \<le> tv_nsec request \<and> tv_nsec request < 1000000000
     \<and> tv_sec request * 1000000000 + tv_nsec request = ms * 1000000"
proof -
  let ?ms = "random mod (base + 1)"
  have "random smod (base + 1) = ?ms"
    using assms by (simp add: signed_modulo_int_def sgn_if)
  moreover have ms: "0 \<le> ?ms" "?ms < base + 1" "?ms < 2147483648"
    using assms pos_mod_bound [of "base + 1" random] zmod_le_nonneg_dividend [of random "base + 1"]
    by (simp_all add: RAND_MAX_def)
  ultimately have "sleep_millis random base = Inr (?ms, milli_sleep (word_of_int ?ms))"
    using assms by (simp add: sleep_millis_def sint_small Let_def)
  moreover have "?ms div 1000 * 1000000000 + ?ms mod 1000 * 1000000 = ?ms * 1000000"
    by (rule millis_split)
  ultimately show ?thesis
    using ms milli_sleep_splits [OF ms(1,3)] by simp
qed

theorem sleep_millis_bounded_witness:
  "\<exists>ms request. sleep_millis 1804289383 100 = Inr (ms, request) \<and> 0 \<le> ms \<and> ms \<le> 100
     \<and> tv_sec request * 1000000000 + tv_nsec request = ms * 1000000"
  using sleep_millis_bounded [of 100 1804289383] by (auto simp: RAND_MAX_def)

text \<open>
  A contention of -1, which the configuration reader lets through, makes the first pause divide
  by zero, and no other contention does.
\<close>

lemma sleep_millis_divides_by_zero:
  "sleep_millis random base = Inl DivisionByZero \<longleftrightarrow> base = -1"
  by (auto simp: sleep_millis_def Let_def)

end
