(* ===== verification/File_Utils.thy ===== *)
theory File_Utils
  imports Config_Utils
begin

text \<open>
  \<^verbatim>\<open>src/src/file_utils.c\<close>: the list of the configuration files of a directory. What the file system
  answers is an argument: the entries of a directory in the order of \<^verbatim>\<open>readdir\<close>, and the kind of a
  file when it is opened.
\<close>

section \<open>The code\<close>

datatype dir_result = DirError string | DirEntries "string list"

datatype file_kind = OpenFailed string | RegularFile | OtherFile

definition MAX_NUM_FILES :: nat where
  "MAX_NUM_FILES = 32"

definition is_file :: "(string \<Rightarrow> file_kind) \<Rightarrow> string \<Rightarrow> sys \<Rightarrow> (bool \<times> sys) res" where
  "is_file kind filename s =
     (case kind filename of
        OpenFailed error \<Rightarrow>
          chk (log_notice (''Failed to open file '' @ quoted ''%s'' @ '': %s'')
                 [AStr filename, AStr error] s) (\<lambda>s.
          Inr (False, s))
      | RegularFile \<Rightarrow> Inr (True, s)
      | OtherFile \<Rightarrow> Inr (False, s))"

definition has_extension :: "string \<Rightarrow> string \<Rightarrow> bool" where
  "has_extension ext name \<longleftrightarrow>
     length ext < length name \<and> drop (length name - length ext) name = ext"

definition put_file :: "string option list \<Rightarrow> nat \<Rightarrow> string option \<Rightarrow> string option list res" where
  "put_file file_list i x =
     (if i < length file_list then Inr (file_list[i := x]) else Inl OutOfBounds)"

text \<open>The loop over the directory. The result is the list and the number of files in it, or \<open>None\<close>
  where the function gives up and returns a null pointer.\<close>

fun list_loop ::
  "(string \<Rightarrow> file_kind) \<Rightarrow> string \<Rightarrow> nat \<Rightarrow> string list \<Rightarrow> cbuf \<Rightarrow> nat \<Rightarrow> string option list \<Rightarrow> sys
   \<Rightarrow> ((string option list \<times> nat) option \<times> sys) res" where
  "list_loop kind ext dir_length [] filename i file_list s = Inr (Some (file_list, i), s)"
| "list_loop kind ext dir_length (name # names) filename i file_list s =
     (if i < MAX_NUM_FILES then
        (if has_extension ext name then
           chk (strcpy filename dir_length name) (\<lambda>filename.
           chk (str_at filename 0) (\<lambda>path.
           chk (is_file kind path s) (\<lambda>(regular, s).
           if regular then
             let (dup, s) = dup_string path s in
             chk (put_file file_list i dup) (\<lambda>file_list.
             if dup = None then
               chk (log_error ''Failed to allocate memory for listing files'' [] s) (\<lambda>s.
               chk (destroy_string_list (Some file_list) (int i) s) (\<lambda>s.
               Inr (None, s)))
             else list_loop kind ext dir_length names filename (i + 1) file_list s)
           else list_loop kind ext dir_length names filename i file_list s)))
         else list_loop kind ext dir_length names filename i file_list s)
      else Inr (Some (file_list, i), s))"

definition list_files ::
  "(string \<Rightarrow> dir_result) \<Rightarrow> (string \<Rightarrow> file_kind) \<Rightarrow> string \<Rightarrow> string option \<Rightarrow> sys
   \<Rightarrow> (string_list \<times> sys) res" where
  "list_files dirs kind dir_pathname file_extension s =
     (case file_extension of
        None \<Rightarrow> chk (log_error ''Invalid file extension'' [] s) (\<lambda>s. Inr (None, s))
      | Some ext \<Rightarrow>
          (case dirs dir_pathname of
             DirError error \<Rightarrow>
               chk (log_error (''Failed to open directory '' @ quoted ''%s'' @ '': %s'')
                      [AStr dir_pathname, AStr error] s) (\<lambda>s.
               Inr (None, s))
           | DirEntries names \<Rightarrow>
               let (file_list, s) = init_string_list (int MAX_NUM_FILES) s in
               (case file_list of
                  None \<Rightarrow>
                    chk (log_error ''Failed to allocate memory for listing files'' [] s) (\<lambda>s.
                    Inr (None, s))
                | Some file_list \<Rightarrow>
                    chk (strcpy (fresh PATH_MAX) 0 dir_pathname) (\<lambda>filename.
                    if dir_pathname = [] then Inl OutOfBounds
                    else
                      chk (if last dir_pathname \<noteq> CHR ''/'' then strcat filename ''/''
                           else Inr filename) (\<lambda>filename.
                      chk (strlen filename 0) (\<lambda>dir_length.
                      chk (list_loop kind ext dir_length names filename 0 file_list s) (\<lambda>(found, s).
                      case found of
                        None \<Rightarrow> Inr (None, s)
                      | Some (file_list, i) \<Rightarrow>
                          if i < MAX_NUM_FILES then
                            chk (put_file file_list i None) (\<lambda>file_list. Inr (Some file_list, s))
                          else
                            chk (log_warning (''Maximum number of files exceeded on '' @ quoted ''%s''
                                   @ '': %d'') [AStr dir_pathname, AInt (int MAX_NUM_FILES)] s) (\<lambda>s.
                            Inr (Some file_list, s)))))))))"

section \<open>The specification\<close>

definition dir_prefix :: "string \<Rightarrow> string" where
  "dir_prefix dir = (if last dir \<noteq> CHR ''/'' then dir @ ''/'' else dir)"

definition wanted :: "(string \<Rightarrow> file_kind) \<Rightarrow> string \<Rightarrow> string \<Rightarrow> string list \<Rightarrow> string list" where
  "wanted kind ext dir names =
     filter (\<lambda>path. kind path = RegularFile)
       (map (\<lambda>name. dir_prefix dir @ name) (filter (\<lambda>name. suffix ext name \<and> name \<noteq> ext) names))"

text \<open>A name whose path fits the array, and whose failure to open fits the log.\<close>

definition name_fits :: "(string \<Rightarrow> file_kind) \<Rightarrow> string \<Rightarrow> string \<Rightarrow> bool" where
  "name_fits kind dir name \<longleftrightarrow>
     NUL \<notin> set name \<and> length (dir_prefix dir @ name) < PATH_MAX
     \<and> (\<forall>e. kind (dir_prefix dir @ name) = OpenFailed e \<longrightarrow>
          log_fits (''Failed to open file '' @ quoted ''%s'' @ '': %s'')
            [AStr (dir_prefix dir @ name), AStr e])"

section \<open>Lemmas\<close>

lemma has_extension_iff: "has_extension ext name \<longleftrightarrow> suffix ext name \<and> name \<noteq> ext"
proof
  assume "has_extension ext name"
  then show "suffix ext name \<and> name \<noteq> ext"
    unfolding has_extension_def by (metis less_irrefl suffix_drop)
next
  assume "suffix ext name \<and> name \<noteq> ext"
  then show "has_extension ext name"
    by (auto simp: has_extension_def suffix_def)
qed

lemma wanted_eq:
  "wanted kind ext dir names =
     filter (\<lambda>path. kind path = RegularFile)
       (map (\<lambda>name. dir_prefix dir @ name) (filter (has_extension ext) names))"
  by (simp add: wanted_def has_extension_iff [abs_def])

lemma strcpy_at_end:
  assumes "str_at b 0 = Inr (s @ u)" and "NUL \<notin> set t" and "length s + length t < length b"
  shows "\<exists>b'. strcpy b (length s) t = Inr b' \<and> str_at b' 0 = Inr (s @ t) \<and> length b' = length b"
proof -
  obtain r where b: "b = cells (s @ u) @ Some NUL # r" and nul: "NUL \<notin> set (s @ u)"
    using assms(1) by (auto simp: str_at_def cstr_eq_Inr_iff)
  have start: "take (length s) b = cells s" by (simp add: b)
  have copy: "strcpy b (length s) t
      = Inr (cells s @ (cells t @ [Some NUL]) @ drop (length s + length (cells t @ [Some NUL])) b)"
    using assms(3) start by (simp add: strcpy_def store_def)
  have "NUL \<notin> set (s @ t)" using nul assms(2) by simp
  then show ?thesis
    using copy assms(3) str_at_0 [of "s @ t" "drop (length s + length (cells t @ [Some NUL])) b"]
    by simp
qed

text \<open>A round of the loop on an entry with the extension, for a regular file and for another node.\<close>

lemma list_loop_regular:
  assumes name: "has_extension ext name" "NUL \<notin> set name"
      "length (dir_prefix dir) + length name < length filename"
    and buf: "length filename = PATH_MAX" "str_at filename 0 = Inr (dir_prefix dir @ u)"
    and s: "plenty s" and room: "length ss < MAX_NUM_FILES"
    and kind: "kind (dir_prefix dir @ name) = RegularFile"
  obtains f1 where "str_at f1 0 = Inr (dir_prefix dir @ name)" and "length f1 = PATH_MAX"
    and "list_loop kind ext (length (dir_prefix dir)) (name # names) filename (length ss)
        (map Some ss @ replicate (MAX_NUM_FILES - length ss) None) s
      = list_loop kind ext (length (dir_prefix dir)) names f1 (length (ss @ [dir_prefix dir @ name]))
        (map Some (ss @ [dir_prefix dir @ name])
          @ replicate (MAX_NUM_FILES - length (ss @ [dir_prefix dir @ name])) None)
        (s\<lparr>live := live s + 1\<rparr>)"
proof -
  let ?path = "dir_prefix dir @ name" let ?n = "MAX_NUM_FILES"
  obtain f1 where f1: "strcpy filename (length (dir_prefix dir)) name = Inr f1"
      "str_at f1 0 = Inr ?path" "length f1 = PATH_MAX"
    using strcpy_at_end [OF buf(2) name(2,3)] buf(1) by metis
  have "?n - length ss = Suc (?n - Suc (length ss))" using room by simp
  then have "(map Some ss @ replicate (?n - length ss) None)[length ss := Some ?path]
      = map Some (ss @ [?path]) @ replicate (?n - length (ss @ [?path])) None"
    by (simp add: list_update_append)
  then show thesis
    using that [OF f1(2,3)] room name(1) f1(1,2) kind s
    by (simp add: is_file_def dup_string_def put_file_def)
qed

lemma list_loop_other:
  assumes name: "name_fits kind dir name" "length ss < MAX_NUM_FILES \<and> has_extension ext name"
    and buf: "length filename = PATH_MAX" "str_at filename 0 = Inr (dir_prefix dir @ u)"
    and kind: "kind (dir_prefix dir @ name) \<noteq> RegularFile"
  obtains f1 s1 where "str_at f1 0 = Inr (dir_prefix dir @ name)" and "length f1 = PATH_MAX"
    and "same_heap s s1"
    and "list_loop kind ext (length (dir_prefix dir)) (name # names) filename (length ss)
        (map Some ss @ replicate (MAX_NUM_FILES - length ss) None) s
      = list_loop kind ext (length (dir_prefix dir)) names f1 (length ss)
        (map Some ss @ replicate (MAX_NUM_FILES - length ss) None) s1"
proof -
  let ?path = "dir_prefix dir @ name"
  have "NUL \<notin> set name" "length (dir_prefix dir) + length name < length filename"
    using name(1) buf(1) by (simp_all add: name_fits_def)
  then obtain f1 where f1: "strcpy filename (length (dir_prefix dir)) name = Inr f1"
      "str_at f1 0 = Inr ?path" "length f1 = PATH_MAX"
    using strcpy_at_end [OF buf(2)] buf(1) by metis
  obtain s1 where "is_file kind ?path s = Inr (False, s1)" "same_heap s s1"
    using kind name(1)
    by (cases "kind ?path") (auto simp: is_file_def name_fits_def log_notice_def log_write_fits)
  then show thesis using that [OF f1(2,3)] f1(1,2) name(2) by simp
qed

lemma list_loop_lists:
  assumes "\<forall>name \<in> set names. name_fits kind dir name" and "plenty s"
    and "length filename = PATH_MAX" and "str_at filename 0 = Inr (dir_prefix dir @ u)"
    and "length ss \<le> MAX_NUM_FILES"
  shows "\<exists>s'. list_loop kind ext (length (dir_prefix dir)) names filename (length ss)
       (map Some ss @ replicate (MAX_NUM_FILES - length ss) None) s
     = Inr (let fs = take MAX_NUM_FILES (ss @ wanted kind ext dir names)
            in (Some (map Some fs @ replicate (MAX_NUM_FILES - length fs) None, length fs), s'))
     \<and> live s' = live s + int (length (take MAX_NUM_FILES (ss @ wanted kind ext dir names)))
         - int (length ss)
     \<and> plenty s' \<and> log_upto s' = log_upto s"
  using assms
proof (induction names arbitrary: filename u ss s)
  case Nil
  then show ?case by (simp add: wanted_eq)
next
  case (Cons name names)
  let ?path = "dir_prefix dir @ name" let ?n = "MAX_NUM_FILES"
  have names: "\<forall>name \<in> set names. name_fits kind dir name" using Cons.prems(1) by simp
  have fits: "name_fits kind dir name" using Cons.prems(1) by simp
  show ?case
  proof (cases "length ss < ?n \<and> has_extension ext name")
    case False
    show ?thesis
    proof (cases "length ss < ?n")
      case True
      then show ?thesis using False Cons.IH [OF names Cons.prems(2-5)] by (simp add: wanted_eq)
    next
      case full: False
      then show ?thesis using Cons.prems(2,5) by (simp add: Let_def)
    qed
  next
    case True
    have name: "has_extension ext name" "NUL \<notin> set name"
        "length (dir_prefix dir) + length name < length filename" and room: "length ss < ?n"
      using True fits Cons.prems(3) by (simp_all add: name_fits_def)
    show ?thesis
    proof (cases "kind ?path = RegularFile")
      case regular: True
      obtain f1 where f1: "str_at f1 0 = Inr ?path" "length f1 = PATH_MAX"
        and step: "list_loop kind ext (length (dir_prefix dir)) (name # names) filename (length ss)
            (map Some ss @ replicate (?n - length ss) None) s
          = list_loop kind ext (length (dir_prefix dir)) names f1 (length (ss @ [?path]))
            (map Some (ss @ [?path]) @ replicate (?n - length (ss @ [?path])) None)
            (s\<lparr>live := live s + 1\<rparr>)"
        using list_loop_regular [where kind = kind, OF name Cons.prems(3,4,2) room regular] by blast
      have "plenty (s\<lparr>live := live s + 1\<rparr>)" "length (ss @ [?path]) \<le> ?n"
        using Cons.prems(2) room by simp_all
      from Cons.IH [OF names this(1) f1(2,1) this(2)] show ?thesis
        unfolding step using name(1) regular by (auto simp: wanted_eq Let_def)
    next
      case False
      obtain f1 s1 where f1: "str_at f1 0 = Inr ?path" "length f1 = PATH_MAX" and s1: "same_heap s s1"
        and step: "list_loop kind ext (length (dir_prefix dir)) (name # names) filename (length ss)
            (map Some ss @ replicate (?n - length ss) None) s
          = list_loop kind ext (length (dir_prefix dir)) names f1 (length ss)
            (map Some ss @ replicate (?n - length ss) None) s1"
        using list_loop_other [OF fits True Cons.prems(3,4) False] by blast
      have "plenty s1" using s1 Cons.prems(2) by (simp add: same_heap_plenty)
      from Cons.IH [OF names this f1(2,1) Cons.prems(5)] show ?thesis
        unfolding step using False s1 by (auto simp: wanted_eq same_heap_def)
    qed
  qed
qed

lemma list_files_runs:
  assumes "dirs dir = DirEntries names" and "dir \<noteq> []" and "NUL \<notin> set dir"
    and "length dir + 1 < PATH_MAX" and "\<forall>name \<in> set names. name_fits kind dir name" and "plenty s"
    and "log_fits (''Maximum number of files exceeded on '' @ quoted ''%s'' @ '': %d'')
           [AStr dir, AInt (int MAX_NUM_FILES)]"
  shows "\<exists>s'. list_files dirs kind dir (Some ext) s
       = Inr (Some (map Some (take MAX_NUM_FILES (wanted kind ext dir names))
           @ replicate (MAX_NUM_FILES - length (take MAX_NUM_FILES (wanted kind ext dir names))) None), s')
     \<and> live s' = live s + 1 + int (length (take MAX_NUM_FILES (wanted kind ext dir names))) \<and> plenty s'"
proof -
  let ?n = MAX_NUM_FILES and ?s = "s\<lparr>live := live s + 1\<rparr>"
  let ?fs = "take ?n (wanted kind ext dir names)"
  let ?list = "map Some ?fs @ replicate (?n - length ?fs) None"
  have init: "init_string_list (int ?n) s = (Some (replicate ?n None), ?s)"
    using assms(6) by (simp add: init_string_list_def MAX_NUM_FILES_def)
  obtain f1 where f1: "strcpy (fresh PATH_MAX) 0 dir = Inr f1" "str_at f1 0 = Inr dir"
      "length f1 = PATH_MAX"
    using strcpy_fits [OF assms(3), of "fresh PATH_MAX"] assms(4) by auto
  obtain f2 where f2: "(if last dir \<noteq> CHR ''/'' then strcat f1 ''/'' else Inr f1) = Inr f2"
      "str_at f2 0 = Inr (dir_prefix dir)" "length f2 = PATH_MAX"
  proof (cases "last dir = CHR ''/''")
    case True
    then show ?thesis using f1 that by (simp add: dir_prefix_def)
  next
    case False
    have "NUL \<notin> set ''/''" "length dir + length ''/'' < length f1" using f1(3) assms(4) by simp_all
    from strcat_at [OF f1(2) this] show ?thesis using f1(3) False that by (auto simp: dir_prefix_def)
  qed
  have at: "str_at f2 0 = Inr (dir_prefix dir @ [])" using f2(2) by simp
  have "plenty ?s" using assms(6) by simp
  then obtain s' where loop: "list_loop kind ext (length (dir_prefix dir)) names f2 0
        (replicate ?n None) ?s = Inr (Some (?list, length ?fs), s')"
    and s': "live s' = live s + 1 + int (length ?fs)" "plenty s'"
    using list_loop_lists [OF assms(5) _ f2(3) at, of ?s "[]" ext] by (auto simp: Let_def)
  have files: "list_files dirs kind dir (Some ext) s
      = (if length ?fs < ?n then chk (put_file ?list (length ?fs) None) (\<lambda>l. Inr (Some l, s'))
         else chk (log_warning (''Maximum number of files exceeded on '' @ quoted ''%s'' @ '': %d'')
                     [AStr dir, AInt (int ?n)] s') (\<lambda>s. Inr (Some ?list, s)))"
    using assms(1,2) init f1(1) f2(1,2) loop by (simp add: list_files_def strlen_def)
  have "?list[length ?fs := None] = ?list" if "length ?fs < ?n"
    using that by (cases "?n - length ?fs") (simp_all add: list_update_append)
  then have "\<exists>s''. list_files dirs kind dir (Some ext) s = Inr (Some ?list, s'') \<and> live s'' = live s' \<and> plenty s''"
    unfolding files log_warning_def log_write_fits [OF assms(7)]
    using s'(2) by (auto simp: put_file_def)
  then show ?thesis using s'(1) by auto
qed

section \<open>Properties\<close>

text \<open>
  C22: In a readable directory \<open>list_files\<close> returns the paths of the first 32 regular files with the
  extension, in directory order, in a list of 32 places; with 32 files or more no null pointer is
  left to end the list.
\<close>

theorem list_files_lists:
  assumes "dirs dir = DirEntries names" and "dir \<noteq> []" and "NUL \<notin> set dir"
    and "length dir + 1 < PATH_MAX" and "\<forall>name \<in> set names. name_fits kind dir name" and "plenty s"
    and "log_fits (''Maximum number of files exceeded on '' @ quoted ''%s'' @ '': %d'')
           [AStr dir, AInt (int MAX_NUM_FILES)]"
  shows "\<exists>list s'. list_files dirs kind dir (Some ext) s = Inr (Some list, s')
     \<and> list = map Some (take MAX_NUM_FILES (wanted kind ext dir names))
               @ replicate (MAX_NUM_FILES - length (wanted kind ext dir names)) None
     \<and> live s' = live s + 1 + int (length (take MAX_NUM_FILES (wanted kind ext dir names)))
     \<and> (None \<in> set list \<longleftrightarrow> length (wanted kind ext dir names) < MAX_NUM_FILES)"
proof -
  from list_files_runs [where dirs = dirs and kind = kind and ext = ext, OF assms] obtain s' where
    "list_files dirs kind dir (Some ext) s
       = Inr (Some (map Some (take MAX_NUM_FILES (wanted kind ext dir names))
           @ replicate (MAX_NUM_FILES - length (take MAX_NUM_FILES (wanted kind ext dir names))) None), s')"
    "live s' = live s + 1 + int (length (take MAX_NUM_FILES (wanted kind ext dir names)))"
    by blast
  then show ?thesis by (auto simp: min_def)
qed

theorem list_files_lists_witness:
  "\<exists>list s'. list_files (\<lambda>_. DirEntries [''a.conf'', ''b.txt'', ''c.conf''])
       (\<lambda>f. if f = ''/d/c.conf'' then OtherFile else RegularFile) ''/d'' (Some ''.conf'') sample_sys
       = Inr (Some list, s')
     \<and> list = Some ''/d/a.conf'' # replicate 31 None \<and> live s' = 2"
proof -
  let ?dirs = "\<lambda>_ :: string. DirEntries [''a.conf'', ''b.txt'', ''c.conf'']"
  let ?kind = "\<lambda>f. if f = ''/d/c.conf'' then OtherFile else RegularFile"
  let ?names = "[''a.conf'', ''b.txt'', ''c.conf'']"
  have names: "\<forall>name \<in> set ?names. name_fits ?kind ''/d'' name"
    by (simp add: name_fits_def dir_prefix_def PATH_MAX_def)
  have d: "?dirs ''/d'' = DirEntries ?names" "''/d'' \<noteq> []" "NUL \<notin> set ''/d''"
      "length ''/d'' + 1 < PATH_MAX"
    by (simp_all add: PATH_MAX_def)
  have fits: "log_fits (''Maximum number of files exceeded on '' @ quoted ''%s'' @ '': %d'')
      [AStr ''/d'', AInt (int MAX_NUM_FILES)]"
    by (simp add: log_fits_def convert_def show_int_def show_nat.simps digit_char_def
        QUERAL_LOG_BUFFER_SIZE_def MAX_NUM_FILES_def)
  have w: "wanted ?kind ''.conf'' ''/d'' ?names = [''/d/a.conf'']"
    by (simp add: wanted_eq has_extension_def dir_prefix_def)
  have l: "live sample_sys = 0" by (simp add: sample_sys_def)
  show ?thesis
    using list_files_lists [where dirs = ?dirs and kind = ?kind and ext = "''.conf''",
        OF d names plenty_sample fits] unfolding w l
    by (auto simp: MAX_NUM_FILES_def)
qed

end
