(* ===== verification/Worker.thy ===== *)
theory Worker
  imports Command Socket Action Curl_Client Memcached_Client Sleep_Utils
begin

text \<open>
  The worker threads of \<^verbatim>\<open>src/src/queral.c\<close>: \<open>worker_thread\<close> up to its loop (\<open>worker_start\<close>), one
  round of the loop (taking a job under the mutex, \<open>take_job\<close>; operating on it, \<open>operate\<close>) and its end
  (\<open>worker_end\<close>). The outcomes of libcurl, libmemcached, the kernel and \<^verbatim>\<open>rand()\<close> are collected in
  the record \<open>outside\<close>.
\<close>

section \<open>State\<close>

record outside =
  easy_handle :: bool
  mc_created :: bool
  mc_parsed :: "string \<Rightarrow> bool"
  mc_pushed :: "string \<Rightarrow> string option"
  perform :: perform_function
  mc_answer :: mc_peer
  mc_max_key :: nat
  fifo_fd :: int
  fifo_written :: "string \<Rightarrow> int"

text \<open>The settings \<^verbatim>\<open>main\<close> has stored in global variables before the workers start.\<close>

record globals =
  worker_contention :: int
  server_names :: string_list
  server_count :: int
  expiration :: int
  key_prefix :: cbuf
  actions :: "action_slot list option"
  fifo_name :: string

record worker_t =
  worker_id :: int
  curl :: curl_t
  memcached :: memcached_t

text \<open>The local arrays of \<open>worker_thread\<close>.\<close>

record worker_locals =
  job :: cbuf
  command :: cbuf
  cache_key :: cbuf
  new_command :: cbuf

text \<open>What a round changes outside the thread: the memcached records, the FIFO, and the process.\<close>

record world =
  requests :: "mc_request list"
  pipe :: string
  process :: sys

section \<open>Starting a worker\<close>

definition worker_close :: "worker_t \<Rightarrow> sys \<Rightarrow> (worker_t \<times> sys) res" where
  "worker_close w s =
     (let s = curl_destroy (curl w) s in
      chk (memcached_destroy (memcached w)) (\<lambda>m. Inr (w\<lparr>memcached := m\<rparr>, s)))"

text \<open>The flag of the result says whether the thread goes on.\<close>

fun connect_loop ::
  "outside \<Rightarrow> string option list \<Rightarrow> int \<Rightarrow> worker_t \<Rightarrow> sys \<Rightarrow> (bool \<times> worker_t \<times> sys) res" where
  "connect_loop out [] n w s = (if 0 < n then Inl OutOfBounds else Inr (True, w, s))"
| "connect_loop out (server # rest) n w s =
     (if 0 < n then
        (case server of
           None \<Rightarrow> connect_loop out rest (n - 1) w s
         | Some name \<Rightarrow>
             if name = [] then connect_loop out rest (n - 1) w s
             else
               chk (memcached_connect_list (mc_parsed out name) (mc_pushed out name) (memcached w) s)
                 (\<lambda>(code, m, s).
               let w = w\<lparr>memcached := m\<rparr> in
               if code = -1 then
                 chk (log_error ''Failed to connect memcached %s at worker %d''
                        [AStr name, AInt (worker_id w)] s) (\<lambda>s.
                 chk (worker_close w s) (\<lambda>(w, s). Inr (False, w, s)))
               else connect_loop out rest (n - 1) w s))
      else Inr (True, w, s))"

definition worker_start :: "outside \<Rightarrow> globals \<Rightarrow> worker_t \<Rightarrow> sys \<Rightarrow> (bool \<times> worker_t \<times> sys) res" where
  "worker_start out g w s =
     (let (code, c, s) = curl_init (easy_handle out) (curl w) s; w = w\<lparr>curl := c\<rparr> in
      if code = -1 then
        chk (log_error ''Failed to create cURL at worker %d'' [AInt (worker_id w)] s) (\<lambda>s.
        Inr (False, w, s))
      else
        let w = w\<lparr>memcached := (memcached w)\<lparr>memc := memcached_init (mc_created out)\<rparr>\<rparr> in
        case server_names g of
          Some server_list \<Rightarrow>
            if 0 < server_count g then connect_loop out server_list (server_count g) w s
            else
              chk (log_error ''Failed to get memcached server list at worker %d''
                     [AInt (worker_id w)] s) (\<lambda>s.
              chk (worker_close w s) (\<lambda>(w, s). Inr (False, w, s)))
        | None \<Rightarrow>
            chk (log_error ''Failed to get memcached server list at worker %d''
                   [AInt (worker_id w)] s) (\<lambda>s.
            chk (worker_close w s) (\<lambda>(w, s). Inr (False, w, s))))"

definition worker_locals_init :: "outside \<Rightarrow> worker_locals" where
  "worker_locals_init out =
     \<lparr>job = fresh BUFFER_SIZE, command = fresh BUFFER_SIZE, cache_key = fresh (mc_max_key out - 1),
      new_command = fresh BUFFER_SIZE\<rparr>"

section \<open>Taking a job\<close>

text \<open>The critical section a worker enters when it is woken up with \<open>url_count\<close> at least 1. The
  flag says whether the thread leaves its loop.\<close>

definition take_job :: "shared \<Rightarrow> cbuf \<Rightarrow> (bool \<times> shared \<times> cbuf) res" where
  "take_job sh j =
     (if \<not> should_run sh then Inr (True, sh\<lparr>url_count := url_count sh - 1\<rparr>, j)
      else
        chk (fifo_dequeue (queue sh) j) (\<lambda>(q, j).
        Inr (False, sh\<lparr>queue := q, url_count := url_count sh - 1\<rparr>, j)))"

section \<open>Operating on a job\<close>

definition fetch_job ::
  "outside \<Rightarrow> worker_t \<Rightarrow> worker_locals \<Rightarrow> world \<Rightarrow> (worker_t \<times> worker_locals \<times> world) res" where
  "fetch_job out w loc wd =
     (let c = (curl w)\<lparr>buffer := (buffer (curl w))\<lparr>enabled := False\<rparr>\<rparr> in
      chk (str_at (job loc) 0) (\<lambda>url.
      chk (curl_fetch_url (perform out) c url (process wd)) (\<lambda>(code, c, s).
      Inr (w\<lparr>curl := c\<rparr>, loc, wd\<lparr>process := s\<rparr>))))"

definition cache_job ::
  "outside \<Rightarrow> globals \<Rightarrow> worker_t \<Rightarrow> worker_locals \<Rightarrow> world
   \<Rightarrow> (worker_t \<times> worker_locals \<times> world) res" where
  "cache_job out g w loc wd =
     chk (str_at (key_prefix g) 0) (\<lambda>kp.
     chk (str_at (job loc) 0) (\<lambda>url.
     chk (create_key (mc_max_key out) (Some (cache_key loc)) (mc_max_key out - 1) (Some kp) (Some url)
            (process wd)) (\<lambda>(code, k, s).
     let loc = loc\<lparr>cache_key := (case k of None \<Rightarrow> cache_key loc | Some b \<Rightarrow> b)\<rparr> in
     if code = -1 then Inr (w, loc, wd\<lparr>process := s\<rparr>)
     else
       chk (str_at (cache_key loc) 0) (\<lambda>key.
       chk (memcached_delete_record (mc_answer out) key False (requests wd) s) (\<lambda>(_, reqs, s).
       let c = (curl w)\<lparr>buffer := (buffer (curl w))\<lparr>enabled := True\<rparr>\<rparr> in
       chk (curl_fetch_url (perform out) c url s) (\<lambda>(code, c, s).
       if code \<noteq> -1 then
         chk (memcached_override_record (mc_answer out) key (memory (buffer c)) (expiration g) reqs s)
           (\<lambda>(_, reqs, s).
         Inr (w\<lparr>curl := c\<rparr>, loc, wd\<lparr>requests := reqs, process := s\<rparr>))
       else Inr (w\<lparr>curl := c\<rparr>, loc, wd\<lparr>requests := reqs, process := s\<rparr>)))))))"

text \<open>The loop over the pages of an action. \<open>length1\<close> is the length of the command and its blank.\<close>

fun update_loop ::
  "outside \<Rightarrow> globals \<Rightarrow> nat \<Rightarrow> string option list \<Rightarrow> int \<Rightarrow> cbuf \<Rightarrow> string \<Rightarrow> sys
   \<Rightarrow> (cbuf \<times> string \<times> sys) res" where
  "update_loop out g length1 [] n b p s = (if 0 < n then Inl OutOfBounds else Inr (b, p, s))"
| "update_loop out g length1 (page # rest) n b p s =
     (if 0 < n then
        (case page of
           None \<Rightarrow> Inr (b, p, s)
         | Some url \<Rightarrow>
             chk (put_char b length1 NUL) (\<lambda>b.
             let length2 = length url in
             if length1 + length2 + 1 \<le> BUFFER_SIZE then
               chk (strncat b url length2) (\<lambda>b.
               chk (strcat b [newline]) (\<lambda>b.
               chk (str_at b 0) (\<lambda>str.
               chk (write_fifo (fifo_fd out) (fifo_written out str) (fifo_name g) str p s)
                 (\<lambda>(code, p, s).
               update_loop out g length1 rest (n - 1) b p s))))
             else
               chk (log_error (''Maximum buffer length exceeded: '' @ quoted ''%d'')
                      [AInt (int BUFFER_SIZE)] s) (\<lambda>s.
               update_loop out g length1 rest (n - 1) b p s)))
      else Inr (b, p, s))"

definition update_job ::
  "outside \<Rightarrow> globals \<Rightarrow> worker_t \<Rightarrow> worker_locals \<Rightarrow> world
   \<Rightarrow> (worker_t \<times> worker_locals \<times> world) res" where
  "update_job out g w loc wd =
     chk (str_at (job loc) 0) (\<lambda>name.
     chk (find_action (actions g) name) (\<lambda>found.
     case found of
       None \<Rightarrow>
         chk (log_notice (''Failed to update a non-existent cache: '' @ quoted ''%s'') [AStr name]
                (process wd)) (\<lambda>s.
         Inr (w, loc, wd\<lparr>process := s\<rparr>))
     | Some a \<Rightarrow>
         chk (strcpy (new_command loc) 0 CACHE_COMMAND) (\<lambda>b.
         chk (strcat b '' '') (\<lambda>b.
         chk (strlen b 0) (\<lambda>length1.
         if 0 < action_count a \<and> refresh_list a = None then Inl NullPointer
         else
           chk (update_loop out g length1 (case refresh_list a of None \<Rightarrow> [] | Some l \<Rightarrow> l)
                  (action_count a) b (pipe wd) (process wd)) (\<lambda>(b, p, s).
           Inr (w, loc\<lparr>new_command := b\<rparr>, wd\<lparr>pipe := p, process := s\<rparr>)))))))"

definition operate ::
  "platform \<Rightarrow> outside \<Rightarrow> globals \<Rightarrow> worker_t \<Rightarrow> worker_locals \<Rightarrow> world
   \<Rightarrow> (worker_t \<times> worker_locals \<times> world) res" where
  "operate pl out g w loc wd =
     chk (get_command pl (command loc) (job loc)) (\<lambda>(op, c, j).
     let loc = loc\<lparr>command := c, job := j\<rparr> in
     case op of
       FETCH \<Rightarrow> fetch_job out w loc wd
     | CACHE \<Rightarrow> cache_job out g w loc wd
     | UPDATE \<Rightarrow> update_job out g w loc wd
     | UNDEFINED \<Rightarrow>
         chk (str_at (command loc) 0) (\<lambda>c.
         chk (log_notice ''Calling an undefined operation: %s'' [AStr c] (process wd)) (\<lambda>s.
         Inr (w, loc, wd\<lparr>process := s\<rparr>))))"

text \<open>One round of the loop behind the wait, for the outcome \<open>random\<close> of \<^verbatim>\<open>rand()\<close>; the flag says
  whether the thread leaves the loop.\<close>

definition worker_round ::
  "platform \<Rightarrow> outside \<Rightarrow> globals \<Rightarrow> int \<Rightarrow> shared \<Rightarrow> worker_t \<Rightarrow> worker_locals \<Rightarrow> world
   \<Rightarrow> (bool \<times> shared \<times> worker_t \<times> worker_locals \<times> world) res" where
  "worker_round pl out g random sh w loc wd =
     chk (take_job sh (job loc)) (\<lambda>(leave, sh, j).
     if leave then Inr (True, sh, w, loc, wd)
     else
       chk (operate pl out g w (loc\<lparr>job := j\<rparr>) wd) (\<lambda>(w, loc, wd).
       chk (sleep_millis random (worker_contention g)) (\<lambda>(millis_to_sleep, request).
       Inr (False, sh, w, loc, wd))))"

definition worker_end :: "worker_t \<Rightarrow> sys \<Rightarrow> (worker_t \<times> sys) res" where
  "worker_end w s = worker_close w s"

section \<open>Lemmas\<close>

lemma cstr_takeWhile: "cstr (cells d @ Some NUL # r) = Inr (takeWhile (\<lambda>c. c \<noteq> NUL) d)"
  by (induction d) auto

lemma received_string:
  "received mem d \<Longrightarrow> \<exists>b. memory mem = Some b \<and> str_at b 0 = Inr (takeWhile (\<lambda>c. c \<noteq> NUL) d)"
  by (auto simp: received_def str_at_def cstr_takeWhile)

text \<open>Arrays of the right size that hold a job.\<close>

definition locals_ok :: "outside \<Rightarrow> worker_locals \<Rightarrow> bool" where
  "locals_ok out loc \<longleftrightarrow> length (job loc) = BUFFER_SIZE \<and> length (command loc) = BUFFER_SIZE
     \<and> length (cache_key loc) = mc_max_key out - 1 \<and> length (new_command loc) = BUFFER_SIZE"

lemma locals_init_ok: "locals_ok out (worker_locals_init out)"
  by (simp add: locals_ok_def worker_locals_init_def)

text \<open>\<open>operate\<close> behind the parser: the operation, with the argument in \<open>job\<close>.\<close>

lemma operate_parsed:
  assumes "locals_ok out loc" and "str_at (job loc) 0 = Inr s" and "command_reads_ok pl BUFFER_SIZE s"
    and "parse_job s = (op, u)" and "op \<noteq> UNDEFINED"
  shows "\<exists>loc'. operate pl out g w loc wd
       = (case op of FETCH \<Rightarrow> fetch_job out w loc' wd | CACHE \<Rightarrow> cache_job out g w loc' wd
          | UPDATE \<Rightarrow> update_job out g w loc' wd | UNDEFINED \<Rightarrow> Inr (w, loc', wd))
     \<and> locals_ok out loc' \<and> str_at (job loc') 0 = Inr u"
proof -
  have "length s < length (command loc)"
    using assms(1) str_at_0_D [OF assms(2)] by (simp add: locals_ok_def)
  moreover have "command_reads_ok pl (length (job loc)) s"
    using assms(1,3) by (simp add: locals_ok_def)
  ultimately obtain c j where "get_command pl (command loc) (job loc) = Inr (op, c, j)"
      "str_at j 0 = Inr u" "length j = length (job loc)" "length c = length (command loc)"
    using get_command_total [OF assms(2), of "command loc" pl] assms(4) by auto
  then show ?thesis
    using assms(1,5)
    by (intro exI [of _ "loc\<lparr>command := c, job := j\<rparr>"])
      (cases op; simp add: operate_def locals_ok_def)
qed

text \<open>Messages about a key, and peers whose error texts fit them.\<close>

definition short_answers :: "outside \<Rightarrow> string \<Rightarrow> bool" where
  "short_answers out key \<longleftrightarrow> NUL \<notin> set key \<and> length key < 200
     \<and> (\<forall>reqs e. mc_answer out reqs = Some e \<longrightarrow> NUL \<notin> set e \<and> length key + length e < 200)"

lemma log_fits_cache:
  assumes "NUL \<notin> set key" and "length key < 200"
  shows "log_fits ''Cache: %s, updated'' [AStr key]" and "log_fits ''Cache: %s, deleted'' [AStr key]"
  using assms by (simp_all add: log_fits_def convert_def QUERAL_LOG_BUFFER_SIZE_def)

lemma log_fits_record:
  assumes "NUL \<notin> set key" and "NUL \<notin> set e" and "length key + length e < 200"
  shows "log_fits (''Failed to store record '' @ quoted ''%s'' @ '' on memcached: %s'') [AStr key, AStr e]"
    and "log_fits (''Failed to delete record '' @ quoted ''%s'' @ '' on memcached: %s'') [AStr key, AStr e]"
  using assms by (simp_all add: log_fits_def convert_def QUERAL_LOG_BUFFER_SIZE_def)

lemma delete_record_total:
  assumes "short_answers out key"
  shows "\<exists>code s'. memcached_delete_record (mc_answer out) key False reqs s
       = Inr (code, reqs @ [McDelete key], s')"
proof (cases "mc_answer out (reqs @ [McDelete key])")
  case None
  then show ?thesis
    using assms log_write_fits [OF log_fits_cache(2)]
    by (simp add: memcached_delete_record_def log_info_def short_answers_def Let_def)
next
  case (Some e)
  then have "NUL \<notin> set key" "NUL \<notin> set e" "length key + length e < 200"
    using assms by (auto simp: short_answers_def)
  from log_write_fits [OF log_fits_record(2) [OF this]] show ?thesis
    using Some by (simp add: memcached_delete_record_def log_info_def Let_def)
qed

lemma override_record_total:
  assumes "short_answers out key" and "str_at b 0 = Inr v"
  shows "\<exists>code s'. memcached_override_record (mc_answer out) key (Some b) t reqs s
       = Inr (code, reqs @ [McSet key v t], s')"
proof (cases "mc_answer out (reqs @ [McSet key v t])")
  case None
  then show ?thesis
    using assms log_write_fits [OF log_fits_cache(1)]
    by (simp add: memcached_override_record_def log_info_def short_answers_def Let_def)
next
  case (Some e)
  then have "NUL \<notin> set key" "NUL \<notin> set e" "length key + length e < 200"
    using assms by (auto simp: short_answers_def)
  from log_write_fits [OF log_fits_record(1) [OF this]] show ?thesis
    using Some assms(2) by (simp add: memcached_override_record_def log_warning_def Let_def)
qed

text \<open>The requests a cache job leads to.\<close>

definition cache_requests :: "string \<Rightarrow> string \<Rightarrow> int \<Rightarrow> mc_request list" where
  "cache_requests key document t =
     McDelete key # (if length document < BUFFER_MEMORY_SIZE
                     then [McSet key (takeWhile (\<lambda>c. c \<noteq> NUL) document) t] else [])"

lemma cache_job_requests:
  assumes loc: "locals_ok out loc" and url: "str_at (job loc) 0 = Inr u"
    and kp: "str_at (key_prefix g) 0 = Inr kp" and short: "length kp + length u + 1 < mc_max_key out"
    and answers: "short_answers out (kp @ u)"
    and curl: "curl_ready (curl w)" and deliver: "delivers (perform out) e u blocks None"
    and blocks: "\<forall>b \<in> set blocks. length b < 2 ^ 32"
    and logs: "NUL \<notin> set e" "length u + length e < 200"
  shows "\<exists>w' loc' wd'. cache_job out g w loc wd = Inr (w', loc', wd')
     \<and> requests wd' = requests wd @ cache_requests (kp @ u) (concat blocks) (expiration g)
     \<and> pipe wd' = pipe wd \<and> curl_ready (curl w') \<and> locals_ok out loc'"
proof -
  have nul: "NUL \<notin> set kp" "NUL \<notin> set u" using str_at_0_D kp url by blast+
  have klen: "length (cache_key loc) = mc_max_key out - 1"
    using loc by (simp add: locals_ok_def)
  have room: "length kp + length u < mc_max_key out" "length kp + length u < mc_max_key out - 1"
    using short by simp_all
  obtain k where k: "create_key (mc_max_key out) (Some (cache_key loc)) (mc_max_key out - 1) (Some kp)
        (Some u) (process wd) = Inr (1, Some k, process wd)"
      "str_at k 0 = Inr (kp @ u)" "length k = length (cache_key loc)"
    using create_key_fits [OF nul klen room, of "process wd"] by blast
  obtain c1 s1 where del: "memcached_delete_record (mc_answer out) (kp @ u) False (requests wd)
      (process wd) = Inr (c1, requests wd @ [McDelete (kp @ u)], s1)"
    using delete_record_total [OF answers] by blast
  let ?c = "(curl w)\<lparr>buffer := (buffer (curl w))\<lparr>enabled := True\<rparr>\<rparr>"
  have c: "curl_ready ?c" "enabled (buffer ?c)" using curl by (simp_all add: curl_ready_def)
  show ?thesis
  proof (cases "length (concat blocks) < BUFFER_MEMORY_SIZE")
    case True
    have "length u < 200" using logs(2) by simp
    then obtain c' s2 where fetch: "curl_fetch_url (perform out) ?c u s1 = Inr (1, c', s2)"
        "received (buffer c') (concat blocks)"
      using fetch_downloads [OF c deliver blocks True nul(2)] by blast
    obtain b where b: "memory (buffer c') = Some b"
        "str_at b 0 = Inr (takeWhile (\<lambda>c. c \<noteq> NUL) (concat blocks))"
      using received_string [OF fetch(2)] by blast
    obtain c2 s3 where "memcached_override_record (mc_answer out) (kp @ u) (Some b) (expiration g)
          (requests wd @ [McDelete (kp @ u)]) s2
        = Inr (c2, (requests wd @ [McDelete (kp @ u)])
            @ [McSet (kp @ u) (takeWhile (\<lambda>c. c \<noteq> NUL) (concat blocks)) (expiration g)], s3)"
      using override_record_total [OF answers b(2)] by blast
    then show ?thesis
      using kp url k del fetch b(1) loc received_ready [OF fetch(2)] True
      by (simp add: cache_job_def cache_requests_def locals_ok_def Let_def)
  next
    case False
    then have big: "BUFFER_MEMORY_SIZE \<le> length (concat blocks)" by simp
    obtain c' s2 got where fetch: "curl_fetch_url (perform out) ?c u s1 = Inr (-1, c', s2)"
        "received (buffer c') got"
      using fetch_too_big [OF c deliver blocks big nul(2) logs] by blast
    then show ?thesis
      using kp url k del loc received_ready [OF fetch(2)] False
      by (simp add: cache_job_def cache_requests_def locals_ok_def Let_def)
  qed
qed

subsection \<open>Refreshing an action\<close>

lemma put_char_cut:
  assumes "str_at b 0 = Inr (pre @ x)"
  shows "\<exists>b'. put_char b (length pre) NUL = Inr b' \<and> str_at b' 0 = Inr pre \<and> length b' = length b"
proof -
  obtain r where b: "b = cells (pre @ x) @ Some NUL # r" and nul: "NUL \<notin> set (pre @ x)"
    using assms by (rule str_at_0_E)
  obtain y r' where "cells x @ Some NUL # r = y # r'" by (cases x) auto
  then have "b = cells pre @ y # r'" by (simp add: b)
  then show ?thesis
    using nul put_char_layout [of "cells pre" "length pre" y r' NUL] by auto
qed

definition fifo_takes_all :: "outside \<Rightarrow> bool" where
  "fifo_takes_all out \<longleftrightarrow> 0 \<le> fifo_fd out \<and> (\<forall>str. fifo_written out str = int (length str))"

lemma write_fifo_ok:
  "fifo_takes_all out
   \<Longrightarrow> write_fifo (fifo_fd out) (fifo_written out str) name str p s = Inr (0, p @ str, s)"
  by (simp add: write_fifo_def fifo_takes_all_def)

lemma update_loop_writes:
  assumes "fifo_takes_all out" and "str_at b 0 = Inr (pre @ x)" and "length b = BUFFER_SIZE"
    and "\<forall>u \<in> set us. NUL \<notin> set u \<and> length pre + length u + 1 < BUFFER_SIZE"
  shows "\<exists>b' x'. update_loop out g (length pre) (map Some us @ rest) (int (length us) + int k) b p s
       = update_loop out g (length pre) rest (int k) b'
           (p @ concat (map (\<lambda>u. pre @ u @ [newline]) us)) s
     \<and> str_at b' 0 = Inr (pre @ x') \<and> length b' = BUFFER_SIZE"
  using assms(2-)
proof (induction us arbitrary: b x p)
  case Nil
  then show ?case by auto
next
  case (Cons u us)
  obtain b1 where b1: "put_char b (length pre) NUL = Inr b1" "str_at b1 0 = Inr pre"
      "length b1 = BUFFER_SIZE"
    using put_char_cut [OF Cons.prems(1)] Cons.prems(2) by auto
  have u: "NUL \<notin> set u" "length pre + length u + 1 < BUFFER_SIZE" using Cons.prems(3) by auto
  obtain b2 where b2: "strncat b1 u (length u) = Inr b2" "str_at b2 0 = Inr (pre @ u)"
      "length b2 = BUFFER_SIZE"
    using strcat_at [OF b1(2) u(1)] u(2) b1(3) by (auto simp: strncat_def)
  obtain b3 where b3: "strcat b2 [newline] = Inr b3" "str_at b3 0 = Inr (pre @ u @ [newline])"
      "length b3 = BUFFER_SIZE"
    using strcat_at [OF b2(2), of "[newline]"] u(2) b2(3) by auto
  have us: "\<forall>v \<in> set us. NUL \<notin> set v \<and> length pre + length v + 1 < BUFFER_SIZE"
    using Cons.prems(3) by simp
  obtain b' x' where "update_loop out g (length pre) (map Some us @ rest) (int (length us) + int k) b3
        (p @ pre @ u @ [newline]) s
      = update_loop out g (length pre) rest (int k) b'
          ((p @ pre @ u @ [newline]) @ concat (map (\<lambda>u. pre @ u @ [newline]) us)) s"
      "str_at b' 0 = Inr (pre @ x')" "length b' = BUFFER_SIZE"
    using Cons.IH [OF b3(2,3) us] by blast
  then show ?case
    using b1(1) b2(1) b3(1,2) u(2)
    by (intro exI [of _ b'] exI [of _ x']) (simp add: write_fifo_ok [OF assms(1)])
qed

lemma update_loop_done: "update_loop out g l pages 0 b p s = Inr (b, p, s)"
  by (cases pages) simp_all

text \<open>The guard lets pages through for which the newline has no room left.\<close>

lemma update_loop_overflow:
  assumes "str_at b 0 = Inr (pre @ x)" and "length b = BUFFER_SIZE" and "NUL \<notin> set u"
    and "length pre + length u + 1 = BUFFER_SIZE" and "0 < k"
  shows "update_loop out g (length pre) (Some u # rest) k b p s = Inl OutOfBounds"
proof -
  obtain b1 where b1: "put_char b (length pre) NUL = Inr b1" "str_at b1 0 = Inr pre"
      "length b1 = BUFFER_SIZE"
    using put_char_cut [OF assms(1)] assms(2) by auto
  obtain b2 where b2: "strncat b1 u (length u) = Inr b2" "str_at b2 0 = Inr (pre @ u)"
      "length b2 = BUFFER_SIZE"
    using strcat_at [OF b1(2) assms(3)] assms(4) b1(3) by (auto simp: strncat_def)
  have "strcat b2 [newline] = Inl OutOfBounds"
    by (rule strcat_at_overflow [OF b2(2)]) (use b2(3) assms(4) in simp)
  then show ?thesis using b1(1) b2(1) assms(4,5) by simp
qed

definition cache_command :: "string \<Rightarrow> string" where
  "cache_command url = CACHE_COMMAND @ '' '' @ url"

lemma CACHE_COMMAND_chars: "NUL \<notin> set (CACHE_COMMAND @ '' '')" "length (CACHE_COMMAND @ '' '') = 6"
  by (simp_all add: CACHE_COMMAND_def)

lemma cache_prefix:
  assumes "length b = BUFFER_SIZE"
  obtains b1 b2 where "strcpy b 0 CACHE_COMMAND = Inr b1" and "strcat b1 '' '' = Inr b2"
    and "strlen b2 0 = Inr 6" and "str_at b2 0 = Inr (CACHE_COMMAND @ '' '')" and "length b2 = BUFFER_SIZE"
proof -
  obtain b1 where b1: "strcpy b 0 CACHE_COMMAND = Inr b1" "str_at b1 0 = Inr CACHE_COMMAND"
      "length b1 = BUFFER_SIZE"
    using strcpy_fits [of CACHE_COMMAND b] CACHE_COMMAND_chars assms by (auto simp: BUFFER_SIZE_def)
  obtain b2 where b2: "strcat b1 '' '' = Inr b2" "str_at b2 0 = Inr (CACHE_COMMAND @ '' '')"
      "length b2 = BUFFER_SIZE"
    using strcat_at [OF b1(2), of "'' ''"] b1(3) CACHE_COMMAND_chars by (auto simp: BUFFER_SIZE_def)
  have "strlen b2 0 = Inr 6"
    unfolding strlen_def b2(2) chk_Inr CACHE_COMMAND_chars(2) ..
  then show ?thesis using that b1(1) b2 by blast
qed

lemma update_job_pages:
  assumes loc: "locals_ok out loc" and name: "str_at (job loc) 0 = Inr name"
    and found: "find_action (actions g) name = Inr (Some a)"
    and pages: "refresh_list a = Some (map Some us @ rest)" "action_count a = int (length us) + int k"
    and us: "\<forall>u \<in> set us. NUL \<notin> set u \<and> length u + 7 < BUFFER_SIZE"
    and fifo: "fifo_takes_all out"
  shows "\<exists>b x. update_job out g w loc wd
       = chk (update_loop out g 6 rest (int k) b
                (pipe wd @ concat (map (\<lambda>u. cache_command u @ [newline]) us)) (process wd)) (\<lambda>(b, p, s).
         Inr (w, loc\<lparr>new_command := b\<rparr>, wd\<lparr>pipe := p, process := s\<rparr>))
     \<and> str_at b 0 = Inr ((CACHE_COMMAND @ '' '') @ x) \<and> length b = BUFFER_SIZE"
proof -
  have "length (new_command loc) = BUFFER_SIZE" using loc by (simp add: locals_ok_def)
  from cache_prefix [OF this] obtain b1 b2 where b: "strcpy (new_command loc) 0 CACHE_COMMAND = Inr b1"
      "strcat b1 '' '' = Inr b2" "strlen b2 0 = Inr 6" "str_at b2 0 = Inr (CACHE_COMMAND @ '' '')"
      "length b2 = BUFFER_SIZE"
    by metis
  have "str_at b2 0 = Inr ((CACHE_COMMAND @ '' '') @ [])" using b(4) by simp
  moreover have "\<forall>u \<in> set us. NUL \<notin> set u \<and> 6 + length u + 1 < BUFFER_SIZE" using us by auto
  ultimately obtain b' x' where "update_loop out g 6 (map Some us @ rest) (int (length us) + int k) b2
        (pipe wd) (process wd)
      = update_loop out g 6 rest (int k) b'
          (pipe wd @ concat (map (\<lambda>u. cache_command u @ [newline]) us)) (process wd)"
      "str_at b' 0 = Inr ((CACHE_COMMAND @ '' '') @ x')" "length b' = BUFFER_SIZE"
    using update_loop_writes [OF fifo _ b(5), of "CACHE_COMMAND @ '' ''" "[]" us g rest k "pipe wd"
        "process wd"]
    unfolding CACHE_COMMAND_chars(2) by (auto simp: cache_command_def)
  then show ?thesis
    using name found pages b(1-3) by (auto simp: update_job_def)
qed

text \<open>What was written is read back as the same jobs.\<close>

lemma split_lines_jobs:
  "\<forall>l \<in> set ls. newline \<notin> set l \<Longrightarrow> split_lines (concat (map (\<lambda>l. l @ [newline]) ls)) = (ls, [])"
  by (induction ls) (simp_all add: split_lines_none split_lines_line)

subsection \<open>One round\<close>

text \<open>The shared state while jobs are waiting.\<close>

definition waiting :: "shared \<Rightarrow> string list \<Rightarrow> bool" where
  "waiting sh xs \<longleftrightarrow> should_run sh \<and> fifo_wf (queue sh) \<and> fifo_list (queue sh) = xs
     \<and> url_count sh = int (length xs)"

lemma take_job_head:
  assumes "waiting sh (x # xs)" and "length b = BUFFER_SIZE"
  shows "\<exists>sh' j. take_job sh b = Inr (False, sh', j) \<and> waiting sh' xs \<and> str_at j 0 = Inr x
     \<and> length j = BUFFER_SIZE"
  using fifo_dequeue_step [of "queue sh" x xs b] assms by (auto simp: take_job_def waiting_def)

lemma sleep_returns: "base \<noteq> -1 \<Longrightarrow> \<exists>x. sleep_millis random base = Inr x"
  by (simp add: sleep_millis_def Let_def)

text \<open>A round is the operation on the job that was at the head, then a pause.\<close>

lemma worker_round_head:
  assumes "waiting sh (x # xs)" and "locals_ok out loc" and "worker_contention g \<noteq> -1"
  shows "\<exists>sh' loc'. worker_round pl out g random sh w loc wd
       = chk (operate pl out g w loc' wd) (\<lambda>(w, loc, wd). Inr (False, sh', w, loc, wd))
     \<and> waiting sh' xs \<and> locals_ok out loc' \<and> str_at (job loc') 0 = Inr x
     \<and> command loc' = command loc"
proof -
  obtain sh' j where "take_job sh (job loc) = Inr (False, sh', j)" "waiting sh' xs"
      "str_at j 0 = Inr x" "length j = BUFFER_SIZE"
    using take_job_head [OF assms(1), of "job loc"] assms(2) by (auto simp: locals_ok_def)
  moreover obtain t where "sleep_millis random (worker_contention g) = Inr t"
    using sleep_returns [OF assms(3)] by blast
  ultimately show ?thesis
    using assms(2)
    by (intro exI [of _ sh'] exI [of _ "loc\<lparr>job := j\<rparr>"])
      (auto simp: worker_round_def locals_ok_def split_beta)
qed

text \<open>The same for a job that is parsed, behind the dispatch on its operation.\<close>

lemma worker_round_parsed:
  assumes "waiting sh (x # xs)" and "locals_ok out loc" and "worker_contention g \<noteq> -1"
    and "command_reads_ok pl BUFFER_SIZE x" and "parse_job x = (op, u)" and "op \<noteq> UNDEFINED"
  shows "\<exists>sh' loc'. worker_round pl out g random sh w loc wd
       = chk (case op of FETCH \<Rightarrow> fetch_job out w loc' wd | CACHE \<Rightarrow> cache_job out g w loc' wd
                | UPDATE \<Rightarrow> update_job out g w loc' wd | UNDEFINED \<Rightarrow> Inr (w, loc', wd))
           (\<lambda>(w, loc, wd). Inr (False, sh', w, loc, wd))
     \<and> waiting sh' xs \<and> locals_ok out loc' \<and> str_at (job loc') 0 = Inr u"
proof -
  obtain sh' loc1 where round: "worker_round pl out g random sh w loc wd
       = chk (operate pl out g w loc1 wd) (\<lambda>(w, loc, wd). Inr (False, sh', w, loc, wd))"
      "waiting sh' xs" "locals_ok out loc1" "str_at (job loc1) 0 = Inr x"
    using worker_round_head [OF assms(1-3)] by blast
  from operate_parsed [OF round(3,4) assms(4-6)] round(1,2) show ?thesis by metis
qed

text \<open>The pages that the loop of an \<^verbatim>\<open>UPDATE\<close> visits: as many as are counted, or those before a null pointer.\<close>

definition page_list :: "action \<Rightarrow> string list \<Rightarrow> bool" where
  "page_list a us \<longleftrightarrow> (\<exists>rest. refresh_list a = Some (map Some us @ rest)
     \<and> (action_count a = int (length us)
        \<or> int (length us) < action_count a \<and> (\<exists>xs. rest = None # xs)))"

lemma update_job_writes:
  assumes "locals_ok out loc" and "str_at (job loc) 0 = Inr name"
    and "find_action (actions g) name = Inr (Some a)" and "page_list a us"
    and "\<forall>u \<in> set us. NUL \<notin> set u \<and> length u + 7 < BUFFER_SIZE" and "fifo_takes_all out"
  shows "\<exists>b. update_job out g w loc wd = Inr (w, loc\<lparr>new_command := b\<rparr>,
       wd\<lparr>pipe := pipe wd @ concat (map (\<lambda>u. cache_command u @ [newline]) us)\<rparr>)
     \<and> length b = BUFFER_SIZE"
proof -
  obtain rest where rest: "refresh_list a = Some (map Some us @ rest)"
      "action_count a = int (length us) \<or> int (length us) < action_count a \<and> (\<exists>xs. rest = None # xs)"
    using assms(4) by (auto simp: page_list_def)
  define k where "k = nat (action_count a - int (length us))"
  have k: "action_count a = int (length us) + int k" using rest(2) by (auto simp: k_def)
  have "update_loop out g 6 rest (int k) b p s = Inr (b, p, s)" for b p s
    using rest(2) k by (auto simp: update_loop_done)
  then show ?thesis
    using update_job_pages [OF assms(1-3) rest(1) k assms(5,6), of w wd] by auto
qed

lemma worker_round_pages:
  assumes "waiting sh (x # xs)" and "locals_ok out loc" and "worker_contention g \<noteq> -1"
    and "command_reads_ok pl BUFFER_SIZE x" and "parse_job x = (UPDATE, name)"
    and "find_action (actions g) name = Inr (Some a)"
    and "page_list a us"
    and "\<forall>u \<in> set us. NUL \<notin> set u \<and> length u + 7 < BUFFER_SIZE" and "fifo_takes_all out"
  shows "\<exists>sh' loc'. worker_round pl out g random sh w loc wd = Inr (False, sh', w, loc',
       wd\<lparr>pipe := pipe wd @ concat (map (\<lambda>u. cache_command u @ [newline]) us)\<rparr>)
     \<and> waiting sh' xs \<and> locals_ok out loc'"
proof -
  obtain sh' loc1 where round: "worker_round pl out g random sh w loc wd
       = chk (update_job out g w loc1 wd) (\<lambda>(w, loc, wd). Inr (False, sh', w, loc, wd))"
      "waiting sh' xs" "locals_ok out loc1" "str_at (job loc1) 0 = Inr name"
    using worker_round_parsed [OF assms(1-5), of random w wd] by auto
  obtain b where "update_job out g w loc1 wd = Inr (w, loc1\<lparr>new_command := b\<rparr>,
        wd\<lparr>pipe := pipe wd @ concat (map (\<lambda>u. cache_command u @ [newline]) us)\<rparr>)" "length b = BUFFER_SIZE"
    using update_job_writes [OF round(3,4) assms(6-9)] by blast
  then show ?thesis using round(1-3) by (auto simp: locals_ok_def)
qed

lemma worker_round_stores:
  assumes "waiting sh (x # xs)" and "locals_ok out loc" and "worker_contention g \<noteq> -1"
    and "command_reads_ok pl BUFFER_SIZE x" and "parse_job x = (CACHE, u)"
    and "str_at (key_prefix g) 0 = Inr kp" and "length kp + length u + 1 < mc_max_key out"
    and "short_answers out (kp @ u)" and "curl_ready (curl w)"
    and "delivers (perform out) e u blocks None" and "\<forall>b \<in> set blocks. length b < 2 ^ 32"
    and "NUL \<notin> set e" and "length u + length e < 200"
  shows "\<exists>sh' w' loc' wd'. worker_round pl out g random sh w loc wd = Inr (False, sh', w', loc', wd')
     \<and> requests wd' = requests wd @ cache_requests (kp @ u) (concat blocks) (expiration g)
     \<and> pipe wd' = pipe wd \<and> waiting sh' xs \<and> curl_ready (curl w') \<and> locals_ok out loc'"
proof -
  obtain sh' loc1 where round: "worker_round pl out g random sh w loc wd
       = chk (cache_job out g w loc1 wd) (\<lambda>(w, loc, wd). Inr (False, sh', w, loc, wd))"
      "waiting sh' xs" "locals_ok out loc1" "str_at (job loc1) 0 = Inr u"
    using worker_round_parsed [OF assms(1-5), of random w wd] by auto
  from cache_job_requests [OF round(3,4) assms(6-13), of wd]
  obtain w' loc' wd' where "cache_job out g w loc1 wd = Inr (w', loc', wd')"
      "requests wd' = requests wd @ cache_requests (kp @ u) (concat blocks) (expiration g)"
      "pipe wd' = pipe wd" "curl_ready (curl w')" "locals_ok out loc'"
    by blast
  with round(1,2) show ?thesis
    by (intro exI [of _ sh'] exI [of _ w'] exI [of _ loc'] exI [of _ wd']) simp
qed

text \<open>The queue keeps its capacity.\<close>

lemma dequeue_capacity: "fifo_dequeue q b = Inr (q', b') \<Longrightarrow> capacity q' = capacity q"
  by (auto simp: fifo_dequeue_def chk_eq_Inr_iff split: if_splits)

lemma worker_round_capacity:
  "worker_round pl out g random sh w loc wd = Inr (left, sh', w', loc', wd') \<Longrightarrow>
   capacity (queue sh') = capacity (queue sh)"
  by (auto simp: worker_round_def take_job_def chk_eq_Inr_iff dest!: dequeue_capacity split: if_splits)

subsection \<open>What no round changes\<close>

lemma length_writes:
  "put_char b p c = Inr b' \<Longrightarrow> length b' = length b"
  "strcpy b p s = Inr b' \<Longrightarrow> length b' = length b"
  "strcat b s = Inr b' \<Longrightarrow> length b' = length b"
  "strncat b s n = Inr b' \<Longrightarrow> length b' = length b"
  "strncpy b p s n = Inr b' \<Longrightarrow> length b' = length b"
  "memmove_within pl b p q n = Inr b' \<Longrightarrow> length b' = length b"
  by (auto simp: cstring_defs chk_eq_Inr_iff dest: length_store)

lemma length_strim: "strim b p = Inr (b', q) \<Longrightarrow> length b' = length b"
  by (auto simp: strim_def chk_eq_Inr_iff Let_def split: if_splits dest: length_writes)

lemma length_trim_job: "trim_job pl b n = Inr b' \<Longrightarrow> length b' = length b"
  by (auto simp: trim_job_def chk_eq_Inr_iff dest!: length_strim length_writes)

lemma length_redefine_job: "redefine_job pl b n = Inr b' \<Longrightarrow> length b' = length b"
  by (auto simp: redefine_job_def chk_eq_Inr_iff dest!: length_trim_job length_writes)

lemma length_get_command:
  "get_command pl c b = Inr (op, c', b') \<Longrightarrow> length c' = length c \<and> length b' = length b"
  by (auto simp: get_command_def chk_eq_Inr_iff Let_def split: option.splits if_splits
      dest!: length_trim_job length_redefine_job length_writes)

lemma length_create_key:
  "create_key m (Some b) n p u s = Inr (code, k, s') \<Longrightarrow> \<exists>b'. k = Some b' \<and> length b' = length b"
  by (auto simp: create_key_def chk_eq_Inr_iff Let_def split: option.splits if_splits
      dest!: length_writes)

lemma delete_record_appends:
  "memcached_delete_record peer key w reqs s = Inr (code, reqs', s') \<Longrightarrow> prefix reqs reqs'"
  by (auto simp: memcached_delete_record_def Let_def chk_eq_Inr_iff split: option.splits if_splits)

lemma override_record_appends:
  "memcached_override_record peer key b e reqs s = Inr (code, reqs', s') \<Longrightarrow> prefix reqs reqs'"
  by (auto simp: memcached_override_record_def Let_def chk_eq_Inr_iff split: option.splits if_splits)

lemma write_fifo_appends:
  "write_fifo fd n name str p s = Inr (code, p', s') \<Longrightarrow> prefix p p'"
  by (auto simp: write_fifo_def Let_def chk_eq_Inr_iff split: if_splits)

lemma update_loop_appends:
  "update_loop out g n pages c b p s = Inr (b', p', s') \<Longrightarrow> length b' = length b \<and> prefix p p'"
proof (induction pages arbitrary: c b p s)
  case (Cons page rest)
  show ?case
  proof (cases "0 < c \<and> page \<noteq> None")
    case True
    then obtain url b1 where b1: "page = Some url" "put_char b n NUL = Inr b1"
      using Cons.prems by (auto simp: chk_eq_Inr_iff)
    show ?thesis
    proof (cases "n + length url + 1 \<le> BUFFER_SIZE")
      case fits: True
      then obtain b2 b3 str code p1 s1 where step: "strncat b1 url (length url) = Inr b2"
          "strcat b2 [newline] = Inr b3"
          "write_fifo (fifo_fd out) (fifo_written out str) (fifo_name g) str p s = Inr (code, p1, s1)"
          "update_loop out g n rest (c - 1) b3 p1 s1 = Inr (b', p', s')"
        using Cons.prems True b1 by (auto simp: chk_eq_Inr_iff)
      from Cons.IH [OF step(4)] write_fifo_appends [OF step(3)] length_writes(1) [OF b1(2)]
        length_writes(4) [OF step(1)] length_writes(3) [OF step(2)]
      show ?thesis by (auto intro: prefix_order.trans)
    next
      case False
      then obtain s1 where "update_loop out g n rest (c - 1) b1 p s1 = Inr (b', p', s')"
        using Cons.prems True b1 by (auto simp: chk_eq_Inr_iff)
      from Cons.IH [OF this] length_writes(1) [OF b1(2)] show ?thesis by simp
    qed
  next
    case False
    then show ?thesis using Cons.prems by (auto split: if_splits)
  qed
qed (auto split: if_splits)

text \<open>A worker keeps its id and its client, the arrays their sizes, and what it sends is appended.\<close>

definition only_appends ::
  "worker_t \<Rightarrow> worker_locals \<Rightarrow> world \<Rightarrow> worker_t \<Rightarrow> worker_locals \<Rightarrow> world \<Rightarrow> bool" where
  "only_appends w loc wd w' loc' wd' \<longleftrightarrow>
     worker_id w' = worker_id w \<and> memcached w' = memcached w
     \<and> length (job loc') = length (job loc) \<and> length (command loc') = length (command loc)
     \<and> length (cache_key loc') = length (cache_key loc)
     \<and> length (new_command loc') = length (new_command loc)
     \<and> prefix (requests wd) (requests wd') \<and> prefix (pipe wd) (pipe wd')"

lemma only_appends_log: "only_appends w loc wd w loc (wd\<lparr>process := s\<rparr>)"
  by (simp add: only_appends_def)

lemma fetch_job_appends:
  "fetch_job out w loc wd = Inr (w', loc', wd') \<Longrightarrow> only_appends w loc wd w' loc' wd'"
  by (auto simp: fetch_job_def only_appends_def Let_def chk_eq_Inr_iff)

lemma cache_job_appends:
  "cache_job out g w loc wd = Inr (w', loc', wd') \<Longrightarrow> only_appends w loc wd w' loc' wd'"
  by (fastforce simp: cache_job_def only_appends_def Let_def chk_eq_Inr_iff split: if_splits
      dest: length_create_key delete_record_appends override_record_appends prefix_order.trans)

lemma update_job_appends:
  "update_job out g w loc wd = Inr (w', loc', wd') \<Longrightarrow> only_appends w loc wd w' loc' wd'"
  by (fastforce simp: update_job_def only_appends_def Let_def chk_eq_Inr_iff
      split: if_splits option.splits dest: length_writes update_loop_appends)

lemma operate_appends:
  assumes "operate pl out g w loc wd = Inr (w', loc', wd')"
  shows "only_appends w loc wd w' loc' wd'"
proof -
  obtain op c j where parse: "get_command pl (command loc) (job loc) = Inr (op, c, j)"
    using assms by (auto simp: operate_def chk_eq_Inr_iff)
  note len = length_get_command [OF parse]
  have "only_appends w (loc\<lparr>command := c, job := j\<rparr>) wd w' loc' wd'"
    using assms
    by (cases op)
      (auto simp: operate_def parse chk_eq_Inr_iff
        intro: fetch_job_appends cache_job_appends update_job_appends only_appends_log)
  then show ?thesis using len by (simp add: only_appends_def)
qed

subsection \<open>The life of a worker\<close>

text \<open>The state of the client after its servers were connected.\<close>

definition connected :: "string option list \<Rightarrow> memcached_t \<Rightarrow> memcached_t" where
  "connected names m =
     (if \<exists>n. Some n \<in> set names \<and> n \<noteq> [] then m\<lparr>servers := Some False\<rparr> else m)"

lemma connect_loop_connects:
  assumes "\<forall>n. mc_parsed out n \<and> mc_pushed out n = None"
  shows "connect_loop out names (int (length names)) w s
       = Inr (True, w\<lparr>memcached := connected names (memcached w)\<rparr>, s)"
proof (induction names arbitrary: w)
  case Nil
  then show ?case by (simp add: connected_def)
next
  case (Cons name names)
  show ?case
  proof (cases "name = None \<or> name = Some []")
    case True
    then show ?thesis using Cons.IH by (auto simp: connected_def)
  next
    case False
    then obtain n where "name = Some n" "n \<noteq> []" by auto
    then show ?thesis
      using assms by (auto simp: Cons.IH memcached_connect_list_def connected_def)
  qed
qed

lemma worker_starts:
  assumes "plenty s" and "server_names g = Some names" and "server_count g = int (length names)"
    and "names \<noteq> []" and "\<forall>n. mc_parsed out n \<and> mc_pushed out n = None"
  shows "\<exists>w' s'. worker_start out g w s = Inr (True, w', s') \<and> curl_ready (curl w')
     \<and> worker_id w' = worker_id w
     \<and> memcached w' = connected names ((memcached w)\<lparr>memc := memcached_init (mc_created out)\<rparr>)
     \<and> live s' = live s + 1 \<and> plenty s'"
proof -
  obtain c s1 where c: "curl_init (easy_handle out) (curl w) s = (1, c, s1)"
    and ready: "curl_ready c" and live: "live s1 = live s + 1" "plenty s1"
    using assms(1) by (simp add: curl_init_def curl_ready_def Let_def)
  let ?w = "w\<lparr>curl := c, memcached := (memcached w)\<lparr>memc := memcached_init (mc_created out)\<rparr>\<rparr>"
  have start: "worker_start out g w s = connect_loop out names (int (length names)) ?w s1"
    using c assms(2-4) by (simp add: worker_start_def)
  show ?thesis
    unfolding start connect_loop_connects [OF assms(5)] using ready live by simp
qed

lemma connected_servers:
  "servers (connected names m)
     = (if \<exists>n. Some n \<in> set names \<and> n \<noteq> [] then Some False else servers m)"
  unfolding connected_def by (rule trans [OF if_distrib], rule if_cong) simp_all

lemma worker_end_frees:
  "curl_ready (curl w) \<Longrightarrow> servers (memcached w) \<noteq> None \<Longrightarrow>
   \<exists>w'. worker_end w s = Inr (w', free_block s)"
  by (auto simp: worker_end_def worker_close_def memcached_destroy_def curl_destroy_def curl_ready_def
      Let_def)

lemma worker_end_unset:
  "servers (memcached w) = None \<Longrightarrow> worker_end w s = Inl Uninitialised"
  by (simp add: worker_end_def worker_close_def memcached_destroy_def Let_def)

text \<open>Concrete states to evaluate on.\<close>

definition sample_waiting :: "string \<Rightarrow> shared" where
  "sample_waiting x =
     \<lparr>queue = \<lparr>q_buffer = [Some (cells x @ Some NUL # fresh (BUFFER_SIZE - length x - 1))], capacity = 1,
               occupied = 1, q_begin = 0, q_end = 0\<rparr>,
      url_count = 1, should_run = True\<rparr>"

lemma sample_waiting: "NUL \<notin> set x \<Longrightarrow> length x < BUFFER_SIZE \<Longrightarrow> waiting (sample_waiting x) [x]"
  by (simp add: sample_waiting_def waiting_def fifo_wf_def slots_ok_def ring_index_def fifo_list_def
      slot_string_def slot_def)

definition sample_outside :: outside where
  "sample_outside = \<lparr>easy_handle = True, mc_created = True, mc_parsed = (\<lambda>_. True),
     mc_pushed = (\<lambda>_. None), perform = sample_perform [''<html>'', ''</html>''],
     mc_answer = (\<lambda>_. None), mc_max_key = 251, fifo_fd = 3,
     fifo_written = (\<lambda>str. int (length str))\<rparr>"

definition sample_action :: "string list \<Rightarrow> action" where
  "sample_action us = \<lparr>action_name = cells ''home'' @ [Some NUL], refresh_list = Some (map Some us),
     action_count = int (length us)\<rparr>"

definition sample_globals :: "string list \<Rightarrow> globals" where
  "sample_globals us = \<lparr>worker_contention = 100, server_names = Some [Some ''localhost:11211''],
     server_count = 1, expiration = 7200, key_prefix = cells ''__memc_'' @ [Some NUL],
     actions = Some [Some (Some (sample_action us)), Some None], fifo_name = ''fifo''\<rparr>"

definition sample_worker :: worker_t where
  "sample_worker = \<lparr>worker_id = 0, curl = sample_curl False, memcached = \<lparr>memc = True, servers = Some False\<rparr>\<rparr>"

definition sample_world :: world where
  "sample_world = \<lparr>requests = [], pipe = [], process = sample_sys\<rparr>"

lemma sample_contention: "worker_contention (sample_globals us) \<noteq> -1"
  by (simp add: sample_globals_def)

lemma sample_find: "find_action (actions (sample_globals us)) ''home'' = Inr (Some (sample_action us))"
  by (simp add: sample_globals_def find_action_def sample_action_def str_at_def)

lemma sample_fifo: "fifo_takes_all sample_outside"
  by (simp add: sample_outside_def fifo_takes_all_def)

lemma sample_worker_ready: "curl_ready (curl sample_worker)"
  by (simp add: sample_worker_def sample_curl_ready)

lemma sample_answers:
  "delivers (perform sample_outside) ''write error'' url [''<html>'', ''</html>''] None"
  by (simp add: sample_outside_def sample_delivers)

section \<open>Properties\<close>

text \<open>
  C7: A round on a \<^verbatim>\<open>CACHE\<close> job takes it from the queue, deletes the page's record and, when the
  document was downloaded, stores it under the same key, up to its first NUL byte; a document that
  does not fit the download buffer leaves the record deleted. Nothing goes into the FIFO, and the
  worker is ready for its next round.
\<close>

theorem worker_round_cache:
  assumes "waiting sh (x # xs)" and "locals_ok out loc" and "worker_contention g \<noteq> -1"
    and "command_reads_ok pl BUFFER_SIZE x" and "parse_job x = (CACHE, u)"
    and "str_at (key_prefix g) 0 = Inr kp" and "length kp + length u + 1 < mc_max_key out"
    and "short_answers out (kp @ u)" and "curl_ready (curl w)"
    and "delivers (perform out) e u blocks None" and "\<forall>b \<in> set blocks. length b < 2 ^ 32"
    and "NUL \<notin> set e" and "length u + length e < 200"
  shows "\<exists>sh' w' loc' wd'. worker_round pl out g random sh w loc wd = Inr (False, sh', w', loc', wd')
     \<and> requests wd' = requests wd @ cache_requests (kp @ u) (concat blocks) (expiration g)
     \<and> pipe wd' = pipe wd \<and> waiting sh' xs \<and> curl_ready (curl w') \<and> locals_ok out loc'"
  using worker_round_stores [OF assms] .

theorem worker_round_cache_witness:
  "\<exists>sh' w' loc' wd'. worker_round iso_c sample_outside (sample_globals []) 5
       (sample_waiting ''CACHE http://a'') sample_worker (worker_locals_init sample_outside) sample_world
       = Inr (False, sh', w', loc', wd')
     \<and> requests wd' = [McDelete ''__memc_http://a'', McSet ''__memc_http://a'' ''<html></html>'' 7200]
     \<and> waiting sh' []"
proof -
  have wait: "waiting (sample_waiting ''CACHE http://a'') [''CACHE http://a'']"
    by (rule sample_waiting) (simp_all add: BUFFER_SIZE_def)
  have job: "command_reads_ok iso_c BUFFER_SIZE ''CACHE http://a''"
      "parse_job ''CACHE http://a'' = (CACHE, ''http://a'')"
    by code_simp+
  have key: "str_at (key_prefix (sample_globals [])) 0 = Inr ''__memc_''"
    by (simp add: sample_globals_def str_at_def)
  have room: "length ''__memc_'' + length ''http://a'' + 1 < mc_max_key sample_outside"
    by (simp add: sample_outside_def)
  have answers: "short_answers sample_outside (''__memc_'' @ ''http://a'')"
    by (simp add: short_answers_def sample_outside_def)
  have blocks: "\<forall>b \<in> set [''<html>'', ''</html>'']. length b < 2 ^ 32" by simp
  have e: "NUL \<notin> set ''write error''" "length ''http://a'' + length ''write error'' < 200"
    by code_simp+
  have r: "cache_requests (''__memc_'' @ ''http://a'') (concat [''<html>'', ''</html>'']) 7200
      = [McDelete ''__memc_http://a'', McSet ''__memc_http://a'' ''<html></html>'' 7200]"
    by (simp add: cache_requests_def BUFFER_MEMORY_SIZE_def)
  have g: "expiration (sample_globals []) = 7200" "requests sample_world = []"
    by (simp_all add: sample_globals_def sample_world_def)
  from worker_round_cache [OF wait locals_init_ok sample_contention job key room answers
      sample_worker_ready sample_answers blocks e, of 5 sample_world]
  show ?thesis unfolding g r by auto
qed

text \<open>
  A round on an \<^verbatim>\<open>UPDATE\<close> job writes one \<^verbatim>\<open>CACHE\<close> command for each page of the named action
  into the FIFO, in the order of the configuration, without touching memcached; cut into lines and
  parsed, what was written is the list of these jobs again.
\<close>

lemma worker_round_update:
  assumes "waiting sh (x # xs)" and "locals_ok out loc" and "worker_contention g \<noteq> -1"
    and "command_reads_ok pl BUFFER_SIZE x" and "parse_job x = (UPDATE, name)"
    and "find_action (actions g) name = Inr (Some a)"
    and "refresh_list a = Some (map Some us @ rest)" and "action_count a = int (length us)"
    and "\<forall>u \<in> set us. NUL \<notin> set u \<and> length u + 7 < BUFFER_SIZE \<and> newline \<notin> set u
           \<and> u \<noteq> [] \<and> \<not> isspace (hd u) \<and> \<not> isspace (last u)"
    and "fifo_takes_all out"
  shows "\<exists>sh' loc' wd' t. worker_round pl out g random sh w loc wd = Inr (False, sh', w, loc', wd')
     \<and> pipe wd' = pipe wd @ t \<and> split_lines t = (map cache_command us, [])
     \<and> map parse_job (map cache_command us) = map (Pair CACHE) us
     \<and> requests wd' = requests wd \<and> waiting sh' xs \<and> locals_ok out loc'"
proof -
  let ?t = "concat (map (\<lambda>u. cache_command u @ [newline]) us)"
  have "\<forall>u \<in> set us. NUL \<notin> set u \<and> length u + 7 < BUFFER_SIZE" using assms(9) by blast
  moreover have "page_list a us" using assms(7,8) by (auto simp: page_list_def)
  ultimately
  obtain sh' loc' where round: "worker_round pl out g random sh w loc wd
        = Inr (False, sh', w, loc', wd\<lparr>pipe := pipe wd @ ?t\<rparr>)" "waiting sh' xs" "locals_ok out loc'"
    using worker_round_pages [OF assms(1-6) _ _ assms(10), of us random w wd] by blast
  have "newline \<notin> set (cache_command u)" if "u \<in> set us" for u
    using that assms(9) by (simp add: cache_command_def CACHE_COMMAND_def)
  then have "split_lines ?t = (map cache_command us, [])"
    using split_lines_jobs [of "map cache_command us"] by (simp add: o_def)
  moreover have "parse_job (cache_command u) = (CACHE, u)" if "u \<in> set us" for u
    using that assms(9) parse_command [of CACHE_COMMAND "[]" "[]" "[]" u]
    by (simp add: cache_command_def operation_of_def CACHE_COMMAND_def FETCH_COMMAND_def)
  ultimately show ?thesis using round by auto
qed

text \<open>
  The guard of \<^verbatim>\<open>UPDATE\<close> forgets the newline: at a page of 248 bytes, the pages before it
  having been written, the worker writes past the end of \<^verbatim>\<open>new_command\<close>.
\<close>

lemma worker_round_update_overflow:
  assumes "waiting sh (x # xs)" and "locals_ok out loc" and "worker_contention g \<noteq> -1"
    and "command_reads_ok pl BUFFER_SIZE x" and "parse_job x = (UPDATE, name)"
    and "find_action (actions g) name = Inr (Some a)"
    and "refresh_list a = Some (map Some us @ Some v # rest)"
    and "int (length us) < action_count a"
    and "\<forall>u \<in> set us. NUL \<notin> set u \<and> length u + 7 < BUFFER_SIZE"
    and "NUL \<notin> set v" and "length v + 7 = BUFFER_SIZE" and "fifo_takes_all out"
  shows "worker_round pl out g random sh w loc wd = Inl OutOfBounds"
proof -
  obtain sh' loc1 where round: "worker_round pl out g random sh w loc wd
       = chk (update_job out g w loc1 wd) (\<lambda>(w, loc, wd). Inr (False, sh', w, loc, wd))"
      "locals_ok out loc1" "str_at (job loc1) 0 = Inr name"
    using worker_round_parsed [OF assms(1-5), of random w wd] by auto
  define k where "k = nat (action_count a - int (length us))"
  have k: "action_count a = int (length us) + int k" "0 < int k" using assms(8) by (simp_all add: k_def)
  obtain b y where b: "update_job out g w loc1 wd
       = chk (update_loop out g 6 (Some v # rest) (int k) b
                (pipe wd @ concat (map (\<lambda>u. cache_command u @ [newline]) us)) (process wd)) (\<lambda>(b, p, s).
         Inr (w, loc1\<lparr>new_command := b\<rparr>, wd\<lparr>pipe := p, process := s\<rparr>))"
      "str_at b 0 = Inr ((CACHE_COMMAND @ '' '') @ y)" "length b = BUFFER_SIZE"
    using update_job_pages [OF round(2,3) assms(6,7) k(1) assms(9,12)] by blast
  have "length (CACHE_COMMAND @ '' '') + length v + 1 = BUFFER_SIZE"
    unfolding CACHE_COMMAND_chars(2) using assms(11) by simp
  from update_loop_overflow [OF b(2,3) assms(10) this k(2)] b(1) round(1) show ?thesis
    unfolding CACHE_COMMAND_chars(2) by simp
qed

text \<open>
  C39: An action whose configuration lists more than 32 pages keeps their number but a null list, and
  the first \<^verbatim>\<open>UPDATE\<close> of it dereferences the null pointer.
\<close>

theorem worker_round_update_null:
  assumes "lookup_list cfg ''cache.pages'' = Some setting" and "URL_MAX_COUNT < int (length setting)"
    and "read_url_list pl cfg 0 URL_MAX_COUNT vs n s = Some (Inr (refresh_list a, action_count a, s'))"
    and "find_action (actions g) name = Inr (Some a)"
    and "waiting sh (x # xs)" and "locals_ok out loc" and "worker_contention g \<noteq> -1"
    and "command_reads_ok pl BUFFER_SIZE x" and "parse_job x = (UPDATE, name)"
  shows "worker_round pl out g random sh w loc wd = Inl NullPointer"
proof -
  have "log_fits ''Maximum number of pages exceeded in configuration: %d'' [AInt URL_MAX_COUNT]"
    unfolding URL_MAX_COUNT_def by code_simp
  from log_write_fits [OF this] have a: "refresh_list a = None" "0 < action_count a"
    using assms(1-3) by (auto simp: read_url_list_def log_info_def URL_MAX_COUNT_def Let_def andthen_def)
  obtain sh' loc1 where round: "worker_round pl out g random sh w loc wd
       = chk (update_job out g w loc1 wd) (\<lambda>(w, loc, wd). Inr (False, sh', w, loc, wd))"
      "locals_ok out loc1" "str_at (job loc1) 0 = Inr name"
    using worker_round_parsed [OF assms(5-9), of random w wd] by auto
  have "length (new_command loc1) = BUFFER_SIZE" using round(2) by (simp add: locals_ok_def)
  from cache_prefix [OF this] obtain b1 b2 where "strcpy (new_command loc1) 0 CACHE_COMMAND = Inr b1"
      "strcat b1 '' '' = Inr b2" "strlen b2 0 = Inr 6"
    by metis
  then show ?thesis using round(1,3) a assms(4) by (simp add: update_job_def)
qed

definition many_pages :: config where
  "many_pages = sample_config\<lparr>lookup_list := (\<lambda>k. Some (replicate 33 (sample_page ''http://a'')))\<rparr>"

definition overfull_action :: action where
  "overfull_action = \<lparr>action_name = cells ''home'' @ [Some NUL], refresh_list = None, action_count = 33\<rparr>"

theorem worker_round_update_null_witness:
  "worker_round iso_c sample_outside ((sample_globals [])\<lparr>actions := Some [Some (Some overfull_action)]\<rparr>)
     5 (sample_waiting ''UPDATE home'') sample_worker (worker_locals_init sample_outside) sample_world
   = Inl NullPointer"
proof -
  have job: "command_reads_ok iso_c BUFFER_SIZE ''UPDATE home''"
      "parse_job ''UPDATE home'' = (UPDATE, ''home'')"
    by code_simp+
  have pages: "lookup_list many_pages ''cache.pages'' = Some (replicate 33 (sample_page ''http://a''))"
      "URL_MAX_COUNT < int (length (replicate 33 (sample_page ''http://a'')))"
    by (simp_all add: many_pages_def URL_MAX_COUNT_def)
  have fits: "log_fits ''Maximum number of pages exceeded in configuration: %d'' [AInt URL_MAX_COUNT]"
    unfolding URL_MAX_COUNT_def by code_simp
  obtain s' where read: "read_url_list iso_c many_pages 0 URL_MAX_COUNT [] 0 sample_sys
      = Some (Inr (refresh_list overfull_action, action_count overfull_action, s'))"
    using log_write_fits [OF fits]
    by (simp add: read_url_list_def log_info_def pages overfull_action_def andthen_def
        URL_MAX_COUNT_def)
  have found: "find_action (actions ((sample_globals [])\<lparr>actions := Some [Some (Some overfull_action)]\<rparr>))
      ''home'' = Inr (Some overfull_action)"
    by (simp add: find_action_def overfull_action_def str_at_def)
  have "worker_contention ((sample_globals [])\<lparr>actions := Some [Some (Some overfull_action)]\<rparr>) \<noteq> -1"
    using sample_contention [of "[]"] by simp
  from worker_round_update_null [OF pages read found sample_waiting locals_init_ok this job]
  show ?thesis by (simp add: BUFFER_SIZE_def)
qed

text \<open>
  The message about an undefined operation prints \<^verbatim>\<open>command\<close>, which a job without a blank leaves
  alone: in a worker's first round, for the \<^verbatim>\<open>QUIT\<close> of the signal handler for instance, it is read
  before it was ever written.
\<close>

lemma worker_round_undefined:
  assumes "waiting sh (x # xs)" and "worker_contention g \<noteq> -1"
    and "command_reads_ok pl BUFFER_SIZE x" and "CHR '' '' \<notin> set (trim x)"
  shows "worker_round pl out g random sh w (worker_locals_init out) wd = Inl Uninitialised"
proof -
  let ?loc = "worker_locals_init out"
  obtain sh' loc1 where round: "worker_round pl out g random sh w ?loc wd
       = chk (operate pl out g w loc1 wd) (\<lambda>(w, loc, wd). Inr (False, sh', w, loc, wd))"
      "locals_ok out loc1" "str_at (job loc1) 0 = Inr x" "command loc1 = command ?loc"
    using worker_round_head [OF assms(1) locals_init_ok assms(2), where out = out and pl = pl
        and random = random and w = w and wd = wd]
    by blast
  have len: "length (job loc1) = BUFFER_SIZE" "length x < length (command loc1)"
    using round(2) str_at_0_D [OF round(3)] by (simp_all add: locals_ok_def)
  have "fst (parse_job x) = UNDEFINED" using assms(4) by (simp add: parse_job_def Let_def)
  then obtain j where "get_command pl (command loc1) (job loc1) = Inr (UNDEFINED, command loc1, j)"
    using get_command_total [OF round(3) len(2), of pl] assms(3,4) len(1) by auto
  moreover have "str_at (command loc1) 0 = Inl Uninitialised"
    by (simp add: round(4) worker_locals_init_def str_at_def fresh_def BUFFER_SIZE_def numeral_eq_Suc)
  ultimately show ?thesis using round(1) by (simp add: operate_def)
qed



text \<open>
  C13: Whatever job a round meets and whatever the environment answers, a round that comes back keeps the
  sizes of the worker's arrays, its id and its client, has taken at most the job at the head of the
  queue, counted it down once, and has only appended to the requests and to the FIFO; it leaves the
  loop exactly when the daemon is told to stop, and then does nothing else.
\<close>

theorem worker_round_frame:
  assumes "worker_round pl out g random sh w loc wd = Inr (leave, sh', w', loc', wd')"
    and "fifo_wf (queue sh)" and "locals_ok out loc"
  shows "locals_ok out loc' \<and> only_appends w loc wd w' loc' wd' \<and> leave = (\<not> should_run sh)
     \<and> should_run sh' = should_run sh \<and> url_count sh' = url_count sh - 1 \<and> fifo_wf (queue sh')
     \<and> fifo_list (queue sh') = (if leave then fifo_list (queue sh) else tl (fifo_list (queue sh)))
     \<and> (leave \<longrightarrow> w' = w \<and> loc' = loc \<and> wd' = wd)"
proof (cases "should_run sh")
  case False
  then show ?thesis
    using assms by (auto simp: worker_round_def take_job_def only_appends_def)
next
  case True
  obtain q j where take: "fifo_dequeue (queue sh) (job loc) = Inr (q, j)"
    using assms(1) True by (auto simp: worker_round_def take_job_def chk_eq_Inr_iff)
  have deq: "fifo_wf q \<and> fifo_list q = tl (fifo_list (queue sh)) \<and> length j = length (job loc)"
  proof (cases "fifo_list (queue sh)")
    case Nil
    then have "occupied (queue sh) = 0" using length_fifo_list [of "queue sh"] by simp
    then show ?thesis using take assms(2) Nil by (simp add: fifo_dequeue_def)
  next
    case (Cons x xs)
    then show ?thesis
      using fifo_dequeue_step [OF assms(2) Cons, of "job loc"] take assms(3) by (auto simp: locals_ok_def)
  qed
  have op: "operate pl out g w (loc\<lparr>job := j\<rparr>) wd = Inr (w', loc', wd')" "\<not> leave"
      "sh' = sh\<lparr>queue := q, url_count := url_count sh - 1\<rparr>"
    using assms(1) True take by (auto simp: worker_round_def take_job_def chk_eq_Inr_iff)
  have "only_appends w loc wd w' loc' wd'"
    using operate_appends [OF op(1)] deq by (simp add: only_appends_def)
  then show ?thesis
    using op(2,3) deq True assms(3) by (simp add: locals_ok_def only_appends_def)
qed

theorem worker_round_frame_witness:
  "\<exists>sh' w' loc' wd'. worker_round iso_c sample_outside (sample_globals []) 5
       (sample_waiting ''FETCH http://a'') sample_worker (worker_locals_init sample_outside) sample_world
       = Inr (False, sh', w', loc', wd')
     \<and> locals_ok sample_outside loc' \<and> url_count sh' = 0 \<and> fifo_list (queue sh') = []"
proof -
  have job: "command_reads_ok iso_c BUFFER_SIZE ''FETCH http://a''"
      "parse_job ''FETCH http://a'' = (FETCH, ''http://a'')"
    by code_simp+
  have wait: "waiting (sample_waiting ''FETCH http://a'') [''FETCH http://a'']"
    by (rule sample_waiting) (simp_all add: BUFFER_SIZE_def)
  obtain sh1 loc1 where round: "worker_round iso_c sample_outside (sample_globals []) 5
       (sample_waiting ''FETCH http://a'') sample_worker (worker_locals_init sample_outside) sample_world
     = chk (fetch_job sample_outside sample_worker loc1 sample_world)
         (\<lambda>(w, loc, wd). Inr (False, sh1, w, loc, wd))" "str_at (job loc1) 0 = Inr ''http://a''"
    using worker_round_parsed [OF wait locals_init_ok [of sample_outside] sample_contention [of "[]"] job,
        where random = 5 and w = sample_worker and wd = sample_world]
    by auto
  let ?c = "(curl sample_worker)\<lparr>buffer := (buffer (curl sample_worker))\<lparr>enabled := False\<rparr>\<rparr>"
  have c: "curl_ready ?c" "\<not> enabled (buffer ?c)"
    using sample_worker_ready by (simp_all add: curl_ready_def)
  have nul: "NUL \<notin> set ''http://a''" by simp
  from fetch_only [OF c sample_answers nul, of "process sample_world"]
  obtain sh' w' loc' wd' where r: "worker_round iso_c sample_outside (sample_globals []) 5
       (sample_waiting ''FETCH http://a'') sample_worker (worker_locals_init sample_outside) sample_world
     = Inr (False, sh', w', loc', wd')"
    using round by (auto simp: fetch_job_def)
  have wf: "fifo_wf (queue (sample_waiting ''FETCH http://a''))"
      "fifo_list (queue (sample_waiting ''FETCH http://a'')) = [''FETCH http://a'']"
      "url_count (sample_waiting ''FETCH http://a'') = 1"
    using wait by (simp_all add: waiting_def)
  from worker_round_frame [OF r wf(1) locals_init_ok] r show ?thesis
    unfolding wf(2,3) by auto
qed

text \<open>
  C30: A worker whose servers all answer sets up its buffer, goes into its loop, and gives everything
  back at its end. When every entry of the server list is null or empty it still goes into its loop,
  but its end reads the \<^verbatim>\<open>servers\<close> pointer that was never set.
\<close>

theorem worker_lifecycle:
  assumes "plenty s" and "server_names g = Some names" and "server_count g = int (length names)"
    and "names \<noteq> []" and "\<forall>n. mc_parsed out n \<and> mc_pushed out n = None"
    and "servers (memcached w) = None"
  shows "\<exists>w' s'. worker_start out g w s = Inr (True, w', s') \<and> curl_ready (curl w')
     \<and> worker_id w' = worker_id w \<and> live s' = live s + 1
     \<and> (if \<exists>n. Some n \<in> set names \<and> n \<noteq> []
        then \<exists>w'' s''. worker_end w' s' = Inr (w'', s'') \<and> live s'' = live s
        else worker_end w' s' = Inl Uninitialised)"
proof -
  obtain w' s' where w': "worker_start out g w s = Inr (True, w', s')" "curl_ready (curl w')"
      "worker_id w' = worker_id w" "live s' = live s + 1"
    and mc: "memcached w' = connected names ((memcached w)\<lparr>memc := memcached_init (mc_created out)\<rparr>)"
    using worker_starts [OF assms(1-5), of w] by blast
  have set: "servers (memcached w') = (if \<exists>n. Some n \<in> set names \<and> n \<noteq> [] then Some False else None)"
    unfolding mc connected_servers by (simp add: assms(6))
  have "\<exists>w'' s''. worker_end w' s' = Inr (w'', s'') \<and> live s'' = live s"
    if "\<exists>n. Some n \<in> set names \<and> n \<noteq> []"
    using worker_end_frees [OF w'(2), of s'] that w'(4) unfolding set by (auto simp: free_block_def)
  moreover have "worker_end w' s' = Inl Uninitialised" if "\<not> (\<exists>n. Some n \<in> set names \<and> n \<noteq> [])"
    using worker_end_unset [of w' s'] that unfolding set by (simp only: if_False simp_thms)
  ultimately show ?thesis using w' by simp
qed

theorem worker_lifecycle_witness:
  "\<exists>w' s'. worker_start sample_outside (sample_globals [])
         (sample_worker\<lparr>memcached := \<lparr>memc = False, servers = None\<rparr>\<rparr>) sample_sys = Inr (True, w', s')
     \<and> live s' = 1 \<and> (\<exists>w'' s''. worker_end w' s' = Inr (w'', s'') \<and> live s'' = 0)"
proof -
  have names: "server_names (sample_globals []) = Some [Some ''localhost:11211'']"
      "server_count (sample_globals []) = int (length [Some ''localhost:11211''])"
      "[Some ''localhost:11211''] \<noteq> []"
    by (simp_all add: sample_globals_def)
  have up: "\<forall>n. mc_parsed sample_outside n \<and> mc_pushed sample_outside n = None"
    by (simp add: sample_outside_def)
  have none: "servers (memcached (sample_worker\<lparr>memcached := \<lparr>memc = False, servers = None\<rparr>\<rparr>)) = None"
    by simp
  have live: "live sample_sys = 0" by (simp add: sample_sys_def)
  from worker_lifecycle [OF plenty_sample names up none] show ?thesis unfolding live by auto
qed

end
