(* ===== verification/Refresh.thy ===== *)
theory Refresh
  imports Worker
begin

text \<open>
  From a command in the FIFO to the cache: the callbacks that empty the FIFO and the rounds of a worker
  of \<^verbatim>\<open>src/src/queral.c\<close>, one after the other. An \<^verbatim>\<open>UPDATE\<close> goes twice through the FIFO and the queue, first
  itself, then as the \<^verbatim>\<open>CACHE\<close> commands it was replaced by. The schedule is that of a daemon with
  one worker that is woken up when the FIFO is empty; other interleavings are in theory \<open>Interleaving\<close>.
\<close>

section \<open>The callbacks and the rounds\<close>

text \<open>What the successive reads of the callback return for a text in the FIFO.\<close>

function fifo_chunks :: "string \<Rightarrow> string list" where
  "fifo_chunks t =
     (if t = [] then []
      else take (BUFFER_SIZE - 1) t # fifo_chunks (drop (BUFFER_SIZE - 1) t))"
  by pat_completeness auto
termination
  by (relation "measure length") (simp_all add: BUFFER_SIZE_def)

declare fifo_chunks.simps [simp del]

text \<open>The first \<open>k\<close> rounds of the loop of \<open>worker_thread\<close>; the flag says that it was left.\<close>

primrec worker_rounds ::
  "platform \<Rightarrow> outside \<Rightarrow> globals \<Rightarrow> (nat \<Rightarrow> int) \<Rightarrow> nat \<Rightarrow> shared \<Rightarrow> worker_t \<Rightarrow> worker_locals \<Rightarrow> world
   \<Rightarrow> (bool \<times> shared \<times> worker_t \<times> worker_locals \<times> world) res" where
  "worker_rounds pl out g randoms 0 sh w loc wd = Inr (False, sh, w, loc, wd)"
| "worker_rounds pl out g randoms (Suc k) sh w loc wd =
     chk (worker_round pl out g (randoms k) sh w loc wd) (\<lambda>(leave, sh, w, loc, wd).
     if leave then Inr (True, sh, w, loc, wd)
     else worker_rounds pl out g randoms k sh w loc wd)"

text \<open>The callbacks empty the FIFO, then the worker takes what they enqueued.\<close>

definition daemon_turn ::
  "platform \<Rightarrow> outside \<Rightarrow> globals \<Rightarrow> (nat \<Rightarrow> int)
   \<Rightarrow> socket_worker_t \<times> shared \<times> worker_t \<times> worker_locals \<times> world
   \<Rightarrow> (socket_worker_t \<times> shared \<times> worker_t \<times> worker_locals \<times> world) res" where
  "daemon_turn pl out g randoms =
     (\<lambda>(sock, sh, w, loc, wd).
     chk (socket_run pl 1 (fifo_chunks (pipe wd)) sock sh (process wd)) (\<lambda>(sock, sh, s).
     chk (worker_rounds pl out g randoms (nat (url_count sh)) sh w loc (wd\<lparr>pipe := [], process := s\<rparr>))
       (\<lambda>(leave, sh, w, loc, wd).
     Inr (sock, sh, w, loc, wd))))"

section \<open>Reading\<close>

text \<open>Whole lines that fit the buffers are cut by the reads in such a way that each read ends a line.\<close>

lemma chunks_fit:
  assumes "newline \<notin> set p" and "snd (split_lines (p @ t)) = []" and "NUL \<notin> set t"
    and "\<forall>l \<in> set (fst (split_lines (p @ t))). length l + 1 < BUFFER_SIZE"
  shows "stream_fits p (fifo_chunks t)"
  using assms
proof (induction t arbitrary: p rule: fifo_chunks.induct)
  case (1 t)
  show ?case
  proof (cases "t = []")
    case True
    then show ?thesis by (simp add: fifo_chunks.simps)
  next
    case False
    let ?c = "take (BUFFER_SIZE - 1) t" let ?d = "drop (BUFFER_SIZE - 1) t"
    let ?q = "snd (split_lines (p @ ?c))"
    have "newline \<in> set t"
      using 1(3) False by (cases "newline \<in> set t") (simp_all add: split_lines_none "1.prems")
    then obtain l rest where t: "t = l @ newline # rest" and l: "newline \<notin> set l"
      by (rule split_first_newline)
    have pl: "newline \<notin> set (p @ l)" using l "1.prems"(1) by simp
    have "length (p @ l) + 1 < BUFFER_SIZE"
      using "1.prems"(4) split_lines_line [OF pl, of rest] by (simp add: t split: prod.splits)
    then have len: "length p + length l + 1 < BUFFER_SIZE" by simp
    then have c: "?c = l @ newline # take (BUFFER_SIZE - 1 - length l - 1) rest"
      by (simp add: t take_Cons')
    have split: "split_lines (p @ t) = (fst (split_lines (p @ ?c)) @ fst (split_lines (?q @ ?d)),
        snd (split_lines (?q @ ?d)))"
      using split_lines_append [of "p @ ?c" ?d] by simp
    have nul: "NUL \<notin> set ?d" "NUL \<notin> set ?c"
      using "1.prems"(3) by (auto dest: in_set_dropD in_set_takeD)
    have "stream_fits ?q (fifo_chunks ?d)"
      using "1.prems"(2,4) nul(1) unfolding split
      by (intro "1.IH" [OF False]) (simp_all add: newline_notin_rest)
    moreover have "newline \<in> set ?c" "line_fits p ?c"
      unfolding c line_fits_def takeWhile_line [OF l] using len by simp_all
    moreover have "length ?c < BUFFER_SIZE" by (simp add: BUFFER_SIZE_def)
    ultimately show ?thesis
      using False nul(2) by (subst fifo_chunks.simps) simp
  qed
qed

lemma concat_chunks: "concat (fifo_chunks t) = t"
  by (induction t rule: fifo_chunks.induct) (subst fifo_chunks.simps, simp)

text \<open>The daemon between two turns: idle, with nothing read and nothing queued.\<close>

definition idle_daemon :: "outside \<Rightarrow> socket_worker_t \<Rightarrow> shared \<Rightarrow> worker_t \<Rightarrow> worker_locals \<Rightarrow> bool" where
  "idle_daemon out sock sh w loc \<longleftrightarrow>
     length (read_buffer sock) = BUFFER_SIZE \<and> holding (cache_buffer sock) [] \<and> waiting sh []
     \<and> curl_ready (curl w) \<and> locals_ok out loc"

lemma callbacks_enqueue:
  assumes "ascending pl" and "idle_daemon out sock sh w loc"
    and "split_lines t = (ls, [])" and "NUL \<notin> set t" and "\<forall>l \<in> set ls. length l + 1 < BUFFER_SIZE"
    and "length ls \<le> capacity (queue sh)"
  shows "\<exists>sock' sh'. socket_run pl n (fifo_chunks t) sock sh sy = Inr (sock', sh', sy)
     \<and> length (read_buffer sock') = BUFFER_SIZE \<and> holding (cache_buffer sock') []
     \<and> waiting sh' ls \<and> capacity (queue sh') = capacity (queue sh)"
proof -
  have fits: "stream_fits [] (fifo_chunks t)" using assms(3-5) by (intro chunks_fit) simp_all
  have sh: "should_run sh" "fifo_wf (queue sh)" "fifo_list (queue sh) = []" "url_count sh = 0"
      "length (read_buffer sock) = BUFFER_SIZE" "holding (cache_buffer sock) []"
    using assms(2) by (simp_all add: idle_daemon_def waiting_def)
  have "occupied (queue sh) = 0" using sh(3) by (metis length_fifo_list list.size(3))
  then have "occupied (queue sh) + length (fst (split_lines ([] @ concat (fifo_chunks t)))) \<le> capacity (queue sh)"
    using assms(3,6) by (simp add: concat_chunks)
  from socket_run_lines [OF assms(1) sh(1,2,5,6) _ fits this, of n sy] show ?thesis
    using sh(1,3,4) assms(3) by (auto simp: concat_chunks enqueued_def waiting_def)
qed

section \<open>Rounds\<close>

text \<open>A command as it is written in one line, which fits the buffers.\<close>

definition plain_argument :: "string \<Rightarrow> bool" where
  "plain_argument u \<longleftrightarrow> u \<noteq> [] \<and> \<not> isspace (hd u) \<and> \<not> isspace (last u)
     \<and> NUL \<notin> set u \<and> newline \<notin> set u \<and> length u + 8 < BUFFER_SIZE"

lemma plain_command:
  assumes "w \<in> {FETCH_COMMAND, CACHE_COMMAND, UPDATE_COMMAND}" and u: "plain_argument u"
  shows "parse_job (w @ '' '' @ u) = (operation_of w, u)" and "command_reads_ok pl BUFFER_SIZE (w @ '' '' @ u)"
    and "newline \<notin> set (w @ '' '' @ u)" and "NUL \<notin> set (w @ '' '' @ u)"
    and "length (w @ '' '' @ u) + 1 < BUFFER_SIZE"
proof -
  have w: "w \<noteq> []" "\<not> isspace (hd w)" "CHR '' '' \<notin> set w" "newline \<notin> set w" "NUL \<notin> set w"
      "length w \<le> 6"
    using assms(1)
    by (auto simp: FETCH_COMMAND_def CACHE_COMMAND_def UPDATE_COMMAND_def isspace_def)
  show "parse_job (w @ '' '' @ u) = (operation_of w, u)"
    using parse_command [OF assms(1), of "[]" "[]" "[]" u] u by (simp add: plain_argument_def)
  show "newline \<notin> set (w @ '' '' @ u)" "NUL \<notin> set (w @ '' '' @ u)"
    using w(4,5) u by (auto simp: plain_argument_def)
  show len: "length (w @ '' '' @ u) + 1 < BUFFER_SIZE" using w(6) u by (simp add: plain_argument_def)
  have "trim (w @ '' '' @ u) = w @ '' '' @ u"
    using trim_padded [of "[]" "[]" "w @ '' '' @ u"] w(1,2) u by (simp add: plain_argument_def)
  moreover have "lead (w @ '' '' @ u) = []" using w(1,2) by (cases w) (simp_all add: lead_def)
  moreover have "argument (w @ '' '' @ u) = '' '' @ u"
    using w(3) by (simp add: argument_def dropWhile_append)
  moreover have "length (lead ('' '' @ u)) \<le> 1"
    using u by (cases u) (auto simp: lead_def plain_argument_def)
  ultimately show "command_reads_ok pl BUFFER_SIZE (w @ '' '' @ u)"
    using len w(6) u by (simp add: command_reads_ok_def trim_reads_ok_def plain_argument_def)
qed

text \<open>A page that can be downloaded and stored.\<close>

definition page_served :: "outside \<Rightarrow> string \<Rightarrow> (string \<Rightarrow> string) \<Rightarrow> string \<Rightarrow> bool" where
  "page_served out kp document u \<longleftrightarrow>
     plain_argument u \<and> length kp + length u + 1 < mc_max_key out \<and> short_answers out (kp @ u)
     \<and> (\<exists>e blocks. delivers (perform out) e u blocks None \<and> (\<forall>b \<in> set blocks. length b < 2 ^ 32)
          \<and> NUL \<notin> set e \<and> length u + length e < 200 \<and> document u = concat blocks)"

lemma rounds_store:
  assumes "waiting sh (map cache_command us)" and "locals_ok out loc" and "curl_ready (curl w)"
    and g: "worker_contention g \<noteq> -1" "str_at (key_prefix g) 0 = Inr kp"
    and "\<forall>u \<in> set us. page_served out kp document u"
  shows "\<exists>sh' w' loc' wd'. worker_rounds pl out g randoms (length us) sh w loc wd
       = Inr (False, sh', w', loc', wd')
     \<and> requests wd' = requests wd @ concat (map (\<lambda>u. cache_requests (kp @ u) (document u) (expiration g)) us)
     \<and> pipe wd' = pipe wd \<and> waiting sh' [] \<and> curl_ready (curl w') \<and> locals_ok out loc'
     \<and> capacity (queue sh') = capacity (queue sh)"
  using assms(1-3,6)
proof (induction us arbitrary: sh w loc wd)
  case Nil
  then show ?case by simp
next
  case (Cons u us)
  have u: "page_served out kp document u" and us: "\<forall>u \<in> set us. page_served out kp document u"
    using Cons.prems(4) by simp_all
  then obtain e blocks where blocks: "delivers (perform out) e u blocks None"
      "\<forall>b \<in> set blocks. length b < 2 ^ 32" "NUL \<notin> set e" "length u + length e < 200"
      "document u = concat blocks"
    by (auto simp: page_served_def)
  have plain: "plain_argument u" and fits: "length kp + length u + 1 < mc_max_key out" "short_answers out (kp @ u)"
    using u by (simp_all add: page_served_def)
  have head: "waiting sh (cache_command u # map cache_command us)" using Cons.prems(1) by simp
  have cmd: "parse_job (cache_command u) = (CACHE, u)" "command_reads_ok pl BUFFER_SIZE (cache_command u)"
    using plain_command(1,2) [OF _ plain, of CACHE_COMMAND]
    by (simp_all add: cache_command_def operation_of_def CACHE_COMMAND_def FETCH_COMMAND_def)
  obtain sh1 w1 loc1 wd1 where
      round: "worker_round pl out g (randoms (length us)) sh w loc wd = Inr (False, sh1, w1, loc1, wd1)"
        "requests wd1 = requests wd @ cache_requests (kp @ u) (document u) (expiration g)"
        "pipe wd1 = pipe wd" "waiting sh1 (map cache_command us)" "curl_ready (curl w1)" "locals_ok out loc1"
    using worker_round_stores [OF head Cons.prems(2) g(1) cmd(2,1) g(2) fits Cons.prems(3) blocks(1-4)]
    unfolding blocks(5) by blast
  from Cons.IH [OF round(4,6,5) us, of wd1] round worker_round_capacity [OF round(1)]
  show ?case by auto
qed

section \<open>Turns\<close>

lemma daemon_turn_rounds:
  assumes "ascending pl" and "idle_daemon out sock sh w loc"
    and "split_lines (pipe wd) = (ls, [])" and "NUL \<notin> set (pipe wd)"
    and "\<forall>l \<in> set ls. length l + 1 < BUFFER_SIZE" and "length ls \<le> capacity (queue sh)"
  shows "\<exists>sock' sh'. daemon_turn pl out g randoms (sock, sh, w, loc, wd)
       = chk (worker_rounds pl out g randoms (length ls) sh' w loc (wd\<lparr>pipe := []\<rparr>))
           (\<lambda>(leave, sh, w, loc, wd). Inr (sock', sh, w, loc, wd))
     \<and> length (read_buffer sock') = BUFFER_SIZE \<and> holding (cache_buffer sock') []
     \<and> waiting sh' ls \<and> capacity (queue sh') = capacity (queue sh)"
proof -
  obtain sock' sh' where run: "socket_run pl 1 (fifo_chunks (pipe wd)) sock sh (process wd)
        = Inr (sock', sh', process wd)"
      "length (read_buffer sock') = BUFFER_SIZE" "holding (cache_buffer sock') []"
      "waiting sh' ls" "capacity (queue sh') = capacity (queue sh)"
    using callbacks_enqueue [OF assms, of 1 "process wd"] by blast
  then have "nat (url_count sh') = length ls" by (simp add: waiting_def)
  then show ?thesis using run by (intro exI [of _ sock'] exI [of _ sh']) (simp add: daemon_turn_def)
qed

lemma turn_stores:
  assumes pl: "ascending pl" and idle: "idle_daemon out sock sh w loc"
    and g: "worker_contention g \<noteq> -1" "str_at (key_prefix g) 0 = Inr kp"
    and us: "\<forall>u \<in> set us. page_served out kp document u" and cap: "length us \<le> capacity (queue sh)"
    and pipe: "pipe wd = concat (map (\<lambda>u. cache_command u @ [newline]) us)"
  shows "\<exists>sock' sh' w' loc' wd'. daemon_turn pl out g randoms (sock, sh, w, loc, wd)
       = Inr (sock', sh', w', loc', wd') \<and> idle_daemon out sock' sh' w' loc' \<and> pipe wd' = []
     \<and> requests wd' = requests wd @ concat (map (\<lambda>u. cache_requests (kp @ u) (document u) (expiration g)) us)"
proof -
  let ?ls = "map cache_command us"
  have line: "newline \<notin> set l \<and> NUL \<notin> set l \<and> length l + 1 < BUFFER_SIZE" if "l \<in> set ?ls" for l
    using that us plain_command(3-5) [of CACHE_COMMAND]
    by (auto simp: cache_command_def page_served_def)
  have "split_lines (pipe wd) = (?ls, [])"
    using split_lines_jobs [of ?ls] line by (simp add: pipe comp_def)
  moreover have "NUL \<notin> set (pipe wd)" using line by (auto simp: pipe)
  ultimately obtain sock' sh' where turn: "daemon_turn pl out g randoms (sock, sh, w, loc, wd)
       = chk (worker_rounds pl out g randoms (length ?ls) sh' w loc (wd\<lparr>pipe := []\<rparr>))
           (\<lambda>(leave, sh, w, loc, wd). Inr (sock', sh, w, loc, wd))"
      "length (read_buffer sock') = BUFFER_SIZE" "holding (cache_buffer sock') []" "waiting sh' ?ls"
    using daemon_turn_rounds [OF pl idle, of wd ?ls g randoms] line cap by auto
  have "locals_ok out loc" "curl_ready (curl w)" using idle by (simp_all add: idle_daemon_def)
  from rounds_store [OF turn(4) this g us, of pl randoms "wd\<lparr>pipe := []\<rparr>"] turn(1-3) show ?thesis
    by (auto simp: idle_daemon_def)
qed

lemma turn_updates:
  assumes pl: "ascending pl" and idle: "idle_daemon out sock sh w loc"
    and g: "worker_contention g \<noteq> -1" and "fifo_takes_all out"
    and name: "plain_argument name" and "find_action (actions g) name = Inr (Some a)"
    and "page_list a us"
    and us: "\<forall>u \<in> set us. plain_argument u" and cap: "1 \<le> capacity (queue sh)"
    and pipe: "pipe wd = UPDATE_COMMAND @ '' '' @ name @ [newline]"
  shows "\<exists>sock' sh' loc'. daemon_turn pl out g randoms (sock, sh, w, loc, wd)
       = Inr (sock', sh', w, loc', wd\<lparr>pipe := concat (map (\<lambda>u. cache_command u @ [newline]) us)\<rparr>)
     \<and> idle_daemon out sock' sh' w loc' \<and> capacity (queue sh') = capacity (queue sh)"
proof -
  let ?x = "UPDATE_COMMAND @ '' '' @ name"
  note cmd = plain_command [of UPDATE_COMMAND name, OF _ name, simplified]
  have "split_lines (pipe wd) = ([?x], [])"
    using split_lines_line [of ?x "[]"] cmd(3) by (simp add: pipe split_lines_none)
  moreover have "NUL \<notin> set (pipe wd)" using cmd(4) by (auto simp: pipe)
  ultimately obtain sock' sh' where turn: "daemon_turn pl out g randoms (sock, sh, w, loc, wd)
       = chk (worker_rounds pl out g randoms (length [?x]) sh' w loc (wd\<lparr>pipe := []\<rparr>))
           (\<lambda>(leave, sh, w, loc, wd). Inr (sock', sh, w, loc, wd))"
      "length (read_buffer sock') = BUFFER_SIZE" "holding (cache_buffer sock') []" "waiting sh' [?x]"
      "capacity (queue sh') = capacity (queue sh)"
    using daemon_turn_rounds [OF pl idle, of wd "[?x]" g randoms] cmd(5) cap by auto
  have loc: "locals_ok out loc" using idle by (simp add: idle_daemon_def)
  have op: "parse_job ?x = (UPDATE, name)"
    using cmd(1) by (simp add: operation_of_def UPDATE_COMMAND_def CACHE_COMMAND_def FETCH_COMMAND_def)
  have "\<forall>u \<in> set us. NUL \<notin> set u \<and> length u + 7 < BUFFER_SIZE" using us by (auto simp: plain_argument_def)
  from worker_round_pages [OF turn(4) loc g _ op assms(6,7) this assms(4), of pl "randoms 0" w "wd\<lparr>pipe := []\<rparr>"]
  obtain sh1 loc1 where round: "worker_round pl out g (randoms 0) sh' w loc (wd\<lparr>pipe := []\<rparr>)
        = Inr (False, sh1, w, loc1, wd\<lparr>pipe := concat (map (\<lambda>u. cache_command u @ [newline]) us)\<rparr>)"
      "waiting sh1 []" "locals_ok out loc1"
    using cmd(2) by auto
  then show ?thesis
    using turn idle worker_round_capacity [OF round(1)] by (auto simp: idle_daemon_def)
qed

text \<open>An \<^verbatim>\<open>UPDATE\<close> on its way through the FIFO, and its pages after it.\<close>

lemma refresh_turns:
  assumes "ascending pl" and "idle_daemon out sock sh w loc" and "fifo_takes_all out"
    and "worker_contention g \<noteq> -1" and "str_at (key_prefix g) 0 = Inr kp"
    and "plain_argument name" and "find_action (actions g) name = Inr (Some a)"
    and "page_list a us"
    and "\<forall>u \<in> set us. page_served out kp document u"
    and "max 1 (length us) \<le> capacity (queue sh)"
    and "pipe wd = UPDATE_COMMAND @ '' '' @ name @ [newline]"
  shows "\<exists>sock' sh' w' loc' wd'.
     chk (daemon_turn pl out g randoms (sock, sh, w, loc, wd)) (daemon_turn pl out g randoms')
       = Inr (sock', sh', w', loc', wd')
     \<and> requests wd' = requests wd @ concat (map (\<lambda>u. cache_requests (kp @ u) (document u) (expiration g)) us)
     \<and> pipe wd' = [] \<and> idle_daemon out sock' sh' w' loc'"
proof -
  have us: "\<forall>u \<in> set us. plain_argument u" using assms(9) by (simp add: page_served_def)
  have cap: "1 \<le> capacity (queue sh)" "length us \<le> capacity (queue sh)" using assms(10) by simp_all
  obtain sock1 sh1 loc1 where first: "daemon_turn pl out g randoms (sock, sh, w, loc, wd)
        = Inr (sock1, sh1, w, loc1, wd\<lparr>pipe := concat (map (\<lambda>u. cache_command u @ [newline]) us)\<rparr>)"
      "idle_daemon out sock1 sh1 w loc1" "capacity (queue sh1) = capacity (queue sh)"
    using turn_updates [OF assms(1,2,4,3,6-8) us cap(1) assms(11)] by blast
  from turn_stores [OF assms(1) first(2) assms(4,5,9), of
      "wd\<lparr>pipe := concat (map (\<lambda>u. cache_command u @ [newline]) us)\<rparr>" randoms']
  show ?thesis using cap(2) by (simp add: first(1,3)) blast
qed

text \<open>The pages the sample server answers.\<close>

lemma sample_served:
  assumes "plain_argument u" and "length u < 100"
  shows "page_served sample_outside ''__memc_'' (\<lambda>_. ''<html></html>'') u"
proof -
  have "\<forall>b \<in> set [''<html>'', ''</html>'']. length b < 2 ^ 32" "NUL \<notin> set ''write error''"
      "length u + length ''write error'' < 200" "''<html></html>'' = concat [''<html>'', ''</html>'']"
    using assms(2) by auto
  then have "\<exists>e blocks. delivers (perform sample_outside) e u blocks None
      \<and> (\<forall>b \<in> set blocks. length b < 2 ^ 32) \<and> NUL \<notin> set e \<and> length u + length e < 200
      \<and> ''<html></html>'' = concat blocks"
    using sample_answers [of u] by blast
  then show ?thesis
    using assms by (simp add: page_served_def short_answers_def sample_outside_def plain_argument_def)
qed

section \<open>Properties\<close>

text \<open>
  C1: One \<^verbatim>\<open>UPDATE\<close> command refreshes the cache. When a client has written it into the FIFO of an idle
  daemon, two turns of callbacks and rounds delete the record of every page of the named action and
  store its document under the page's key again, in the order of the configuration; then the FIFO and
  the queue are empty and the daemon is as idle as before.
\<close>

theorem update_refreshes_cache:
  assumes "ascending pl" and "idle_daemon out sock sh w loc" and "fifo_takes_all out"
    and "worker_contention g \<noteq> -1" and "str_at (key_prefix g) 0 = Inr kp"
    and "plain_argument name" and "find_action (actions g) name = Inr (Some a)"
    and "page_list a us"
    and "\<forall>u \<in> set us. page_served out kp document u"
    and "max 1 (length us) \<le> capacity (queue sh)"
    and "pipe wd = UPDATE_COMMAND @ '' '' @ name @ [newline]"
  shows "\<exists>sock' sh' w' loc' wd'.
     chk (daemon_turn pl out g randoms (sock, sh, w, loc, wd)) (daemon_turn pl out g randoms')
       = Inr (sock', sh', w', loc', wd')
     \<and> requests wd' = requests wd @ concat (map (\<lambda>u. cache_requests (kp @ u) (document u) (expiration g)) us)
     \<and> pipe wd' = [] \<and> idle_daemon out sock' sh' w' loc'"
  using refresh_turns [OF assms] .

theorem update_refreshes_cache_witness:
  "\<exists>r. chk (daemon_turn permissive sample_outside (sample_globals [''http://a'', ''http://b'']) (\<lambda>_. 5)
        (sample_watcher, sample_shared\<lparr>queue := sample_queue_2\<rparr>, sample_worker,
         worker_locals_init sample_outside, sample_world\<lparr>pipe := ''UPDATE home'' @ [newline]\<rparr>))
      (daemon_turn permissive sample_outside (sample_globals [''http://a'', ''http://b'']) (\<lambda>_. 7)) = Inr r
     \<and> requests (snd (snd (snd (snd r))))
       = [McDelete ''__memc_http://a'', McSet ''__memc_http://a'' ''<html></html>'' 7200,
          McDelete ''__memc_http://b'', McSet ''__memc_http://b'' ''<html></html>'' 7200]"
proof -
  let ?us = "[''http://a'', ''http://b'']" let ?doc = "\<lambda>_. ''<html></html>''" let ?kp = "''__memc_''"
  let ?sh = "sample_shared\<lparr>queue := sample_queue_2\<rparr>"
  have idle: "idle_daemon sample_outside sample_watcher ?sh sample_worker (worker_locals_init sample_outside)"
    by (simp add: idle_daemon_def sample_watcher_buffers waiting_def sample_queue_2_wf locals_init_ok
        sample_worker_ready)
  have key: "str_at (key_prefix (sample_globals ?us)) 0 = Inr ?kp"
    by (simp add: sample_globals_def str_at_def)
  have name: "plain_argument ''home''" by (simp add: plain_argument_def BUFFER_SIZE_def isspace_def)
  have list: "page_list (sample_action ?us) ?us" by (simp add: page_list_def sample_action_def)
  have served: "\<forall>u \<in> set ?us. page_served sample_outside ?kp ?doc u"
    by (auto intro!: sample_served simp: plain_argument_def BUFFER_SIZE_def isspace_def)
  have room: "max 1 (length ?us) \<le> capacity (queue ?sh)" by (simp add: sample_queue_2_wf)
  have pipe: "pipe (sample_world\<lparr>pipe := ''UPDATE home'' @ [newline]\<rparr>)
      = UPDATE_COMMAND @ '' '' @ ''home'' @ [newline]"
    by (simp add: UPDATE_COMMAND_def)
  have r: "concat (map (\<lambda>u. cache_requests (?kp @ u) (?doc u) (expiration (sample_globals ?us))) ?us)
      = [McDelete ''__memc_http://a'', McSet ''__memc_http://a'' ''<html></html>'' 7200,
         McDelete ''__memc_http://b'', McSet ''__memc_http://b'' ''<html></html>'' 7200]"
    by (simp add: cache_requests_def BUFFER_MEMORY_SIZE_def sample_globals_def)
  have none: "requests (sample_world\<lparr>pipe := ''UPDATE home'' @ [newline]\<rparr>) = []"
    by (simp add: sample_world_def)
  from update_refreshes_cache [OF platform_sel(4) idle sample_fifo sample_contention key name sample_find list
      served room pipe, of "\<lambda>_. 5" "\<lambda>_. 7"]
  show ?thesis unfolding r none by force
qed

end
