(* ===== verification/Transition_Interface.thy ===== *)
theory Transition_Interface
  imports Main
begin

text \<open>
  What the theories about concurrent behaviour need of a step relation \<open>step s e s'\<close> (state, event,
  state): runs, invariants, a first-in first-out channel between events, and a phase in which only
  a bounded number of steps is left. The laws are discharged for the daemon in theory \<open>Protocol\<close> and
  for its mutex in theory \<open>Mutex\<close>.
\<close>

inductive run :: "('s \<Rightarrow> 'e \<Rightarrow> 's \<Rightarrow> bool) \<Rightarrow> 's \<Rightarrow> 'e list \<Rightarrow> 's \<Rightarrow> bool"
  for step :: "'s \<Rightarrow> 'e \<Rightarrow> 's \<Rightarrow> bool" where
  stop: "run step s [] s"
| go: "step s e s' \<Longrightarrow> run step s' es s'' \<Longrightarrow> run step s (e # es) s''"

inductive_simps run_Nil [simp]: "run step s [] s'"
inductive_simps run_Cons: "run step s (e # es) s'"

lemma run_append: "run step s (es @ fs) s'' \<longleftrightarrow> (\<exists>s'. run step s es s' \<and> run step s' fs s'')"
  by (induction es arbitrary: s) (auto simp: run_Cons)

lemma run_restrict:
  "run step s es s' \<Longrightarrow> \<forall>e \<in> set es. P e \<Longrightarrow> run (\<lambda>s e s'. step s e s' \<and> P e) s es s'"
  by (induction rule: run.induct) (auto intro: run.intros)

section \<open>Invariants\<close>

locale invariant_of =
  fixes step :: "'s \<Rightarrow> 'e \<Rightarrow> 's \<Rightarrow> bool"
    and initial :: "'s \<Rightarrow> bool"
    and inv :: "'s \<Rightarrow> bool"
  assumes initial_inv: "initial s \<Longrightarrow> inv s"
    and step_inv: "inv s \<Longrightarrow> step s e s' \<Longrightarrow> inv s'"
begin

lemma run_inv: "run step s es s' \<Longrightarrow> inv s \<Longrightarrow> inv s'"
  by (induction rule: run.induct) (auto intro: step_inv)

lemma run_events:
  "run step s es s' \<Longrightarrow> inv s \<Longrightarrow> (\<And>s e s'. inv s \<Longrightarrow> step s e s' \<Longrightarrow> P e) \<Longrightarrow> list_all P es"
  by (induction rule: run.induct) (auto intro: step_inv)

lemma reachable_inv: "initial s \<Longrightarrow> run step s es s' \<Longrightarrow> inv s'"
  using run_inv initial_inv by blast

end

section \<open>A channel between events\<close>

locale channel = invariant_of step initial inv
  for step :: "'s \<Rightarrow> 'e \<Rightarrow> 's \<Rightarrow> bool" and initial inv +
  fixes content :: "'s \<Rightarrow> 'a list"
    and sent :: "'e \<Rightarrow> 'a list"
    and received :: "'e \<Rightarrow> 'a list"
  assumes step_channel: "inv s \<Longrightarrow> step s e s' \<Longrightarrow> content s @ sent e = received e @ content s'"
    and initial_empty: "initial s \<Longrightarrow> content s = []"
begin

lemma run_channel:
  "run step s es s' \<Longrightarrow> inv s \<Longrightarrow>
   content s @ concat (map sent es) = concat (map received es) @ content s'"
proof (induction rule: run.induct)
  case (go s e s' es s'')
  have "content s @ sent e = received e @ content s'" using go by (intro step_channel)
  moreover have "content s' @ concat (map sent es) = concat (map received es) @ content s''"
    using go step_inv by blast
  ultimately show ?case by simp (metis append_assoc)
qed simp

lemma sent_received:
  "initial s \<Longrightarrow> run step s es s' \<Longrightarrow>
   concat (map sent es) = concat (map received es) @ content s'"
  using run_channel [of s es s'] initial_inv initial_empty by force

end

section \<open>A phase that ends\<close>

text \<open>Once \<open>closing\<close> holds it stays, and \<open>effort\<close> bounds the number of \<open>progress\<close> steps that are left.\<close>

locale closing_phase = invariant_of step initial inv
  for step :: "'s \<Rightarrow> 'e \<Rightarrow> 's \<Rightarrow> bool" and initial inv +
  fixes closing :: "'s \<Rightarrow> bool"
    and effort :: "'s \<Rightarrow> nat"
    and progress :: "'e \<Rightarrow> bool"
  assumes stays: "inv s \<Longrightarrow> closing s \<Longrightarrow> step s e s' \<Longrightarrow> closing s'"
    and decreases: "inv s \<Longrightarrow> closing s \<Longrightarrow> step s e s' \<Longrightarrow> progress e \<Longrightarrow> effort s' < effort s"
    and other: "inv s \<Longrightarrow> closing s \<Longrightarrow> step s e s' \<Longrightarrow> \<not> progress e \<Longrightarrow> effort s' \<le> effort s"
begin

lemma run_bounded:
  "run step s es s' \<Longrightarrow> inv s \<Longrightarrow> closing s \<Longrightarrow>
   length (filter progress es) + effort s' \<le> effort s \<and> closing s'"
proof (induction rule: run.induct)
  case (go s e s' es s'')
  then have rest: "length (filter progress es) + effort s'' \<le> effort s' \<and> closing s''"
    using step_inv stays by blast
  show ?case
  proof (cases "progress e")
    case True
    then have "effort s' < effort s" using go decreases by blast
    then show ?thesis using rest True by simp
  next
    case False
    then have "effort s' \<le> effort s" using go other by blast
    then show ?thesis using rest False by simp
  qed
qed simp

text \<open>Progress can be made until none is possible.\<close>

lemma run_exhausts:
  "inv s \<Longrightarrow> closing s \<Longrightarrow>
   \<exists>es s'. run step s es s' \<and> list_all progress es \<and> (\<forall>e s''. progress e \<longrightarrow> \<not> step s' e s'')"
proof (induction "effort s" arbitrary: s rule: less_induct)
  case less
  show ?case
  proof (cases "\<exists>e s1. progress e \<and> step s e s1")
    case False
    then show ?thesis by (intro exI [of _ "[]"] exI [of _ s]) simp
  next
    case True
    then obtain e s1 where e: "progress e" "step s e s1" by blast
    then have "effort s1 < effort s" "inv s1" "closing s1"
      using less.prems decreases step_inv stays by blast+
    then obtain es s' where "run step s1 es s'" "list_all progress es"
        "\<forall>e s''. progress e \<longrightarrow> \<not> step s' e s''"
      using less.hyps by blast
    then have "run step s (e # es) s'" "list_all progress (e # es)"
        "\<forall>e s''. progress e \<longrightarrow> \<not> step s' e s''"
      using e by (auto intro: run.go)
    then show ?thesis by blast
  qed
qed

end

text \<open>The same where progress can be made until nothing is left to do.\<close>

locale ending = closing_phase +
  assumes enabled: "inv s \<Longrightarrow> closing s \<Longrightarrow> 0 < effort s \<Longrightarrow> \<exists>e s'. progress e \<and> step s e s'"
begin

lemma run_completes:
  assumes "inv s" and "closing s"
  shows "\<exists>es s'. run step s es s' \<and> list_all progress es \<and> effort s' = 0"
proof -
  obtain es s' where es: "run step s es s'" "list_all progress es"
      "\<forall>e s''. progress e \<longrightarrow> \<not> step s' e s''"
    using run_exhausts [OF assms] by blast
  then have "inv s'" "closing s'" using run_inv run_bounded assms by blast+
  then have "effort s' = 0" using enabled [of s'] es(3) by auto
  then show ?thesis using es by blast
qed

end

end
