(* ===== verification/Protocol.thy ===== *)
theory Protocol
  imports Worker Transition_Interface
begin

text \<open>
  How the threads of the daemon play together: the event loop of the main thread runs \<open>socket_cb\<close>,
  the workers take jobs, clients write to the FIFO, and \<open>signal_handler\<close> of \<^verbatim>\<open>src/src/queral.c\<close> asks
  everybody to stop. A worker's critical section, the callback and the handler are one step each, and
  the steps interleave freely; what an operation writes into the FIFO is a \<open>Write\<close> event. A signal
  that arrives in the midst of the callback is \<open>interrupted_cb\<close>.
\<close>

section \<open>The signal handler\<close>

datatype signal = SIGTERM | SIGINT | SIGHUP | OtherSignal

text \<open>\<open>active\<close> is the watcher's flag; \<open>fd\<close> and \<open>written\<close> are the kernel's answers to \<open>write_fifo\<close>.\<close>

definition signal_handler ::
  "signal \<Rightarrow> bool \<Rightarrow> int \<Rightarrow> int \<Rightarrow> string \<Rightarrow> shared \<Rightarrow> string \<Rightarrow> sys \<Rightarrow> (shared \<times> string \<times> sys) res" where
  "signal_handler signo active fd written filename sh p s =
     (case signo of
        SIGHUP \<Rightarrow> chk (log_notice ''SIGHUP is not supported'' [] s) (\<lambda>s. Inr (sh, p, s))
      | OtherSignal \<Rightarrow> Inr (sh, p, s)
      | _ \<Rightarrow>
          let sh = sh\<lparr>should_run := False\<rparr> in
          if active then
            chk (write_fifo fd written filename ''QUIT'' p s) (\<lambda>(_, p, s). Inr (sh, p, s))
          else Inr (sh, p, s))"

section \<open>The daemon\<close>

datatype phase = Waits | Works | Gone

record thread =
  phase :: phase
  thread_job :: cbuf

record daemon =
  common :: shared
  watcher :: socket_worker_t
  fifo_text :: string
  threads :: "thread list"
  daemon_sys :: sys

datatype event =
    Accept "string list"   \<comment> \<open>the callback read a chunk and enqueued these jobs\<close>
  | Stop                   \<comment> \<open>the callback stopped the event loop\<close>
  | Take nat cbuf          \<comment> \<open>a worker took a job into its array\<close>
  | Finish nat             \<comment> \<open>a worker finished its job and its pause\<close>
  | Leave nat              \<comment> \<open>a worker left its loop\<close>
  | Write string           \<comment> \<open>a client or a worker wrote to the FIFO\<close>
  | Signal signal

definition new_jobs :: "shared \<Rightarrow> shared \<Rightarrow> string list" where
  "new_jobs sh sh' = drop (length (fifo_list (queue sh))) (fifo_list (queue sh'))"

inductive step :: "platform \<Rightarrow> daemon \<Rightarrow> event \<Rightarrow> daemon \<Rightarrow> bool" for pl where
  accept: "loop_running (watcher d) \<Longrightarrow> fifo_text d \<noteq> [] \<Longrightarrow> should_run (common d) \<Longrightarrow>
    fifo_read (fifo_text d) = (incoming, rest) \<Longrightarrow>
    socket_cb pl (int (length (threads d))) incoming (watcher d) (common d) (daemon_sys d)
      = Inr (w, sh, s) \<Longrightarrow>
    step pl d (Accept (new_jobs (common d) sh))
      (d\<lparr>common := sh, watcher := w, fifo_text := rest, daemon_sys := s\<rparr>)"
| halt: "loop_running (watcher d) \<Longrightarrow> fifo_text d \<noteq> [] \<Longrightarrow> \<not> should_run (common d) \<Longrightarrow>
    socket_cb pl (int (length (threads d))) ReadError (watcher d) (common d) (daemon_sys d)
      = Inr (w, sh, s) \<Longrightarrow>
    step pl d Stop (d\<lparr>common := sh, watcher := w, daemon_sys := s\<rparr>)"
| take_one: "i < length (threads d) \<Longrightarrow> phase (threads d ! i) = Waits \<Longrightarrow>
    1 \<le> url_count (common d) \<Longrightarrow>
    take_job (common d) (thread_job (threads d ! i)) = Inr (False, sh, j) \<Longrightarrow>
    step pl d (Take i j)
      (d\<lparr>common := sh, threads := (threads d)[i := \<lparr>phase = Works, thread_job = j\<rparr>]\<rparr>)"
| leave: "i < length (threads d) \<Longrightarrow> phase (threads d ! i) = Waits \<Longrightarrow>
    1 \<le> url_count (common d) \<Longrightarrow>
    take_job (common d) (thread_job (threads d ! i)) = Inr (True, sh, j) \<Longrightarrow>
    step pl d (Leave i)
      (d\<lparr>common := sh, threads := (threads d)[i := \<lparr>phase = Gone, thread_job = j\<rparr>]\<rparr>)"
| finish: "i < length (threads d) \<Longrightarrow> phase (threads d ! i) = Works \<Longrightarrow> length j = BUFFER_SIZE \<Longrightarrow>
    step pl d (Finish i) (d\<lparr>threads := (threads d)[i := \<lparr>phase = Waits, thread_job = j\<rparr>]\<rparr>)"
| written: "NUL \<notin> set t \<Longrightarrow> step pl d (Write t) (d\<lparr>fifo_text := fifo_text d @ t\<rparr>)"
| signalled: "0 \<le> fd \<Longrightarrow> nbyte = int (length ''QUIT'') \<Longrightarrow>
    signal_handler signo True fd nbyte (fifo_filename (watcher d)) (common d) (fifo_text d)
      (daemon_sys d) = Inr (sh, p, s) \<Longrightarrow>
    step pl d (Signal signo) (d\<lparr>common := sh, fifo_text := p, daemon_sys := s\<rparr>)"

text \<open>The callback once more, for a signal that arrives between its check and its read: the handler runs
  in the midst of it. (The steps above take the callback and the handler as a whole.)\<close>

definition interrupted_cb :: "platform \<Rightarrow> signal \<Rightarrow> int \<Rightarrow> int \<Rightarrow> daemon \<Rightarrow> daemon res" where
  "interrupted_cb pl signo fd nbyte d =
     (let (run, w, sh) = should_socket_worker_run (int (length (threads d))) (watcher d) (common d) in
      if \<not> run then Inr (d\<lparr>watcher := w, common := sh\<rparr>)
      else
        chk (signal_handler signo True fd nbyte (fifo_filename w) sh (fifo_text d) (daemon_sys d))
          (\<lambda>(sh, p, s).
        let (incoming, rest) = fifo_read p in
        chk (socket_read pl incoming w sh s) (\<lambda>(w, sh, s).
        Inr (d\<lparr>common := sh, watcher := w, fifo_text := rest, daemon_sys := s\<rparr>))))"

inductive_cases step_accept: "step pl d (Accept js) d'"
inductive_cases step_stop: "step pl d Stop d'"
inductive_cases step_take: "step pl d (Take i j) d'"
inductive_cases step_leave: "step pl d (Leave i) d'"
inductive_cases step_finish: "step pl d (Finish i) d'"
inductive_cases step_write: "step pl d (Write t) d'"
inductive_cases step_signal: "step pl d (Signal signo) d'"

text \<open>The daemon when the event loop starts: the queue is empty, and the workers wait, or failed to
  start and are gone.\<close>

definition started :: "daemon \<Rightarrow> bool" where
  "started d \<longleftrightarrow> should_run (common d) \<and> fifo_wf (queue (common d))
     \<and> fifo_list (queue (common d)) = [] \<and> url_count (common d) = 0
     \<and> loop_running (watcher d) \<and> fifo_text d = []
     \<and> (\<forall>t \<in> set (threads d). phase t \<noteq> Works \<and> length (thread_job t) = BUFFER_SIZE)"

section \<open>What the steps do to the shared state\<close>

lemma fifo_enqueue_any:
  assumes wf: "fifo_wf q" and x: "NUL \<notin> set x" and enq: "fifo_enqueue q x = Inr (q', code)"
  shows "code = -1 \<and> q' = q \<or> code = 1 \<and> fifo_wf q' \<and> fifo_list q' = fifo_list q @ [x]
     \<and> capacity q' = capacity q"
proof (cases "occupied q < capacity q")
  case False
  then show ?thesis using enq by (simp add: fifo_enqueue_def)
next
  case True
  have "length x < BUFFER_SIZE"
  proof (rule ccontr)
    assume "\<not> length x < BUFFER_SIZE"
    moreover obtain b where "slot q (q_begin q) = Inr b" "length b = BUFFER_SIZE"
      using slot_ok [of q "q_begin q"] wf by (auto simp: fifo_wf_def)
    ultimately show False
      using enq True
      by (simp add: fifo_enqueue_def strcpy_start_overflow sizeof_pointer_def BUFFER_SIZE_def)
  qed
  then show ?thesis using fifo_enqueue_step [OF wf True x] enq by auto
qed

lemma enqueued_refl: "fifo_wf (queue sh) \<Longrightarrow> enqueued sh [] sh"
  by (simp add: enqueued_def)

lemma enqueue_line_shared:
  assumes "fifo_wf (queue sh)"
    and "enqueue_line pl found n rb cb sh sy = Inr (returned, rb', cb', sh', sy')"
  shows "\<exists>ls. enqueued sh ls sh'"
proof -
  obtain line q code where line: "str_at cb 0 = Inr line"
      "fifo_enqueue (queue sh) line = Inr (q, code)"
    and sh': "sh' = (if code = -1 then sh\<lparr>queue := q\<rparr> else sh\<lparr>queue := q, url_count := url_count sh + 1\<rparr>)"
    using assms(2) unfolding enqueue_line_def
    by (auto simp: chk_eq_Inr_iff Let_def split: if_splits)
  have "NUL \<notin> set line" using str_at_0_D [OF line(1)] by simp
  from fifo_enqueue_any [OF assms(1) this line(2)] show ?thesis
  proof
    assume "code = -1 \<and> q = queue sh"
    then have "enqueued sh [] sh'" using sh' assms(1) by (simp add: enqueued_def)
    then show ?thesis ..
  next
    assume "code = 1 \<and> fifo_wf q \<and> fifo_list q = fifo_list (queue sh) @ [line]
      \<and> capacity q = capacity (queue sh)"
    then have "enqueued sh [line] sh'" using sh' by (simp add: enqueued_def)
    then show ?thesis ..
  qed
qed

lemma socket_line_shared:
  assumes "fifo_wf (queue sh)"
    and "socket_line pl found rb cb sh sy = Inr (returned, rb', cb', sh', sy')"
  shows "\<exists>ls. enqueued sh ls sh'"
  using assms enqueued_refl [OF assms(1)] unfolding socket_line_def
  by (auto simp: chk_eq_Inr_iff Let_def split: if_splits dest: enqueue_line_shared)

lemma socket_loop_shared:
  assumes "fifo_wf (queue sh)"
    and "socket_loop pl rb cb sh sy = Inr (returned, rb', cb', sh', sy')"
  shows "\<exists>ls. enqueued sh ls sh'"
  using assms
proof (induction pl rb cb sh sy rule: socket_loop.induct)
  case (1 pl rb cb sh sy)
  show ?case
  proof (cases "strchr rb 0 newline")
    case (Inl e)
    then show ?thesis using 1(3) by (simp add: socket_loop.simps [of pl rb])
  next
    case (Inr found)
    show ?thesis
    proof (cases found)
      case None
      then show ?thesis
        using 1(2,3) Inr enqueued_refl by (auto simp: socket_loop.simps [of pl rb])
    next
      case (Some i)
      obtain ret rb1 cb1 sh1 sy1 where
        line: "socket_line pl i rb cb sh sy = Inr (ret, rb1, cb1, sh1, sy1)"
        using 1(3) Inr Some
        by (cases "socket_line pl i rb cb sh sy") (auto simp: socket_loop.simps [of pl rb])
      obtain ls where ls: "enqueued sh ls sh1" using socket_line_shared [OF 1(2) line] by blast
      show ?thesis
      proof (cases ret)
        case True
        then show ?thesis using 1(3) Inr Some line ls by (auto simp: socket_loop.simps [of pl rb])
      next
        case False
        then have "socket_loop pl rb1 cb1 sh1 sy1 = Inr (returned, rb', cb', sh', sy')"
          using 1(3) Inr Some line by (simp add: socket_loop.simps [of pl rb])
        moreover have "fifo_wf (queue sh1)" using ls by (simp add: enqueued_def)
        ultimately obtain ls' where "enqueued sh1 ls' sh'"
          using 1(1) Inr Some line False by blast
        then show ?thesis using enqueued_trans [OF ls] by blast
      qed
    qed
  qed
qed

lemma socket_read_shared:
  assumes "fifo_wf (queue sh)" and "socket_read pl incoming w sh sy = Inr (w', sh', sy')"
  shows "\<exists>ls. enqueued sh ls sh'" and "loop_running w' = loop_running w"
proof -
  show "\<exists>ls. enqueued sh ls sh'"
    using assms(2) enqueued_refl [OF assms(1)]
    by (auto simp: socket_read_def chk_eq_Inr_iff split: read_result.splits if_splits
        dest!: socket_loop_shared [OF assms(1)])
  show "loop_running w' = loop_running w"
    using assms(2)
    by (auto simp: socket_read_def chk_eq_Inr_iff split: read_result.splits if_splits)
qed

lemma socket_cb_shared:
  assumes "fifo_wf (queue sh)" and "should_run sh"
    and "socket_cb pl n incoming w sh sy = Inr (w', sh', sy')"
  shows "\<exists>ls. enqueued sh ls sh'" and "loop_running w' = loop_running w"
  using socket_read_shared [OF assms(1), of pl incoming w sy w' sh' sy'] assms(2,3)
  by (simp_all add: socket_cb_def should_socket_worker_run_def)

section \<open>The invariant\<close>

definition staying :: "daemon \<Rightarrow> nat" where
  "staying d = sum_list (map (\<lambda>t. if phase t = Gone then 0 else 1) (threads d))"

text \<open>While the daemon runs, \<open>url_count\<close> is the length of the queue; once it is told to stop, the FIFO
  has something to read, so that the event loop notices; and once the loop has stopped every worker
  that is left has a count to wake up on.\<close>

definition daemon_inv :: "daemon \<Rightarrow> bool" where
  "daemon_inv d \<longleftrightarrow>
     fifo_wf (queue (common d)) \<and> (\<forall>t \<in> set (threads d). length (thread_job t) = BUFFER_SIZE)
     \<and> (should_run (common d) \<longrightarrow> loop_running (watcher d)
          \<and> url_count (common d) = int (length (fifo_list (queue (common d)))))
     \<and> (\<not> should_run (common d) \<and> loop_running (watcher d) \<longrightarrow>
          0 \<le> url_count (common d) \<and> fifo_text d \<noteq> [])
     \<and> (\<not> loop_running (watcher d) \<longrightarrow> int (staying d) \<le> url_count (common d))"

lemma sum_list_replace:
  fixes f :: "'a \<Rightarrow> nat"
  shows "i < length xs \<Longrightarrow> sum_list (map f (xs[i := x])) + f (xs ! i) = sum_list (map f xs) + f x"
proof (induction xs arbitrary: i)
  case (Cons y ys)
  then show ?case by (cases i) auto
qed simp

lemma staying_le: "staying d \<le> length (threads d)"
proof -
  have "sum_list (map (\<lambda>t. if phase t = Gone then 0 else 1) ts) \<le> length ts" for ts
    by (induction ts) auto
  then show ?thesis by (simp add: staying_def)
qed

lemma staying_replace:
  assumes "i < length (threads d)"
  shows "staying (d\<lparr>common := sh, threads := (threads d)[i := t]\<rparr>) + (if phase (threads d ! i) = Gone then 0 else 1)
       = staying d + (if phase t = Gone then 0 else 1)"
  using sum_list_replace [OF assms, of "\<lambda>t. if phase t = Gone then 0 else 1" t]
  by (simp add: staying_def)

lemma started_inv: "started d \<Longrightarrow> daemon_inv d"
  by (simp add: started_def daemon_inv_def)

text \<open>What a worker finds when it is woken up.\<close>

lemma take_job_runs:
  assumes "daemon_inv d" and "should_run (common d)" and "1 \<le> url_count (common d)"
    and "length b = BUFFER_SIZE"
  shows "\<exists>sh j x xs. take_job (common d) b = Inr (False, sh, j) \<and> fifo_list (queue (common d)) = x # xs
     \<and> str_at j 0 = Inr x \<and> length j = BUFFER_SIZE \<and> waiting sh xs"
proof -
  have "fifo_list (queue (common d)) \<noteq> []"
    using assms(1-3) by (auto simp: daemon_inv_def simp del: length_fifo_list)
  then obtain x xs where xs: "fifo_list (queue (common d)) = x # xs" by (auto simp: neq_Nil_conv)
  then have "waiting (common d) (x # xs)"
    using assms(1,2) by (simp add: waiting_def daemon_inv_def)
  from take_job_head [OF this assms(4)] xs show ?thesis by blast
qed

lemma take_job_stops:
  "\<not> should_run sh \<Longrightarrow> take_job sh b = Inr (True, sh\<lparr>url_count := url_count sh - 1\<rparr>, b)"
  by (simp add: take_job_def)

lemma take_job_leave:
  "take_job sh b = Inr (True, sh', j) \<Longrightarrow>
   \<not> should_run sh \<and> sh' = sh\<lparr>url_count := url_count sh - 1\<rparr> \<and> j = b"
  by (auto simp: take_job_def chk_eq_Inr_iff split: if_splits)

text \<open>The two outcomes of the callback.\<close>

lemma socket_cb_stops:
  "\<not> should_run sh \<Longrightarrow> socket_cb pl (int n) incoming w sh sy
     = Inr (w\<lparr>loop_running := False, fifo_linked := False\<rparr>, sh\<lparr>url_count := url_count sh + int n\<rparr>, sy)"
  by (simp add: socket_cb_eq should_socket_worker_run_def)

lemma new_jobs_enqueued:
  "enqueued sh ls sh' \<Longrightarrow> new_jobs sh sh' = ls"
  by (simp add: enqueued_def new_jobs_def)

lemma signal_handler_effect:
  assumes "signal_handler signo True fd nbyte name sh p s = Inr (sh', p', s')"
    and "0 \<le> fd" and "nbyte = int (length ''QUIT'')"
  shows "sh' = sh \<and> p' = p \<or> sh' = sh\<lparr>should_run := False\<rparr> \<and> p' = p @ ''QUIT''"
  using assms
  by (cases signo) (auto simp: signal_handler_def write_fifo_def log_notice_def chk_eq_Inr_iff Let_def)

lemma step_inv:
  assumes inv: "daemon_inv d" and step: "step pl d e d'"
  shows "daemon_inv d'"
  using step
proof cases
  case (accept incoming rest w sh s)
  have "fifo_wf (queue (common d))" using inv by (simp add: daemon_inv_def)
  from socket_cb_shared [OF this accept(5,7)] inv accept show ?thesis
    by (auto simp: daemon_inv_def enqueued_def simp del: length_fifo_list)
next
  case (halt w sh s)
  then show ?thesis
    using inv staying_le [of d] by (auto simp: socket_cb_stops daemon_inv_def staying_def)
next
  case (take_one i sh j)
  have run: "should_run (common d)" using take_one(6) by (auto simp: take_job_def split: if_splits)
  have "length (thread_job (threads d ! i)) = BUFFER_SIZE"
    using inv take_one(3) by (simp add: daemon_inv_def)
  from take_job_runs [OF inv run _ this] take_one
  have "length j = BUFFER_SIZE" "\<exists>xs. waiting sh xs" by auto
  then show ?thesis
    using inv run take_one
    by (auto simp: daemon_inv_def waiting_def dest!: subsetD [OF set_update_subset_insert])
next
  case (leave i sh j)
  note l = take_job_leave [OF leave(6)]
  have "staying d' + 1 = staying d"
    using staying_replace [of i d "\<lparr>phase = Gone, thread_job = j\<rparr>" sh] leave by simp
  then show ?thesis
    using inv leave l
    by (auto simp: daemon_inv_def dest!: subsetD [OF set_update_subset_insert])
next
  case (finish i j)
  have "staying d' = staying d"
    using staying_replace [of i d "\<lparr>phase = Waits, thread_job = j\<rparr>" "common d"] finish by simp
  then show ?thesis
    using inv finish by (auto simp: daemon_inv_def dest!: subsetD [OF set_update_subset_insert])
next
  case (written t)
  then show ?thesis using inv by (auto simp: daemon_inv_def staying_def)
next
  case (signalled fd nbyte signo sh p s)
  from signal_handler_effect [OF signalled(5,3,4)] inv signalled(2) show ?thesis
    by (auto simp: daemon_inv_def staying_def)
qed

section \<open>The contracts of the step relation\<close>

interpretation live: invariant_of "step pl" started daemon_inv
  by unfold_locales (auto intro: started_inv step_inv)

text \<open>The queue is a channel from \<open>Accept\<close> to \<open>Take\<close>.\<close>

definition accepted :: "event \<Rightarrow> string list" where
  "accepted e = (case e of Accept js \<Rightarrow> js | _ \<Rightarrow> [])"

definition taken :: "event \<Rightarrow> string list" where
  "taken e = (case e of Take i j \<Rightarrow> [projr (str_at j 0)] | _ \<Rightarrow> [])"

abbreviation backlog :: "daemon \<Rightarrow> string list" where
  "backlog d \<equiv> fifo_list (queue (common d))"

lemma step_channel:
  assumes inv: "daemon_inv d" and step: "step pl d e d'"
  shows "backlog d @ accepted e = taken e @ backlog d'"
  using step
proof cases
  case (accept incoming rest w sh s)
  have "fifo_wf (queue (common d))" using inv by (simp add: daemon_inv_def)
  from socket_cb_shared(1) [OF this accept(5,7)] obtain ls where ls: "enqueued (common d) ls sh" ..
  then show ?thesis
    using accept(1,2) new_jobs_enqueued [OF ls] by (simp add: accepted_def taken_def enqueued_def)
next
  case (halt w sh s)
  then show ?thesis by (auto simp: socket_cb_stops accepted_def taken_def)
next
  case (take_one i sh j)
  have run: "should_run (common d)" using take_one(6) by (auto simp: take_job_def split: if_splits)
  have "length (thread_job (threads d ! i)) = BUFFER_SIZE"
    using inv take_one(3) by (simp add: daemon_inv_def)
  from take_job_runs [OF inv run take_one(5) this] take_one show ?thesis
    by (auto simp: accepted_def taken_def waiting_def)
next
  case (leave i sh j)
  then show ?thesis using take_job_leave [OF leave(6)] by (auto simp: accepted_def taken_def)
next
  case (signalled fd nbyte signo sh p s)
  from signal_handler_effect [OF signalled(5,3,4)] signalled(1,2) show ?thesis
    by (auto simp: accepted_def taken_def)
qed (auto simp: accepted_def taken_def)

interpretation jobs: channel "step pl" started daemon_inv backlog accepted taken
  by unfold_locales (auto intro: step_channel simp: started_def)

text \<open>After a signal to stop, a bounded number of steps is left: the callback's, and two for each
  worker.\<close>

definition phase_effort :: "phase \<Rightarrow> nat" where
  "phase_effort p = (case p of Waits \<Rightarrow> 1 | Works \<Rightarrow> 2 | Gone \<Rightarrow> 0)"

definition effort :: "daemon \<Rightarrow> nat" where
  "effort d = (if loop_running (watcher d) then 1 else 0)
     + sum_list (map (\<lambda>t. phase_effort (phase t)) (threads d))"

definition leaving :: "event \<Rightarrow> bool" where
  "leaving e = (case e of Stop \<Rightarrow> True | Finish i \<Rightarrow> True | Leave i \<Rightarrow> True | _ \<Rightarrow> False)"

abbreviation closing :: "daemon \<Rightarrow> bool" where
  "closing d \<equiv> \<not> should_run (common d)"

lemma effort_replace:
  assumes "i < length (threads d)" and "phase_effort (phase t) < phase_effort (phase (threads d ! i))"
    and "loop_running w = loop_running (watcher d)"
  shows "effort (d\<lparr>common := sh, watcher := w, threads := (threads d)[i := t]\<rparr>) < effort d"
  using sum_list_replace [OF assms(1), of "\<lambda>t. phase_effort (phase t)" t] assms(2,3)
  by (simp add: effort_def)

lemma effort_zero: "effort d = 0 \<longleftrightarrow> \<not> loop_running (watcher d) \<and> (\<forall>t \<in> set (threads d). phase t = Gone)"
proof -
  have "phase_effort p = 0 \<longleftrightarrow> p = Gone" for p by (cases p) (simp_all add: phase_effort_def)
  then show ?thesis by (simp add: effort_def)
qed

lemma closing_step:
  assumes "closing d" and step: "step pl d e d'"
  shows "closing d' \<and> (if leaving e then effort d' < effort d else effort d' \<le> effort d)"
  using step
proof cases
  case (halt w sh s)
  then show ?thesis by (auto simp: socket_cb_stops effort_def leaving_def)
next
  case (take_one i sh j)
  then show ?thesis using assms(1) by (simp add: take_job_def)
next
  case (leave i sh j)
  then show ?thesis
    using take_job_leave [OF leave(6)] effort_replace [of i d "\<lparr>phase = Gone, thread_job = j\<rparr>" "watcher d" sh]
    by (simp add: leaving_def phase_effort_def)
next
  case (finish i j)
  then show ?thesis
    using assms(1) effort_replace [of i d "\<lparr>phase = Waits, thread_job = j\<rparr>" "watcher d" "common d"]
    by (simp add: leaving_def phase_effort_def)
next
  case (signalled fd nbyte signo sh p s)
  from signal_handler_effect [OF signalled(5,3,4)] signalled(1,2) assms(1) show ?thesis
    by (auto simp: leaving_def effort_def)
qed (use assms(1) in \<open>auto simp: leaving_def effort_def\<close>)

lemma closing_enabled:
  assumes inv: "daemon_inv d" and "closing d" and "0 < effort d"
  shows "\<exists>e d'. leaving e \<and> step pl d e d'"
proof (cases "loop_running (watcher d)")
  case True
  then have "fifo_text d \<noteq> []" using inv assms(2) by (simp add: daemon_inv_def)
  from step.halt [OF True this assms(2) socket_cb_stops [OF assms(2)]]
  show ?thesis by (intro exI [of _ Stop] exI conjI) (auto simp: leaving_def)
next
  case False
  then obtain t where t: "t \<in> set (threads d)" "phase t \<noteq> Gone"
    using assms(3) effort_zero [of d] by auto
  then obtain i where i: "i < length (threads d)" "threads d ! i = t" by (auto simp: in_set_conv_nth)
  have len: "length (thread_job t) = BUFFER_SIZE" using inv t(1) by (simp add: daemon_inv_def)
  show ?thesis
  proof (cases "phase t")
    case Waits
    have "1 \<le> staying d"
    proof -
      have "(if phase t = Gone then 0 else 1) \<in> set (map (\<lambda>t. if phase t = Gone then 0 else (1::nat)) (threads d))"
        using t(1) by auto
      from member_le_sum_list [OF this] t(2) show ?thesis by (simp add: staying_def)
    qed
    then have "1 \<le> url_count (common d)" using inv False by (simp add: daemon_inv_def)
    from step.leave [OF i(1) _ this take_job_stops [OF assms(2)], of pl] i(2) Waits
    show ?thesis by (intro exI [of _ "Leave i"] exI conjI) (auto simp: leaving_def)
  next
    case Works
    then show ?thesis
      using step.finish [OF i(1) _ len, of pl] i(2)
      by (intro exI [of _ "Finish i"] exI conjI) (auto simp: leaving_def)
  qed (use t(2) in simp)
qed

interpretation shutdown: ending "step pl" started daemon_inv closing effort leaving
  by unfold_locales (use closing_step closing_enabled in \<open>fastforce+\<close>)

lemma effort_bound: "effort d \<le> 2 * length (threads d) + 1"
proof -
  have "sum_list (map (\<lambda>t. phase_effort (phase t)) ts) \<le> 2 * length ts" for ts
  proof (induction ts)
    case (Cons t ts)
    then show ?case by (cases "phase t") (simp_all add: phase_effort_def)
  qed simp
  from this [of "threads d"] show ?thesis by (simp add: effort_def)
qed

text \<open>What no step changes: the heap (the workers' own blocks apart), the queue's capacity and the
  number of threads; and a worker that is gone stays so.\<close>

lemma enqueue_line_heap:
  "enqueue_line pl found n rb cb sh sy = Inr (returned, rb', cb', sh', sy') \<Longrightarrow> live sy' = live sy"
  unfolding enqueue_line_def log_warning_def
  by (auto simp: chk_eq_Inr_iff Let_def split: if_splits dest: log_write_heap)

lemma socket_line_heap:
  "socket_line pl found rb cb sh sy = Inr (returned, rb', cb', sh', sy') \<Longrightarrow> live sy' = live sy"
  unfolding socket_line_def log_error_def
  by (auto simp: chk_eq_Inr_iff Let_def split: if_splits dest: log_write_heap enqueue_line_heap)

lemma socket_loop_heap:
  "socket_loop pl rb cb sh sy = Inr (returned, rb', cb', sh', sy') \<Longrightarrow> live sy' = live sy"
proof (induction pl rb cb sh sy rule: socket_loop.induct)
  case (1 pl rb cb sh sy)
  show ?case
  proof (cases "strchr rb 0 newline")
    case (Inl e)
    then show ?thesis using 1(2) by (simp add: socket_loop.simps [of pl rb])
  next
    case (Inr found)
    show ?thesis
    proof (cases found)
      case None
      then show ?thesis using 1(2) Inr by (simp add: socket_loop.simps [of pl rb])
    next
      case (Some i)
      obtain ret rb1 cb1 sh1 sy1 where
        line: "socket_line pl i rb cb sh sy = Inr (ret, rb1, cb1, sh1, sy1)"
        using 1(2) Inr Some
        by (cases "socket_line pl i rb cb sh sy") (auto simp: socket_loop.simps [of pl rb])
      have "live sy' = live sy1"
        using 1(1) [OF Inr Some line refl refl refl refl] 1(2) Inr Some line
        by (cases ret) (auto simp: socket_loop.simps [of pl rb])
      then show ?thesis using socket_line_heap [OF line] by simp
    qed
  qed
qed

lemma socket_cb_heap:
  "socket_cb pl n incoming w sh sy = Inr (w', sh', sy') \<Longrightarrow> live sy' = live sy"
  by (auto simp: socket_cb_eq Let_def chk_eq_Inr_iff split: read_result.splits if_splits prod.splits
      dest!: socket_loop_heap)

lemma signal_handler_heap:
  "signal_handler signo active fd nbyte name sh p s = Inr (sh', p', s') \<Longrightarrow> live s' = live s"
  by (cases signo)
    (auto simp: signal_handler_def write_fifo_def log_notice_def log_error_def Let_def chk_eq_Inr_iff
      split: if_splits dest: log_write_heap)

definition keeps :: "daemon \<Rightarrow> daemon \<Rightarrow> bool" where
  "keeps d d' \<longleftrightarrow> daemon_inv d' \<and> live (daemon_sys d') = live (daemon_sys d)
     \<and> capacity (queue (common d')) = capacity (queue (common d))
     \<and> length (threads d') = length (threads d)"

lemma step_keeps:
  assumes keep: "keeps d\<^sub>0 d" and step: "step pl d e d'"
  shows "keeps d\<^sub>0 d'"
proof -
  have inv: "daemon_inv d" using keep by (simp add: keeps_def)
  have "live (daemon_sys d') = live (daemon_sys d)
      \<and> capacity (queue (common d')) = capacity (queue (common d))
      \<and> length (threads d') = length (threads d)"
    using step
  proof cases
    case (accept incoming rest w sh s)
    have "fifo_wf (queue (common d))" using inv by (simp add: daemon_inv_def)
    from socket_cb_shared(1) [OF this accept(5,7)] socket_cb_heap [OF accept(7)] accept(2)
    show ?thesis by (auto simp: enqueued_def)
  next
    case (halt w sh s)
    then show ?thesis by (auto simp: socket_cb_stops)
  next
    case (take_one i sh j)
    then have "should_run (common d)" "length (thread_job (threads d ! i)) = BUFFER_SIZE"
      using inv by (auto simp: take_job_def daemon_inv_def split: if_splits)
    then show ?thesis
      using take_one by (auto simp: take_job_def fifo_dequeue_def Let_def chk_eq_Inr_iff split: if_splits)
  next
    case (leave i sh j)
    then show ?thesis using take_job_leave [OF leave(6)] by simp
  next
    case (signalled fd nbyte signo sh p s)
    from signal_handler_effect [OF signalled(5,3,4)] signal_handler_heap [OF signalled(5)] signalled(2)
    show ?thesis by auto
  qed simp_all
  then show ?thesis using keep step_inv [OF inv step] by (simp add: keeps_def)
qed

lemma keeps_start: "started d \<Longrightarrow> keeps d d"
  by (simp add: keeps_def started_inv)

interpretation frame: invariant_of "step pl" "\<lambda>d. d = d\<^sub>0 \<and> started d" "keeps d\<^sub>0"
  by unfold_locales (auto intro: keeps_start step_keeps)

text \<open>A daemon that was told to stop while nothing is in the FIFO: nothing wakes up its event loop but
  new text. When, besides, nobody works and nothing is counted, nobody leaves.\<close>

definition deaf :: "daemon \<Rightarrow> bool" where
  "deaf d \<longleftrightarrow> \<not> should_run (common d) \<and> fifo_text d = [] \<and> loop_running (watcher d)"

definition asleep :: "daemon \<Rightarrow> bool" where
  "asleep d \<longleftrightarrow> deaf d \<and> url_count (common d) = 0 \<and> (\<forall>t \<in> set (threads d). phase t \<noteq> Works)"

definition wakes :: "event \<Rightarrow> bool" where
  "wakes e = (case e of Write t \<Rightarrow> t \<noteq> [] | Signal g \<Rightarrow> g = SIGTERM \<or> g = SIGINT | _ \<Rightarrow> False)"

lemma deaf_step:
  assumes deaf: "deaf d" and step: "step pl d e d'" and quiet: "\<not> wakes e"
  shows "deaf d'"
  using step
proof cases
  case (take_one i sh j)
  then show ?thesis using deaf by (simp add: deaf_def take_job_def)
next
  case (leave i sh j)
  then show ?thesis using deaf take_job_leave [OF leave(6)] by (simp add: deaf_def)
next
  case (signalled fd nbyte signo sh p s)
  then show ?thesis
    using deaf quiet
    by (cases signo) (auto simp: deaf_def wakes_def signal_handler_def log_notice_def chk_eq_Inr_iff)
qed (use deaf quiet in \<open>auto simp: deaf_def wakes_def\<close>)

lemma asleep_step:
  assumes sleep: "asleep d" and step: "step pl d e d'" and quiet: "\<not> wakes e"
  shows "asleep d'"
  using step
proof cases
  case (signalled fd nbyte signo sh p s)
  then show ?thesis
    using sleep quiet
    by (cases signo) (auto simp: asleep_def deaf_def wakes_def signal_handler_def log_notice_def
        chk_eq_Inr_iff)
qed (use sleep quiet in \<open>auto simp: asleep_def deaf_def wakes_def\<close>)

interpretation deafness: invariant_of "\<lambda>d e d'. step pl d e d' \<and> \<not> wakes e" deaf deaf
  by unfold_locales (auto intro: deaf_step)

interpretation sleeper: invariant_of "\<lambda>d e d'. step pl d e d' \<and> \<not> wakes e" asleep asleep
  by unfold_locales (auto intro: asleep_step)

text \<open>What cannot happen in between.\<close>

lemma deaf_event: "deaf d \<Longrightarrow> step pl d e d' \<Longrightarrow> e \<noteq> Stop"
  by (erule step.cases) (auto simp: deaf_def)

lemma asleep_event: "asleep d \<Longrightarrow> step pl d e d' \<Longrightarrow> \<not> leaving e"
  by (erule step.cases) (auto simp: asleep_def deaf_def leaving_def)

text \<open>A daemon with one worker, and a command, to evaluate on.\<close>

definition sample_daemon :: daemon where
  "sample_daemon = \<lparr>common = sample_shared, watcher = sample_watcher, fifo_text = [],
     threads = [\<lparr>phase = Waits, thread_job = fresh BUFFER_SIZE\<rparr>], daemon_sys = sample_sys\<rparr>"

lemma sample_started: "started sample_daemon"
  by (simp add: started_def sample_daemon_def sample_watcher_def)

definition sample_text :: string where
  "sample_text = ''FETCH a'' @ [newline]"

section \<open>Properties\<close>

text \<open>
  In every state the daemon can reach while it is told to run, \<open>url_count\<close>, on which the workers
  wait, is exactly the number of jobs in the queue, and the queue holds at most its capacity.
\<close>

lemma running_counts:
  assumes "started d\<^sub>0" and "run (step pl) d\<^sub>0 es d" and "should_run (common d)"
  shows "url_count (common d) = int (length (fifo_list (queue (common d))))
     \<and> length (fifo_list (queue (common d))) \<le> capacity (queue (common d))
     \<and> loop_running (watcher d)"
proof -
  have inv: "daemon_inv d" using live.reachable_inv [OF assms(1,2)] .
  then have "fifo_wf (queue (common d))" by (simp add: daemon_inv_def)
  then show ?thesis using inv assms(3) by (simp add: daemon_inv_def fifo_wf_def)
qed

text \<open>
  However the threads interleave, before and after a signal to stop, the jobs the callback
  enqueued are the jobs the workers took, in the same order and each once, followed by those that are
  still in the queue.
\<close>

lemma jobs_in_order:
  assumes "started d\<^sub>0" and "run (step pl) d\<^sub>0 es d"
  shows "concat (map accepted es) = concat (map taken es) @ fifo_list (queue (common d))"
  by (rule jobs.sent_received [OF assms])

text \<open>
  No wake-up is lost: in every reachable state in which the daemon runs and a job is queued, any
  waiting worker can take it, and gets the job at the head.
\<close>

lemma no_lost_wakeup:
  assumes "started d\<^sub>0" and "run (step pl) d\<^sub>0 es d" and "should_run (common d)"
    and "fifo_list (queue (common d)) = x # xs" and "i < length (threads d)"
    and "phase (threads d ! i) = Waits"
  shows "\<exists>j d'. step pl d (Take i j) d' \<and> str_at j 0 = Inr x
     \<and> fifo_list (queue (common d')) = xs \<and> phase (threads d' ! i) = Works"
proof -
  have inv: "daemon_inv d" using live.reachable_inv [OF assms(1,2)] .
  have len: "length (thread_job (threads d ! i)) = BUFFER_SIZE"
    using inv assms(5) by (simp add: daemon_inv_def)
  have "url_count (common d) = int (length (x # xs))"
    using inv assms(3,4) by (simp add: daemon_inv_def del: length_fifo_list)
  then have count: "1 \<le> url_count (common d)" by simp
  from take_job_runs [OF inv assms(3) count len] assms(4) obtain sh j
    where "take_job (common d) (thread_job (threads d ! i)) = Inr (False, sh, j)"
      "str_at j 0 = Inr x" "waiting sh xs"
    by auto
  then show ?thesis
    using step.take_one [OF assms(5,6) count, of sh j pl] assms(5) by (fastforce simp: waiting_def)
qed

text \<open>
  Once a signal handled between two callbacks has told the daemon to stop it does: whatever else happens, at most two steps
  for each worker and one for the event loop are left, and from every state that can be reached they
  lead to the loop being stopped and every worker gone.
\<close>

lemma shutdown_completes:
  assumes "started d\<^sub>0" and "run (step pl) d\<^sub>0 es d" and "\<not> should_run (common d)"
  shows "(\<forall>fs d'. run (step pl) d fs d' \<longrightarrow> length (filter leaving fs) \<le> 2 * length (threads d) + 1)
     \<and> (\<exists>fs d'. run (step pl) d fs d' \<and> list_all leaving fs \<and> \<not> loop_running (watcher d')
          \<and> (\<forall>t \<in> set (threads d'). phase t = Gone))"
proof -
  have inv: "daemon_inv d" using live.reachable_inv [OF assms(1,2)] .
  have "length (filter leaving fs) \<le> 2 * length (threads d) + 1" if "run (step pl) d fs d'" for fs d'
    using shutdown.run_bounded [OF that inv assms(3)] effort_bound [of d] by simp
  moreover obtain fs d' where "run (step pl) d fs d'" "list_all leaving fs" "effort d' = 0"
    using shutdown.run_completes [OF inv assms(3)] by blast
  ultimately show ?thesis unfolding effort_zero by blast
qed

text \<open>
  C27: A signal to stop that arrives between the installation of the handler and the start of the watcher
  stops nobody: with no \<^verbatim>\<open>QUIT\<close> in the FIFO, the event loop runs on and every worker waits on, until
  somebody writes to the FIFO or a second signal comes.
\<close>

theorem early_signal_unnoticed:
  assumes "started d" and "signo = SIGTERM \<or> signo = SIGINT"
    and "signal_handler signo False fd nbyte name (common d) (fifo_text d) (daemon_sys d) = Inr (sh, p, s)"
    and "run (step pl) (d\<lparr>common := sh, fifo_text := p, daemon_sys := s\<rparr>) es d'"
    and "\<forall>e \<in> set es. \<not> wakes e"
  shows "loop_running (watcher d') \<and> \<not> should_run (common d') \<and> list_all (\<lambda>e. \<not> leaving e) es"
proof -
  let ?d = "d\<lparr>common := sh, fifo_text := p, daemon_sys := s\<rparr>"
  have start: "asleep ?d"
    using assms(1-3) by (auto simp: started_def asleep_def deaf_def signal_handler_def)
  note sleeps = run_restrict [OF assms(4,5)]
  have "asleep d'" using sleeper.reachable_inv [OF start sleeps] .
  moreover have "list_all (\<lambda>e. \<not> leaving e) es"
    by (rule sleeper.run_events [OF sleeps start]) (use asleep_event in blast)
  ultimately show ?thesis by (simp add: asleep_def deaf_def)
qed

theorem early_signal_unnoticed_witness:
  "\<exists>d'. run (step permissive) (sample_daemon\<lparr>common := sample_shared\<lparr>should_run := False\<rparr>\<rparr>)
     [Write [], Signal OtherSignal] d' \<and> loop_running (watcher d')"
proof -
  let ?d = "sample_daemon\<lparr>common := sample_shared\<lparr>should_run := False\<rparr>\<rparr>"
  have handled: "signal_handler SIGINT False 3 4 [] (common sample_daemon) (fifo_text sample_daemon)
      (daemon_sys sample_daemon) = Inr (sample_shared\<lparr>should_run := False\<rparr>, [], sample_sys)"
    by (simp add: signal_handler_def sample_daemon_def)
  have d: "sample_daemon\<lparr>common := sample_shared\<lparr>should_run := False\<rparr>, fifo_text := [],
      daemon_sys := sample_sys\<rparr> = ?d"
    by (simp add: sample_daemon_def)
  have "step permissive ?d (Write []) ?d"
    using step.written [of "[]" permissive ?d] by (simp add: sample_daemon_def)
  moreover have "step permissive ?d (Signal OtherSignal) ?d"
    using step.signalled [of 3 4 OtherSignal ?d "common ?d" "fifo_text ?d" "daemon_sys ?d" permissive]
    by (simp add: signal_handler_def sample_daemon_def)
  ultimately have run: "run (step permissive) ?d [Write [], Signal OtherSignal] ?d"
    by (simp add: run_Cons) blast
  have quiet: "\<forall>e \<in> set [Write [], Signal OtherSignal]. \<not> wakes e" by (simp add: wakes_def)
  from early_signal_unnoticed [OF sample_started _ handled, unfolded d, OF _ run quiet] run
  show ?thesis by blast
qed

text \<open>
  A signal to stop that arrives inside the callback, between its check of \<^verbatim>\<open>should_run\<close> and its read, is
  lost when what is in the FIFO fits one read: the callback itself reads the \<^verbatim>\<open>QUIT\<close> that was to wake it
  up, and the event loop runs on until somebody writes to the FIFO or another signal comes.
\<close>

lemma signal_in_callback_lost:
  assumes "started d\<^sub>0" and "run (step pl) d\<^sub>0 es d" and "should_run (common d)"
    and "length (fifo_text d) + length ''QUIT'' < BUFFER_SIZE"
    and "signo = SIGTERM \<or> signo = SIGINT" and "0 \<le> fd" and "nbyte = int (length ''QUIT'')"
    and "interrupted_cb pl signo fd nbyte d = Inr d\<^sub>1"
    and "run (step pl) d\<^sub>1 fs d\<^sub>2" and "\<forall>e \<in> set fs. \<not> wakes e"
  shows "loop_running (watcher d\<^sub>2) \<and> \<not> should_run (common d\<^sub>2) \<and> Stop \<notin> set fs"
proof -
  have inv: "fifo_wf (queue (common d))" "loop_running (watcher d)"
    using live.reachable_inv [OF assms(1,2)] assms(3) by (simp_all add: daemon_inv_def)
  let ?sh = "(common d)\<lparr>should_run := False\<rparr>" let ?p = "fifo_text d @ ''QUIT''"
  have handled: "signal_handler signo True fd nbyte (fifo_filename (watcher d)) (common d) (fifo_text d)
      (daemon_sys d) = Inr (?sh, ?p, daemon_sys d)"
    using assms(5-7) by (auto simp: signal_handler_def write_fifo_def)
  have read: "fifo_read ?p = (ReadBytes ?p, [])"
    using assms(4) by (simp add: fifo_read_def)
  obtain w sh s where cb: "socket_read pl (ReadBytes ?p) (watcher d) ?sh (daemon_sys d) = Inr (w, sh, s)"
      "d\<^sub>1 = d\<lparr>common := sh, watcher := w, fifo_text := [], daemon_sys := s\<rparr>"
    using assms(8) assms(3)
    by (auto simp: interrupted_cb_def should_socket_worker_run_def handled read chk_eq_Inr_iff)
  have "fifo_wf (queue ?sh)" using inv(1) by simp
  from socket_read_shared [OF this cb(1)] inv(2) have deaf: "deaf d\<^sub>1"
    by (auto simp: cb(2) deaf_def enqueued_def)
  note quiet = run_restrict [OF assms(9,10)]
  have "deaf d\<^sub>2" using deafness.reachable_inv [OF deaf quiet] .
  moreover have "list_all (\<lambda>e. e \<noteq> Stop) fs"
    by (rule deafness.run_events [OF quiet deaf]) (use deaf_event in blast)
  ultimately show ?thesis by (auto simp: deaf_def list_all_iff)
qed

end
