(* ===== verification/Interleaving.thy ===== *)
theory Interleaving
  imports Protocol
begin

text \<open>
  The threads of \<^verbatim>\<open>src/src/queral.c\<close> once more, in the steps between which the kernel may switch:
  \<open>socket_cb\<close> is cut at its critical sections and its read, so that workers take jobs while a chunk
  is being enqueued and a signal may arrive at any place of the callback; what a worker writes into
  the FIFO is computed from its job; the FIFO holds \<open>room\<close> bytes and a write waits until there is
  room; \<open>signal_handler\<close> waits for a mutex its own thread holds and for room in the FIFO. Only the
  main thread is interrupted, by the signal masks of \<open>create_thread\<close>.
\<close>

section \<open>The signal masks of the threads\<close>

text \<open>\<open>create_thread\<close> for the mask of the calling thread and what \<^verbatim>\<open>pthread_create\<close> returns: the error,
  the mask the new thread inherits, and the mask of the caller behind it.\<close>

definition create_thread :: "int \<Rightarrow> signal set \<Rightarrow> int \<times> signal set option \<times> signal set" where
  "create_thread answer sigmask =
     (let fullsigset = UNIV :: signal set; (oldsigset, sigmask) = (sigmask, fullsigset);
          error = answer; inherited = (if error = 0 then Some sigmask else None);
          sigmask = oldsigset
      in (error, inherited, sigmask))"

text \<open>The masks of the threads that the loop of \<^verbatim>\<open>main\<close> creates.\<close>

fun create_threads :: "(nat \<Rightarrow> int) \<Rightarrow> nat list \<Rightarrow> signal set \<Rightarrow> signal set option list \<times> signal set" where
  "create_threads answers [] sigmask = ([], sigmask)"
| "create_threads answers (i # is) sigmask =
     (let (error, inherited, sigmask) = create_thread (answers i) sigmask;
          (rest, sigmask) = create_threads answers is sigmask
      in (inherited # rest, sigmask))"

text \<open>A signal to the process goes to a thread that does not block it: \<open>None\<close> is the main thread.\<close>

definition may_interrupt :: "signal \<Rightarrow> signal set option list \<times> signal set \<Rightarrow> nat option \<Rightarrow> bool" where
  "may_interrupt g masks t \<longleftrightarrow>
     (case t of
        None \<Rightarrow> g \<notin> snd masks
      | Some i \<Rightarrow> i < length (fst masks) \<and> (\<exists>m. fst masks ! i = Some m \<and> g \<notin> m))"

lemma create_threads_masks:
  "create_threads answers is sigmask
     = (map (\<lambda>i. if answers i = 0 then Some UNIV else None) is, sigmask)"
  by (induction "is") (simp_all add: create_thread_def)

section \<open>What a worker writes\<close>

text \<open>The texts \<open>update_loop\<close> hands to \<open>write_fifo\<close>, and those of a whole round on the job \<open>x\<close>.\<close>

fun page_texts :: "string option list \<Rightarrow> int \<Rightarrow> string list" where
  "page_texts [] n = []"
| "page_texts (page # rest) n =
     (if 0 < n then
        (case page of
           None \<Rightarrow> []
         | Some url \<Rightarrow>
             if 6 + length url + 1 \<le> BUFFER_SIZE
             then (cache_command url @ [newline]) # page_texts rest (n - 1)
             else page_texts rest (n - 1))
      else [])"

definition round_texts :: "action_slot list option \<Rightarrow> string \<Rightarrow> string list" where
  "round_texts acts x =
     (case parse_job x of
        (UPDATE, name) \<Rightarrow>
          (case find_action acts name of
             Inr (Some a) \<Rightarrow>
               page_texts (case refresh_list a of None \<Rightarrow> [] | Some l \<Rightarrow> l) (action_count a)
           | _ \<Rightarrow> [])
      | _ \<Rightarrow> [])"

text \<open>Only an \<^verbatim>\<open>UPDATE\<close> writes, and it writes these texts.\<close>

lemma update_loop_texts:
  assumes "fifo_takes_all out" and "str_at b 0 = Inr (CACHE_COMMAND @ '' '' @ x)" and "length b = BUFFER_SIZE"
    and "\<forall>u. Some u \<in> set pages \<longrightarrow> NUL \<notin> set u"
    and "update_loop out g 6 pages n b p s = Inr (b', p', s')"
  shows "p' = p @ concat (page_texts pages n)"
  using assms(2-)
proof (induction pages arbitrary: n b p s x)
  case Nil
  then show ?case by (simp split: if_splits)
next
  case (Cons page rest)
  let ?pre = "CACHE_COMMAND @ '' ''"
  have pre: "length ?pre = 6" "NUL \<notin> set ?pre" using CACHE_COMMAND_chars by simp_all
  show ?case
  proof (cases "0 < n \<and> page \<noteq> None")
    case True
    then obtain url where url: "page = Some url" "0 < n" by auto
    obtain b1 where b1: "put_char b (length ?pre) NUL = Inr b1" "str_at b1 0 = Inr ?pre"
        "length b1 = BUFFER_SIZE"
      using put_char_cut [of b ?pre x] Cons.prems(1,2) by auto
    have nul: "NUL \<notin> set url" and rest: "\<forall>u. Some u \<in> set rest \<longrightarrow> NUL \<notin> set u"
      using Cons.prems(3) url(1) by simp_all
    show ?thesis
    proof (cases "6 + length url + 1 \<le> BUFFER_SIZE")
      case fits: True
      then obtain b2 where b2: "strncat b1 url (length url) = Inr b2" "str_at b2 0 = Inr (?pre @ url)"
          "length b2 = BUFFER_SIZE"
        using strcat_at [OF b1(2) nul] b1(3) pre(1) by (auto simp: strncat_def)
      obtain b3 where b3: "strcat b2 [newline] = Inr b3"
        using Cons.prems(4) url fits b1(1) b2(1) pre(1) by (auto simp: chk_eq_Inr_iff)
      then have "length (?pre @ url) + 1 < BUFFER_SIZE"
        using strcat_at_overflow [OF b2(2), of "[newline]"] b2(3) by (cases "length (?pre @ url) + 1 < BUFFER_SIZE") auto
      then have b3': "str_at b3 0 = Inr (?pre @ url @ [newline])" "length b3 = BUFFER_SIZE"
        using strcat_at [OF b2(2), of "[newline]"] b3 b2(3) by auto
      have "update_loop out g 6 rest (n - 1) b3 (p @ ?pre @ url @ [newline]) s = Inr (b', p', s')"
        using Cons.prems(4) url fits b1(1) b2(1) b3 b3'(1) pre(1) write_fifo_ok [OF assms(1)]
        by (simp add: chk_eq_Inr_iff)
      from Cons.IH [OF _ b3'(2) rest this, of "url @ [newline]"] b3'(1) url fits show ?thesis
        by (simp add: cache_command_def)
    next
      case False
      then obtain s1 where "update_loop out g 6 rest (n - 1) b1 p s1 = Inr (b', p', s')"
        using Cons.prems(4) url b1(1) pre(1) by (auto simp: chk_eq_Inr_iff)
      from Cons.IH [OF _ b1(3) rest this, of "[]"] b1(2) url False show ?thesis by simp
    qed
  next
    case False
    then show ?thesis using Cons.prems(4) by (auto split: if_splits)
  qed
qed


definition clean_pages :: "action_slot list option \<Rightarrow> bool" where
  "clean_pages acts \<longleftrightarrow> (\<forall>name a l u. find_action acts name = Inr (Some a) \<and> refresh_list a = Some l
     \<and> Some u \<in> set l \<longrightarrow> NUL \<notin> set u)"

lemma update_job_texts:
  assumes "fifo_takes_all out" and "locals_ok out loc" and "str_at (job loc) 0 = Inr name"
    and "clean_pages (actions g)" and "parse_job x = (UPDATE, name)"
    and "update_job out g w loc wd = Inr (w', loc', wd')"
  shows "pipe wd' = pipe wd @ concat (round_texts (actions g) x)"
proof -
  obtain found where found: "find_action (actions g) name = Inr found"
    using assms(3,6) by (auto simp: update_job_def chk_eq_Inr_iff)
  show ?thesis
  proof (cases found)
    case None
    then show ?thesis
      using assms(3,5,6) found by (auto simp: update_job_def chk_eq_Inr_iff round_texts_def)
  next
    case (Some a)
    have "length (new_command loc) = BUFFER_SIZE" using assms(2) by (simp add: locals_ok_def)
    then obtain b1 b2 where b: "strcpy (new_command loc) 0 CACHE_COMMAND = Inr b1"
        "strcat b1 '' '' = Inr b2" "strlen b2 0 = Inr 6" "str_at b2 0 = Inr (CACHE_COMMAND @ '' '')"
        "length b2 = BUFFER_SIZE"
      by (rule cache_prefix)
    let ?pages = "case refresh_list a of None \<Rightarrow> [] | Some l \<Rightarrow> l"
    obtain b' p' s' where loop: "update_loop out g 6 ?pages (action_count a) b2 (pipe wd) (process wd)
          = Inr (b', p', s')" "pipe wd' = p'"
      using assms(3,6) found Some b(1-3) by (auto simp: update_job_def chk_eq_Inr_iff split: if_splits)
    have "\<forall>u. Some u \<in> set ?pages \<longrightarrow> NUL \<notin> set u"
      using assms(4) found Some by (cases "refresh_list a") (auto simp: clean_pages_def)
    from update_loop_texts [OF assms(1) _ b(5) this loop(1), of "[]"] b(4) loop(2)
    show ?thesis using assms(5) found Some by (simp add: round_texts_def)
  qed
qed

lemma quiet_rounds:
  "fetch_job out w loc wd = Inr (w', loc', wd') \<Longrightarrow> pipe wd' = pipe wd"
  "cache_job out g w loc wd = Inr (w', loc', wd') \<Longrightarrow> pipe wd' = pipe wd"
  by (auto simp: fetch_job_def cache_job_def chk_eq_Inr_iff Let_def split: if_splits)

lemma operate_texts:
  assumes "fifo_takes_all out" and "locals_ok out loc" and "str_at (job loc) 0 = Inr x"
    and "clean_pages (actions g)" and "operate pl out g w loc wd = Inr (w', loc', wd')"
  shows "pipe wd' = pipe wd @ concat (round_texts (actions g) x)"
proof -
  have "length x < length (command loc)"
    using assms(2) str_at_0_D [OF assms(3)] by (simp add: locals_ok_def)
  from get_command_total [OF assms(3) this, of pl] assms(5)
  obtain c j where cmd: "get_command pl (command loc) (job loc) = Inr (fst (parse_job x), c, j)"
      "str_at j 0 = Inr (snd (parse_job x))" "length j = length (job loc)" "length c = length (command loc)"
    by (auto simp: operate_def chk_eq_Inr_iff split: if_splits)
  let ?loc = "loc\<lparr>command := c, job := j\<rparr>"
  have ok: "locals_ok out ?loc" using assms(2) cmd(3,4) by (simp add: locals_ok_def)
  show ?thesis
  proof (cases "fst (parse_job x)")
    case UPDATE
    then have "update_job out g w ?loc wd = Inr (w', loc', wd')"
      using assms(5) cmd(1) by (simp add: operate_def)
    then show ?thesis
      using update_job_texts [OF assms(1) ok _ assms(4)] cmd(2) UPDATE by (cases "parse_job x") simp
  next
    case UNDEFINED
    then show ?thesis
      using assms(5) cmd(1)
      by (cases "parse_job x") (auto simp: operate_def round_texts_def chk_eq_Inr_iff)
  qed (use assms(5) cmd(1) in \<open>cases "parse_job x";
      auto simp: operate_def round_texts_def dest: quiet_rounds\<close>)+
qed


lemma worker_round_texts:
  assumes "fifo_takes_all out" and "waiting sh (x # xs)" and "locals_ok out loc" and "clean_pages (actions g)"
    and "worker_round pl out g random sh w loc wd = Inr (False, sh', w', loc', wd')"
  shows "pipe wd' = pipe wd @ concat (round_texts (actions g) x)"
proof -
  obtain sh1 j where j: "take_job sh (job loc) = Inr (False, sh1, j)" "str_at j 0 = Inr x"
      "length j = BUFFER_SIZE"
    using take_job_head [OF assms(2), of "job loc"] assms(3) by (auto simp: locals_ok_def)
  let ?loc = "loc\<lparr>job := j\<rparr>"
  obtain w1 loc1 where "operate pl out g w ?loc wd = Inr (w1, loc1, wd')"
    using assms(5) j(1) by (auto simp: worker_round_def chk_eq_Inr_iff)
  moreover have "locals_ok out ?loc" "str_at (job ?loc) 0 = Inr x"
    using assms(3) j by (simp_all add: locals_ok_def)
  ultimately show ?thesis using operate_texts [OF assms(1) _ _ assms(4)] by blast
qed

section \<open>The callback in steps\<close>

text \<open>What \<open>socket_read\<close> does before its loop, and one turn of the loop or, when no line is left, what
  comes behind it. The flag says whether the callback goes on.\<close>

definition socket_fill :: "string \<Rightarrow> socket_worker_t \<Rightarrow> socket_worker_t res" where
  "socket_fill bytes w =
     chk (store (read_buffer w) 0 (cells bytes)) (\<lambda>rb.
     chk (put_char rb (length bytes) NUL) (\<lambda>rb.
     Inr (w\<lparr>read_buffer := rb\<rparr>)))"

definition socket_turn ::
  "platform \<Rightarrow> socket_worker_t \<Rightarrow> shared \<Rightarrow> sys \<Rightarrow> (bool \<times> socket_worker_t \<times> shared \<times> sys) res" where
  "socket_turn pl w sh sy =
     (case strchr (read_buffer w) 0 newline of
        Inl e \<Rightarrow> Inl e
      | Inr (Some found) \<Rightarrow>
          chk (socket_line pl found (read_buffer w) (cache_buffer w) sh sy)
            (\<lambda>(returned, rb, cb, sh, sy).
          Inr (\<not> returned, w\<lparr>read_buffer := rb, cache_buffer := cb\<rparr>, sh, sy))
      | Inr None \<Rightarrow>
          chk (str_at (read_buffer w) 0) (\<lambda>rest.
          if 0 < length rest then
            chk (strcpy (cache_buffer w) 0 rest) (\<lambda>cb.
            Inr (False, w\<lparr>cache_buffer := cb\<rparr>, sh, sy))
          else Inr (False, w, sh, sy)))"

text \<open>Whether the next turn reaches the critical section of its enqueue.\<close>

definition turn_locks :: "socket_worker_t \<Rightarrow> bool" where
  "turn_locks w =
     (case strchr (read_buffer w) 0 newline of
        Inr (Some found) \<Rightarrow>
          (case (strlen (read_buffer w) 0, strlen (read_buffer w) found, strlen (cache_buffer w) 0) of
             (Inr read_len, Inr found_len, Inr cache_len) \<Rightarrow>
               cache_len + (read_len - found_len + 1) \<le> BUFFER_SIZE
           | _ \<Rightarrow> False)
      | _ \<Rightarrow> False)"

section \<open>The machine\<close>

text \<open>Where the main thread is, from the start of the watcher on: waiting in the event loop; in \<open>socket_cb\<close>
  behind the critical section of \<open>should_socket_worker_run\<close> but before its \<^verbatim>\<open>return should_run\<close>; before
  the read; before a turn of the loop; behind the event loop; and without return in \<open>signal_handler\<close>,
  waiting for the mutex or in the write to the FIFO. \<open>Faulted\<close> stands for a step whose behaviour ISO C
  leaves undefined.\<close>

datatype spot =
    Polling | Unlocked | Reading | Scanning | LoopEnded
  | SelfBlocked | PipeBlocked | Faulted fault

text \<open>Where a worker is: waiting for a job; in its round, with the texts it has yet to write; in
  \<^verbatim>\<open>write\<close>; behind its loop.\<close>

datatype duty = Waiting | Working "string list" | Writing string "string list" | Left

record crewman =
  duty :: duty
  job_array :: cbuf

record machine =
  shares :: shared
  sock :: socket_worker_t
  spot :: spot
  fifo_bytes :: string
  crew :: "crewman list"
  log_sys :: sys

datatype occurrence =
    Checks | Enters | Reads | Turns "string list"
  | Takes nat cbuf | Leaves nat | Opens nat | Puts nat | Ends nat
  | ClientPuts string | Signalled signal | SignalledInside signal

definition stop_signal :: "signal \<Rightarrow> bool" where
  "stop_signal g \<longleftrightarrow> g = SIGTERM \<or> g = SIGINT"

text \<open>Nobody holds the mutex between two steps but a handler that does not come back.\<close>

definition lock_free :: "machine \<Rightarrow> bool" where
  "lock_free m \<longleftrightarrow> spot m \<in> {Polling, Unlocked, Reading, Scanning, LoopEnded}"

text \<open>Whether the next step of the main thread has a critical section, which a signal may interrupt.\<close>

definition locks_next :: "machine \<Rightarrow> bool" where
  "locks_next m \<longleftrightarrow> spot m = Polling \<and> loop_running (sock m) \<and> fifo_bytes m \<noteq> []
     \<or> spot m = Scanning \<and> turn_locks (sock m)"

text \<open>The result of a step of the main thread, or its fault.\<close>

definition outcome :: "machine \<Rightarrow> 'a res \<Rightarrow> ('a \<Rightarrow> machine) \<Rightarrow> machine" where
  "outcome m r f = (case r of Inl e \<Rightarrow> m\<lparr>spot := Faulted e\<rparr> | Inr x \<Rightarrow> f x)"

definition new_lines :: "machine \<Rightarrow> machine \<Rightarrow> string list" where
  "new_lines m m' = new_jobs (shares m) (shares m')"

definition after_check :: "machine \<Rightarrow> machine" where
  "after_check m =
     (let (run, w, sh) = should_socket_worker_run (int (length (crew m))) (sock m) (shares m)
      in m\<lparr>shares := sh, sock := w, spot := (if run then Unlocked else LoopEnded)\<rparr>)"

definition after_read :: "machine \<Rightarrow> machine" where
  "after_read m =
     (case fifo_read (fifo_bytes m) of
        (ReadError, rest) \<Rightarrow> m\<lparr>spot := Polling, fifo_bytes := rest\<rparr>
      | (ReadBytes bytes, rest) \<Rightarrow>
          if bytes = [] then m\<lparr>spot := Polling, fifo_bytes := rest\<rparr>
          else outcome m (socket_fill bytes (sock m))
                 (\<lambda>w. m\<lparr>sock := w, spot := Scanning, fifo_bytes := rest\<rparr>))"

definition after_turn :: "platform \<Rightarrow> machine \<Rightarrow> machine" where
  "after_turn pl m =
     outcome m (socket_turn pl (sock m) (shares m) (log_sys m)) (\<lambda>(goes_on, w, sh, s).
       m\<lparr>shares := sh, sock := w, spot := (if goes_on then Scanning else Polling), log_sys := s\<rparr>)"

text \<open>The handler outside the critical sections of its thread. The name of the FIFO can be opened until the
  end of the event loop unlinks it (the watcher's \<^verbatim>\<open>active\<close> is not reset); \<^verbatim>\<open>write\<close> waits for room.\<close>

definition after_signal :: "nat \<Rightarrow> signal \<Rightarrow> machine \<Rightarrow> machine" where
  "after_signal room g m =
     (if stop_signal g \<and> fifo_linked (sock m) \<and> room < length (fifo_bytes m) + length ''QUIT''
      then m\<lparr>shares := (shares m)\<lparr>should_run := False\<rparr>, spot := PipeBlocked\<rparr>
      else
        outcome m
          (signal_handler g True (if fifo_linked (sock m) then 0 else -1) (int (length ''QUIT''))
             (fifo_filename (sock m)) (shares m) (fifo_bytes m) (log_sys m))
          (\<lambda>(sh, p, s). m\<lparr>shares := sh, fifo_bytes := p, log_sys := s\<rparr>))"

text \<open>A worker in its round, and the steps.\<close>

definition reassign :: "nat \<Rightarrow> duty \<Rightarrow> cbuf \<Rightarrow> machine \<Rightarrow> machine" where
  "reassign i d j m = m\<lparr>crew := (crew m)[i := \<lparr>duty = d, job_array = j\<rparr>]\<rparr>"

definition crew_at :: "machine \<Rightarrow> nat \<Rightarrow> duty \<Rightarrow> bool" where
  "crew_at m i d \<longleftrightarrow> i < length (crew m) \<and> duty (crew m ! i) = d"

inductive fine ::
  "platform \<Rightarrow> nat \<Rightarrow> action_slot list option \<Rightarrow> machine \<Rightarrow> occurrence \<Rightarrow> machine \<Rightarrow> bool"
  for pl room acts where
  checks: "spot m = Polling \<Longrightarrow> loop_running (sock m) \<Longrightarrow> fifo_bytes m \<noteq> [] \<Longrightarrow>
    fine pl room acts m Checks (after_check m)"
| enters: "spot m = Unlocked \<Longrightarrow>
    fine pl room acts m Enters (m\<lparr>spot := (if should_run (shares m) then Reading else Polling)\<rparr>)"
| reads: "spot m = Reading \<Longrightarrow> fine pl room acts m Reads (after_read m)"
| turns: "spot m = Scanning \<Longrightarrow>
    fine pl room acts m (Turns (new_lines m (after_turn pl m))) (after_turn pl m)"
| takes: "lock_free m \<Longrightarrow> crew_at m i Waiting \<Longrightarrow> 1 \<le> url_count (shares m) \<Longrightarrow>
    take_job (shares m) (job_array (crew m ! i)) = Inr (False, sh, j) \<Longrightarrow> str_at j 0 = Inr x \<Longrightarrow>
    fine pl room acts m (Takes i j) (reassign i (Working (round_texts acts x)) j (m\<lparr>shares := sh\<rparr>))"
| leaves: "lock_free m \<Longrightarrow> crew_at m i Waiting \<Longrightarrow> 1 \<le> url_count (shares m) \<Longrightarrow>
    take_job (shares m) (job_array (crew m ! i)) = Inr (True, sh, j) \<Longrightarrow>
    fine pl room acts m (Leaves i) (reassign i Left j (m\<lparr>shares := sh\<rparr>))"
| opens: "crew_at m i (Working (t # ts)) \<Longrightarrow>
    fine pl room acts m (Opens i)
      (reassign i (if fifo_linked (sock m) then Writing t ts else Working ts) (job_array (crew m ! i)) m)"
| puts: "crew_at m i (Writing t ts) \<Longrightarrow> length (fifo_bytes m) + length t \<le> room \<Longrightarrow>
    fine pl room acts m (Puts i)
      (reassign i (Working ts) (job_array (crew m ! i)) (m\<lparr>fifo_bytes := fifo_bytes m @ t\<rparr>))"
| ends: "crew_at m i (Working []) \<Longrightarrow> length j = BUFFER_SIZE \<Longrightarrow>
    fine pl room acts m (Ends i) (reassign i Waiting j m)"
| client_puts: "NUL \<notin> set t \<Longrightarrow> length (fifo_bytes m) + length t \<le> room \<Longrightarrow>
    fine pl room acts m (ClientPuts t) (m\<lparr>fifo_bytes := fifo_bytes m @ t\<rparr>)"
| signalled: "lock_free m \<Longrightarrow> fine pl room acts m (Signalled g) (after_signal room g m)"
| signalled_inside: "locks_next m \<Longrightarrow> stop_signal g \<Longrightarrow>
    fine pl room acts m (SignalledInside g) (m\<lparr>spot := SelfBlocked\<rparr>)"

inductive_cases fine_enters: "fine pl room acts m Enters m'"

text \<open>The machine that starts as the daemon \<open>d\<close> of theory \<open>Protocol\<close>, and back.\<close>

definition machine_of :: "daemon \<Rightarrow> machine" where
  "machine_of d =
     \<lparr>shares = common d, sock = watcher d, spot = Polling, fifo_bytes = fifo_text d,
      crew = map (\<lambda>t. \<lparr>duty = (if phase t = Gone then Left else Waiting), job_array = thread_job t\<rparr>) (threads d),
      log_sys = daemon_sys d\<rparr>"

definition daemon_of :: "machine \<Rightarrow> daemon" where
  "daemon_of m =
     \<lparr>common = shares m, watcher = sock m, fifo_text = fifo_bytes m,
      threads = map (\<lambda>c. \<lparr>phase = (case duty c of Waiting \<Rightarrow> Waits | Left \<Rightarrow> Gone | _ \<Rightarrow> Works),
                           thread_job = job_array c\<rparr>) (crew m),
      daemon_sys = log_sys m\<rparr>"


section \<open>The steps of the callback make up the callback\<close>

text \<open>\<open>socket_rest\<close> is \<open>socket_read\<close> behind its loop.\<close>

definition socket_rest ::
  "socket_worker_t \<Rightarrow> bool \<Rightarrow> cbuf \<Rightarrow> cbuf \<Rightarrow> shared \<Rightarrow> sys \<Rightarrow> (socket_worker_t \<times> shared \<times> sys) res" where
  "socket_rest w returned rb cb sh sy =
     (if returned then Inr (w\<lparr>read_buffer := rb, cache_buffer := cb\<rparr>, sh, sy)
      else
        chk (str_at rb 0) (\<lambda>rest.
        if 0 < length rest then
          chk (strcpy cb 0 rest) (\<lambda>cb.
          Inr (w\<lparr>read_buffer := rb, cache_buffer := cb\<rparr>, sh, sy))
        else Inr (w\<lparr>read_buffer := rb, cache_buffer := cb\<rparr>, sh, sy)))"

definition socket_turns ::
  "platform \<Rightarrow> socket_worker_t \<Rightarrow> shared \<Rightarrow> sys \<Rightarrow> (socket_worker_t \<times> shared \<times> sys) res" where
  "socket_turns pl w sh sy =
     chk (socket_loop pl (read_buffer w) (cache_buffer w) sh sy)
       (\<lambda>(returned, rb, cb, sh, sy). socket_rest w returned rb cb sh sy)"

lemma socket_rest_buffers [simp]:
  "socket_rest (w\<lparr>read_buffer := x\<rparr>) = socket_rest w" "socket_rest (w\<lparr>cache_buffer := x\<rparr>) = socket_rest w"
  by (intro ext; simp add: socket_rest_def cong: if_cong)+

lemma socket_read_turns:
  "bytes \<noteq> [] \<Longrightarrow> socket_read pl (ReadBytes bytes) w sh sy
     = chk (socket_fill bytes w) (\<lambda>w. socket_turns pl w sh sy)"
  unfolding socket_read_def socket_rest_def [symmetric] socket_fill_def socket_turns_def
  by (cases "store (read_buffer w) 0 (cells bytes)"; cases "put_char (projr (store (read_buffer w) 0 (cells bytes))) (length bytes) NUL")
    simp_all

lemma socket_turns_turn:
  "socket_turns pl w sh sy
   = chk (socket_turn pl w sh sy) (\<lambda>(goes_on, w, sh, sy).
       if goes_on then socket_turns pl w sh sy else Inr (w, sh, sy))"
proof (cases "strchr (read_buffer w) 0 newline")
  case (Inl e)
  then show ?thesis by (simp add: socket_turns_def socket_turn_def socket_loop.simps [of pl "read_buffer w"])
next
  case (Inr found)
  show ?thesis
  proof (cases found)
    case None
    then show ?thesis
      using Inr
      by (cases "str_at (read_buffer w) 0"; cases "strcpy (cache_buffer w) 0 (projr (str_at (read_buffer w) 0))")
        (simp_all add: socket_turns_def socket_turn_def socket_rest_def socket_loop.simps [of pl "read_buffer w"])
  next
    case (Some i)
    then show ?thesis
      using Inr
      by (cases "socket_line pl i (read_buffer w) (cache_buffer w) sh sy")
        (auto simp: socket_turns_def socket_turn_def socket_loop.simps [of pl "read_buffer w"]
          socket_rest_def [of _ True])
  qed
qed

lemma socket_turn_shrinks:
  "socket_turn pl w sh sy = Inr (True, w', sh', sy') \<Longrightarrow>
   text_length (read_buffer w') < text_length (read_buffer w)"
  by (auto simp: socket_turn_def chk_eq_Inr_iff dest: socket_line_shrinks
      split: sum.splits option.splits if_splits)

text \<open>The state to which the turns lead, and the run of the main thread alone.\<close>

definition after_turns :: "platform \<Rightarrow> machine \<Rightarrow> machine \<Rightarrow> bool" where
  "after_turns pl m m' \<longleftrightarrow>
     (case socket_turns pl (sock m) (shares m) (log_sys m) of
        Inl e \<Rightarrow> spot m' = Faulted e
      | Inr (w, sh, s) \<Rightarrow> m' = m\<lparr>shares := sh, sock := w, spot := Polling, log_sys := s\<rparr>)"

lemma turns_run:
  "spot m = Scanning \<Longrightarrow> \<exists>jss m'. run (fine pl room acts) m (map Turns jss) m' \<and> after_turns pl m m'"
proof (induction "text_length (read_buffer (sock m))" arbitrary: m rule: less_induct)
  case less
  let ?m = "after_turn pl m"
  have step: "fine pl room acts m (Turns (new_lines m ?m)) ?m" using less.prems by (rule fine.turns)
  have last: ?case if "after_turns pl m ?m"
    using that step by (intro exI [of _ "[new_lines m ?m]"] exI [of _ ?m]) (auto simp: run_Cons)
  show ?case
  proof (cases "socket_turn pl (sock m) (shares m) (log_sys m)")
    case (Inl e)
    then show ?thesis
      using last by (simp add: after_turns_def after_turn_def outcome_def socket_turns_turn [of pl "sock m"])
  next
    case (Inr r)
    obtain goes_on w sh s where r: "r = (goes_on, w, sh, s)" by (cases r)
    note turn = after_turn_def outcome_def Inr r
    show ?thesis
    proof (cases goes_on)
      case False
      then show ?thesis using last by (simp add: after_turns_def turn socket_turns_turn [of pl "sock m"])
    next
      case True
      then have less': "text_length (read_buffer (sock ?m)) < text_length (read_buffer (sock m))" "spot ?m = Scanning"
        using socket_turn_shrinks [of pl "sock m" "shares m" "log_sys m" w sh s] Inr r
        by (simp_all add: turn)
      from less.hyps [OF less'] obtain jss m' where
        "run (fine pl room acts) ?m (map Turns jss) m'" "after_turns pl ?m m'"
        by blast
      then have "run (fine pl room acts) m (map Turns (new_lines m ?m # jss)) m'" "after_turns pl m m'"
        using step True
        by (auto simp: run_Cons after_turns_def turn socket_turns_turn [of pl "sock m"] split: sum.splits)
      then show ?thesis by blast
    qed
  qed
qed

text \<open>An uninterrupted callback.\<close>

lemma callback_run:
  assumes "spot m = Polling" and "loop_running (sock m)" and "fifo_bytes m \<noteq> []" and "should_run (shares m)"
  shows "\<exists>jss m'. run (fine pl room acts) m (Checks # Enters # Reads # map Turns jss) m'
     \<and> (case socket_cb pl n (fst (fifo_read (fifo_bytes m))) (sock m) (shares m) (log_sys m) of
          Inl e \<Rightarrow> spot m' = Faulted e
        | Inr (w, sh, s) \<Rightarrow> m' = m\<lparr>shares := sh, sock := w, fifo_bytes := snd (fifo_read (fifo_bytes m)),
            log_sys := s\<rparr>)"
proof -
  let ?m1 = "m\<lparr>spot := Unlocked\<rparr>" let ?m2 = "m\<lparr>spot := Reading\<rparr>" let ?m3 = "after_read ?m2"
  let ?bytes = "take (BUFFER_SIZE - 1) (fifo_bytes m)" let ?rest = "drop (BUFFER_SIZE - 1) (fifo_bytes m)"
  have bytes: "?bytes \<noteq> []" "fifo_read (fifo_bytes m) = (ReadBytes ?bytes, ?rest)"
    using assms(3) by (simp_all add: fifo_read_def BUFFER_SIZE_def)
  have "after_check m = ?m1" using assms(4) by (simp add: after_check_def should_socket_worker_run_def)
  then have s1: "fine pl room acts m Checks ?m1" using fine.checks [OF assms(1-3), of pl room acts] by simp
  have s2: "fine pl room acts ?m1 Enters ?m2"
    using fine.enters [of ?m1 pl room acts] assms(4) by simp
  have s3: "fine pl room acts ?m2 Reads ?m3" by (rule fine.reads) simp
  have cb: "socket_cb pl n (ReadBytes ?bytes) (sock m) (shares m) (log_sys m)
      = chk (socket_fill ?bytes (sock m)) (\<lambda>w. socket_turns pl w (shares m) (log_sys m))"
    using assms(4) bytes(1) by (simp add: socket_cb_def should_socket_worker_run_def socket_read_turns)
  have front: "run (fine pl room acts) m (Checks # Enters # Reads # es) m'"
    if "run (fine pl room acts) ?m3 es m'" for es m'
    using that s1 s2 s3 by (auto simp: run_Cons)
  show ?thesis
  proof (cases "socket_fill ?bytes (sock m)")
    case (Inl e)
    then show ?thesis
      using front [of "[]" ?m3] bytes cb
      by (intro exI [of _ "[]"] exI [of _ ?m3]) (simp add: after_read_def outcome_def)
  next
    case (Inr w)
    then have m3: "?m3 = m\<lparr>sock := w, spot := Scanning, fifo_bytes := ?rest\<rparr>"
      using bytes by (simp add: after_read_def outcome_def)
    then obtain jss m' where m': "run (fine pl room acts) ?m3 (map Turns jss) m'" "after_turns pl ?m3 m'"
      using turns_run [of ?m3 pl room acts] by auto
    have m: "m\<lparr>spot := Polling\<rparr> = m" using assms(1) by simp
    have "case socket_turns pl w (shares m) (log_sys m) of
          Inl e \<Rightarrow> spot m' = Faulted e
        | Inr (w, sh, s) \<Rightarrow> m' = m\<lparr>shares := sh, sock := w, fifo_bytes := ?rest, log_sys := s\<rparr>"
      using m'(2) assms(1) unfolding m3 after_turns_def
      by (cases m) (auto split: sum.splits)
    then show ?thesis
      unfolding bytes(2) fst_conv snd_conv cb Inr chk_Inr using front [OF m'(1)] by blast
  qed
qed

section \<open>The invariant\<close>

definition crew_left :: "machine \<Rightarrow> nat" where
  "crew_left m = sum_list (map (\<lambda>c. if duty c = Left then 0 else 1) (crew m))"

text \<open>While the daemon runs, \<open>url_count\<close> is the length of the queue in every state between two steps, also
  in the midst of a chunk; and behind the event loop every worker that is left has a count to wake up on.\<close>

definition machine_inv :: "machine \<Rightarrow> bool" where
  "machine_inv m \<longleftrightarrow>
     fifo_wf (queue (shares m)) \<and> (\<forall>c \<in> set (crew m). length (job_array c) = BUFFER_SIZE)
     \<and> (should_run (shares m) \<longrightarrow> loop_running (sock m) \<and> spot m \<noteq> PipeBlocked
          \<and> url_count (shares m) = int (length (fifo_list (queue (shares m)))))
     \<and> (loop_running (sock m) \<longleftrightarrow> fifo_linked (sock m))
     \<and> (spot m = LoopEnded \<longrightarrow> \<not> loop_running (sock m))
     \<and> (\<not> loop_running (sock m) \<longrightarrow> spot m = LoopEnded \<or> (\<exists>e. spot m = Faulted e))
     \<and> (\<not> should_run (shares m) \<and> loop_running (sock m) \<longrightarrow> 0 \<le> url_count (shares m))
     \<and> (\<not> loop_running (sock m) \<longrightarrow> int (crew_left m) \<le> url_count (shares m))"

definition machine_started :: "machine \<Rightarrow> bool" where
  "machine_started m \<longleftrightarrow> spot m = Polling \<and> should_run (shares m) \<and> fifo_wf (queue (shares m))
     \<and> fifo_list (queue (shares m)) = [] \<and> url_count (shares m) = 0
     \<and> loop_running (sock m) \<and> fifo_linked (sock m) \<and> fifo_bytes m = []
     \<and> (\<forall>c \<in> set (crew m). duty c \<in> {Waiting, Left} \<and> length (job_array c) = BUFFER_SIZE)"

lemma started_machine:
  "started d \<Longrightarrow> fifo_linked (watcher d) \<Longrightarrow> machine_started (machine_of d)"
  by (auto simp: started_def machine_started_def machine_of_def)

lemma machine_started_inv: "machine_started m \<Longrightarrow> machine_inv m"
  by (simp add: machine_started_def machine_inv_def)

lemma crew_left_le: "crew_left m \<le> length (crew m)"
proof -
  have "sum_list (map (\<lambda>c. if duty c = Left then 0 else 1) cs) \<le> length cs" for cs
    by (induction cs) auto
  then show ?thesis by (simp add: crew_left_def)
qed

lemma crew_left_reassign:
  "i < length (crew m) \<Longrightarrow>
   crew_left (reassign i d j m) + (if duty (crew m ! i) = Left then 0 else 1)
     = crew_left m + (if d = Left then 0 else 1)"
  using sum_list_replace [of i "crew m" "\<lambda>c. if duty c = Left then 0 else 1" "\<lparr>duty = d, job_array = j\<rparr>"]
  by (simp add: crew_left_def reassign_def)

text \<open>What the steps of the main thread do to the shared state.\<close>

lemma socket_turn_shared:
  assumes "fifo_wf (queue sh)" and "socket_turn pl w sh sy = Inr (goes_on, w', sh', sy')"
  shows "\<exists>ls. enqueued sh ls sh'" and "loop_running w' = loop_running w"
    and "fifo_linked w' = fifo_linked w" and "fifo_filename w' = fifo_filename w"
  using assms enqueued_refl [OF assms(1)]
  by (auto simp: socket_turn_def chk_eq_Inr_iff dest: socket_line_shared
      split: sum.splits option.splits if_splits)

lemma socket_fill_keeps:
  "socket_fill bytes w = Inr w' \<Longrightarrow> \<exists>rb. w' = w\<lparr>read_buffer := rb\<rparr>"
  by (auto simp: socket_fill_def chk_eq_Inr_iff)

lemma after_turn_cases:
  assumes "fifo_wf (queue (shares m))"
  obtains (fault) e where "after_turn pl m = m\<lparr>spot := Faulted e\<rparr>"
  | (turn) goes_on w sh s ls where
      "after_turn pl m = m\<lparr>shares := sh, sock := w, spot := (if goes_on then Scanning else Polling), log_sys := s\<rparr>"
      "socket_turn pl (sock m) (shares m) (log_sys m) = Inr (goes_on, w, sh, s)"
      "enqueued (shares m) ls sh" "loop_running w = loop_running (sock m)"
      "fifo_linked w = fifo_linked (sock m)" "fifo_filename w = fifo_filename (sock m)"
proof (cases "socket_turn pl (sock m) (shares m) (log_sys m)")
  case (Inl e)
  then show ?thesis using fault [of e] by (simp add: after_turn_def outcome_def)
next
  case (Inr r)
  obtain goes_on w sh s where r: "r = (goes_on, w, sh, s)" by (cases r)
  obtain ls where ls: "enqueued (shares m) ls sh" using socket_turn_shared(1) [OF assms Inr [unfolded r]] ..
  show ?thesis
    by (rule turn [OF _ Inr [unfolded r] ls socket_turn_shared(2-4) [OF assms Inr [unfolded r]]])
      (simp add: after_turn_def outcome_def Inr r)
qed

lemma after_read_cases:
  obtains (fault) e where "after_read m = m\<lparr>spot := Faulted e\<rparr>"
  | (none) "after_read m = m\<lparr>spot := Polling\<rparr>" "fifo_bytes m = []"
  | (some) rb where "after_read m
         = m\<lparr>sock := (sock m)\<lparr>read_buffer := rb\<rparr>, spot := Scanning,
             fifo_bytes := drop (BUFFER_SIZE - 1) (fifo_bytes m)\<rparr>"
       "socket_fill (take (BUFFER_SIZE - 1) (fifo_bytes m)) (sock m) = Inr ((sock m)\<lparr>read_buffer := rb\<rparr>)"
proof (cases "fifo_bytes m = []")
  case True
  then show ?thesis using none by (simp add: after_read_def fifo_read_def)
next
  case False
  show ?thesis
  proof (cases "socket_fill (take (BUFFER_SIZE - 1) (fifo_bytes m)) (sock m)")
    case (Inl e)
    then show ?thesis
      using fault [of e] False by (simp add: after_read_def fifo_read_def outcome_def BUFFER_SIZE_def)
  next
    case (Inr w)
    then show ?thesis
      using some False socket_fill_keeps [OF Inr]
      by (auto simp: after_read_def fifo_read_def outcome_def BUFFER_SIZE_def)
  qed
qed

lemma after_signal_cases:
  obtains (fault) e where "after_signal room g m = m\<lparr>spot := Faulted e\<rparr>"
  | (other) s where "after_signal room g m = m\<lparr>log_sys := s\<rparr>" "\<not> stop_signal g"
  | (full) "after_signal room g m = m\<lparr>shares := (shares m)\<lparr>should_run := False\<rparr>, spot := PipeBlocked\<rparr>"
      "stop_signal g" "fifo_linked (sock m)" "room < length (fifo_bytes m) + 4"
  | (told) "after_signal room g m
         = m\<lparr>shares := (shares m)\<lparr>should_run := False\<rparr>, fifo_bytes := fifo_bytes m @ ''QUIT''\<rparr>"
      "stop_signal g" "fifo_linked (sock m)" "length (fifo_bytes m) + 4 \<le> room"
  | (gone) s where "after_signal room g m = m\<lparr>shares := (shares m)\<lparr>should_run := False\<rparr>, log_sys := s\<rparr>"
      "stop_signal g" "\<not> fifo_linked (sock m)"
proof (cases "stop_signal g \<and> fifo_linked (sock m) \<and> room < length (fifo_bytes m) + 4")
  case True
  then show ?thesis using full by (simp add: after_signal_def)
next
  case False
  let ?r = "signal_handler g True (if fifo_linked (sock m) then 0 else -1) (int (length ''QUIT''))
             (fifo_filename (sock m)) (shares m) (fifo_bytes m) (log_sys m)"
  have eq: "after_signal room g m
      = outcome m ?r (\<lambda>(sh, p, s). m\<lparr>shares := sh, fifo_bytes := p, log_sys := s\<rparr>)"
    using False by (auto simp: after_signal_def)
  show ?thesis
  proof (cases ?r)
    case (Inl e)
    then show ?thesis using fault eq by (simp add: outcome_def)
  next
    case (Inr x)
    obtain sh p s where x: "x = (sh, p, s)" by (cases x)
    have eq': "after_signal room g m = m\<lparr>shares := sh, fifo_bytes := p, log_sys := s\<rparr>"
      using eq Inr x by (simp add: outcome_def)
    have "\<not> stop_signal g \<and> sh = shares m \<and> p = fifo_bytes m
      \<or> stop_signal g \<and> fifo_linked (sock m) \<and> sh = (shares m)\<lparr>should_run := False\<rparr>
          \<and> p = fifo_bytes m @ ''QUIT'' \<and> s = log_sys m
      \<or> stop_signal g \<and> \<not> fifo_linked (sock m) \<and> sh = (shares m)\<lparr>should_run := False\<rparr> \<and> p = fifo_bytes m"
      using Inr x
      by (cases g) (auto simp: signal_handler_def write_fifo_def stop_signal_def chk_eq_Inr_iff Let_def split: if_splits)
    then show ?thesis
      using other [of s] told gone [of s] eq' False by auto
  qed
qed

lemma crew_reassign:
  "machine_inv m \<Longrightarrow> length j = BUFFER_SIZE \<Longrightarrow> c \<in> set (crew (reassign i d j m)) \<Longrightarrow>
   length (job_array c) = BUFFER_SIZE"
  by (auto simp: machine_inv_def reassign_def dest!: subsetD [OF set_update_subset_insert])

lemma take_job_step:
  assumes "machine_inv m" and "should_run (shares m)" and "1 \<le> url_count (shares m)"
    and "length b = BUFFER_SIZE"
  shows "\<exists>sh j x xs. take_job (shares m) b = Inr (False, sh, j)
     \<and> fifo_list (queue (shares m)) = x # xs \<and> str_at j 0 = Inr x \<and> length j = BUFFER_SIZE \<and> waiting sh xs"
proof -
  have "fifo_list (queue (shares m)) \<noteq> []"
    using assms(1-3) by (auto simp: machine_inv_def simp del: length_fifo_list)
  then obtain x xs where xs: "fifo_list (queue (shares m)) = x # xs" by (auto simp: neq_Nil_conv)
  then have "waiting (shares m) (x # xs)"
    using assms(1,2) by (simp add: waiting_def machine_inv_def)
  from take_job_head [OF this assms(4)] xs show ?thesis by blast
qed

lemma crew_at_array: "machine_inv m \<Longrightarrow> crew_at m i d \<Longrightarrow> length (job_array (crew m ! i)) = BUFFER_SIZE"
  by (simp add: machine_inv_def crew_at_def)

text \<open>A worker that takes a job.\<close>

lemma takes_step:
  assumes inv: "machine_inv m" and at: "crew_at m i Waiting" and count: "1 \<le> url_count (shares m)"
    and take: "take_job (shares m) (job_array (crew m ! i)) = Inr (False, sh, j)"
  obtains x xs where "should_run (shares m)" and "fifo_list (queue (shares m)) = x # xs"
    and "str_at j 0 = Inr x" and "length j = BUFFER_SIZE" and "waiting sh xs"
proof -
  have run: "should_run (shares m)" using take by (auto simp: take_job_def split: if_splits)
  from take_job_step [OF inv run count crew_at_array [OF inv at]] take that run show ?thesis by auto
qed

lemma reassign_sel [simp]:
  "shares (reassign i d j m) = shares m" "sock (reassign i d j m) = sock m" "spot (reassign i d j m) = spot m"
  "fifo_bytes (reassign i d j m) = fifo_bytes m" "log_sys (reassign i d j m) = log_sys m"
  "length (crew (reassign i d j m)) = length (crew m)"
  by (simp_all add: reassign_def)

lemma crew_left_sel [simp]:
  "crew_left (m\<lparr>shares := sh\<rparr>) = crew_left m" "crew_left (m\<lparr>sock := w\<rparr>) = crew_left m"
  "crew_left (m\<lparr>spot := c\<rparr>) = crew_left m" "crew_left (m\<lparr>fifo_bytes := p\<rparr>) = crew_left m"
  "crew_left (m\<lparr>log_sys := s\<rparr>) = crew_left m"
  by (simp_all add: crew_left_def)

lemma machine_inv_reassign:
  assumes "machine_inv m" and "crew_at m i d'" and "d' \<noteq> Left" and "d \<noteq> Left" and "length j = BUFFER_SIZE"
  shows "machine_inv (reassign i d j m)"
  using assms crew_left_reassign [of i m d j] crew_reassign [OF assms(1,5)]
  by (auto simp: machine_inv_def crew_at_def)

lemma machine_inv_faulted: "machine_inv m \<Longrightarrow> machine_inv (m\<lparr>spot := Faulted e\<rparr>)"
  by (auto simp: machine_inv_def)

lemma main_inv:
  assumes inv: "machine_inv m"
  shows "machine_inv (after_check m)" and "spot m = Reading \<Longrightarrow> machine_inv (after_read m)"
    and "spot m = Scanning \<Longrightarrow> machine_inv (after_turn pl m)" and "lock_free m \<Longrightarrow> machine_inv (after_signal room g m)"
proof -
  show "machine_inv (after_check m)"
    using inv crew_left_le [of m]
    by (auto simp: after_check_def should_socket_worker_run_def machine_inv_def)
  show "machine_inv (after_read m)" if "spot m = Reading"
    by (cases rule: after_read_cases [of m]) (use inv that in \<open>auto simp: machine_inv_def\<close>)
  have "fifo_wf (queue (shares m))" using inv by (simp add: machine_inv_def)
  then show "machine_inv (after_turn pl m)" if "spot m = Scanning"
    by (cases rule: after_turn_cases [of m pl])
      (use inv that in \<open>auto simp: machine_inv_def enqueued_def simp del: length_fifo_list\<close>)
  show "machine_inv (after_signal room g m)" if "lock_free m"
    by (cases rule: after_signal_cases [of room g m])
      (use inv that in \<open>auto simp: machine_inv_def lock_free_def\<close>)
qed

lemma fine_inv:
  assumes inv: "machine_inv m" and step: "fine pl room acts m e m'"
  shows "machine_inv m'"
  using step
proof cases
  case (takes i sh j x)
  then obtain xs where xs: "should_run (shares m)" "length j = BUFFER_SIZE" "waiting sh xs"
    using takes_step [OF inv takes(4,5,6)] by metis
  have "crew_at (m\<lparr>shares := sh\<rparr>) i Waiting" using takes(4) by (simp add: crew_at_def)
  moreover have "machine_inv (m\<lparr>shares := sh\<rparr>)"
    using inv xs by (auto simp: machine_inv_def waiting_def)
  ultimately show ?thesis using takes(2) xs(2) machine_inv_reassign by simp
next
  case (leaves i sh j)
  note l = take_job_leave [OF leaves(6)]
  have "crew_left m' + 1 = crew_left m"
    using crew_left_reassign [of i "m\<lparr>shares := sh\<rparr>" Left j] leaves by (simp add: crew_at_def)
  then show ?thesis
    using inv leaves l crew_at_array [OF inv leaves(4)] crew_reassign [OF inv, of j _ i Left]
    by (auto simp: machine_inv_def reassign_def dest!: subsetD [OF set_update_subset_insert])
next
  case (opens i t ts)
  then show ?thesis
    using machine_inv_reassign [OF inv opens(3)] crew_at_array [OF inv opens(3)] by simp
next
  case (puts i t ts)
  have "machine_inv (m\<lparr>fifo_bytes := fifo_bytes m @ t\<rparr>)" using inv by (auto simp: machine_inv_def)
  then show ?thesis
    using machine_inv_reassign [of "m\<lparr>fifo_bytes := fifo_bytes m @ t\<rparr>" i "Writing t ts"] puts
      crew_at_array [OF inv puts(3)] by (simp add: crew_at_def)
next
  case (ends i j)
  then show ?thesis using machine_inv_reassign [OF inv ends(3)] by simp
next
  case checks
  show ?thesis unfolding checks by (rule main_inv(1) [OF inv])
next
  case reads
  show ?thesis unfolding reads(2) by (rule main_inv(2) [OF inv reads(3)])
next
  case turns
  show ?thesis unfolding turns(2) by (rule main_inv(3) [OF inv turns(3)])
next
  case (signalled g)
  show ?thesis unfolding signalled(2) by (rule main_inv(4) [OF inv signalled(3)])
qed (use inv in \<open>auto simp: machine_inv_def locks_next_def\<close>)

interpretation crew: invariant_of "fine pl room acts" machine_started machine_inv
  by unfold_locales (auto intro: machine_started_inv fine_inv)

section \<open>The queue as a channel\<close>

definition turned :: "occurrence \<Rightarrow> string list" where
  "turned e = (case e of Turns js \<Rightarrow> js | _ \<Rightarrow> [])"

definition fetched :: "occurrence \<Rightarrow> string list" where
  "fetched e = (case e of Takes i j \<Rightarrow> [projr (str_at j 0)] | _ \<Rightarrow> [])"

abbreviation queued :: "machine \<Rightarrow> string list" where
  "queued m \<equiv> fifo_list (queue (shares m))"

lemma fine_channel:
  assumes inv: "machine_inv m" and step: "fine pl room acts m e m'"
  shows "queued m @ turned e = fetched e @ queued m'"
  using step
proof cases
  case turns
  have "fifo_wf (queue (shares m))" using inv by (simp add: machine_inv_def)
  then show ?thesis
    by (cases rule: after_turn_cases [of m pl])
      (use turns in \<open>auto simp: turned_def fetched_def new_lines_def new_jobs_def enqueued_def\<close>)
next
  case reads
  then show ?thesis
    by (cases rule: after_read_cases [of m]) (auto simp: turned_def fetched_def)
next
  case (takes i sh j x)
  from takes_step [OF inv takes(4,5,6)] takes(1,2,7) show ?thesis
    by (auto simp: turned_def fetched_def waiting_def)
next
  case (leaves i sh j)
  then show ?thesis using take_job_leave [OF leaves(6)] by (auto simp: turned_def fetched_def)
next
  case (signalled g)
  then show ?thesis
    by (cases rule: after_signal_cases [of room g m]) (auto simp: turned_def fetched_def)
qed (auto simp: turned_def fetched_def after_check_def should_socket_worker_run_def)

interpretation lines: channel "fine pl room acts" machine_started machine_inv queued turned fetched
  by unfold_locales (auto intro: fine_channel simp: machine_started_def)

lemma turned_Turns [simp]: "map (turned \<circ> Turns) jss = jss" "concat (map (fetched \<circ> Turns) jss) = []"
  by (induction jss) (simp_all add: turned_def fetched_def)

text \<open>What no step changes: the heap (the workers' own blocks apart), the queue's capacity and the number
  of workers.\<close>

definition retains :: "machine \<Rightarrow> machine \<Rightarrow> bool" where
  "retains m\<^sub>0 m \<longleftrightarrow> machine_inv m \<and> live (log_sys m) = live (log_sys m\<^sub>0)
     \<and> capacity (queue (shares m)) = capacity (queue (shares m\<^sub>0)) \<and> length (crew m) = length (crew m\<^sub>0)"

lemma socket_turn_heap: "socket_turn pl w sh sy = Inr (goes_on, w', sh', sy') \<Longrightarrow> live sy' = live sy"
  by (auto simp: socket_turn_def chk_eq_Inr_iff dest: socket_line_heap split: sum.splits option.splits if_splits)

lemma after_signal_heap: "live (log_sys (after_signal room g m)) = live (log_sys m)"
  by (auto simp: after_signal_def outcome_def dest: signal_handler_heap split: sum.splits)

lemma fine_retains:
  assumes keep: "retains m\<^sub>0 m" and step: "fine pl room acts m e m'"
  shows "retains m\<^sub>0 m'"
proof -
  have inv: "machine_inv m" using keep by (simp add: retains_def)
  have "live (log_sys m') = live (log_sys m) \<and> capacity (queue (shares m')) = capacity (queue (shares m))
      \<and> length (crew m') = length (crew m)"
    using step
  proof cases
    case reads
    then show ?thesis by (cases rule: after_read_cases [of m]) auto
  next
    case turns
    have "fifo_wf (queue (shares m))" using inv by (simp add: machine_inv_def)
    then show ?thesis
      by (cases rule: after_turn_cases [of m pl])
        (use turns socket_turn_heap in \<open>fastforce simp: enqueued_def\<close>)+
  next
    case (takes i sh j x)
    then have "should_run (shares m)" "length (job_array (crew m ! i)) = BUFFER_SIZE"
      using takes_step [OF inv takes(4,5,6)] crew_at_array [OF inv takes(4)] by auto
    then show ?thesis
      using takes by (auto simp: take_job_def fifo_dequeue_def Let_def chk_eq_Inr_iff split: if_splits)
  next
    case (leaves i sh j)
    then show ?thesis using take_job_leave [OF leaves(6)] by simp
  next
    case (signalled g)
    then show ?thesis
      using after_signal_heap [of room g m] by (cases rule: after_signal_cases [of room g m]) auto
  qed (auto simp: after_check_def should_socket_worker_run_def)
  then show ?thesis using keep fine_inv [OF inv step] by (simp add: retains_def)
qed

lemma retains_start: "machine_started m \<Longrightarrow> retains m m"
  by (simp add: retains_def machine_started_inv)

interpretation balance: invariant_of "fine pl room acts" "\<lambda>m. m = m\<^sub>0 \<and> machine_started m" "retains m\<^sub>0"
  by unfold_locales (auto intro: fine_retains retains_start)

text \<open>A machine with one worker to evaluate on, and its first steps.\<close>

definition sample_machine :: machine where
  "sample_machine = machine_of sample_daemon"

lemma sample_machine_started: "machine_started sample_machine"
  unfolding sample_machine_def
  by (rule started_machine [OF sample_started]) (simp add: sample_daemon_def sample_watcher_def)

lemma sample_line_run:
  assumes "NUL \<notin> set l \<and> newline \<notin> set l \<and> length l + 2 < BUFFER_SIZE \<and> length l + 1 \<le> room"
  shows "\<exists>jss m. run (fine permissive room acts) sample_machine
       (ClientPuts (l @ [newline]) # Checks # Enters # Reads # map Turns jss) m
     \<and> should_run (shares m) \<and> queued m = [l] \<and> crew m = crew sample_machine \<and> spot m = Polling
     \<and> fifo_bytes m = []"
proof -
  let ?s = "l @ [newline]" let ?m = "sample_machine\<lparr>fifo_bytes := ?s\<rparr>"
  have ok: "?s \<noteq> [] \<and> NUL \<notin> set ?s \<and> length ?s < BUFFER_SIZE \<and> line_fits [] ?s"
    using assms line_fits_rest [of ?s] by auto
  have m: "spot sample_machine = Polling" "loop_running (sock sample_machine)" "fifo_bytes sample_machine = []"
      "shares sample_machine = sample_shared" "sock sample_machine = sample_watcher"
      "log_sys sample_machine = sample_sys"
    by (simp_all add: sample_machine_def machine_of_def sample_daemon_def sample_watcher_def)
  have writes: "fine permissive room acts sample_machine (ClientPuts ?s) ?m"
    using fine.client_puts [of ?s sample_machine room permissive acts] ok assms m(3) by simp
  have feed: "feed [] ?s = ([l], [])"
    using assms by (simp add: feed_def split_lines_line [of l "[]", simplified] split_lines_none)
  have room: "occupied (queue sample_shared) + length (fst (feed [] ?s)) \<le> capacity (queue sample_shared)"
    by (simp add: feed)
  from socket_cb_room [OF sample_ready [THEN iffD2, OF ok] room, of 1 sample_sys]
  obtain w sh where cb: "socket_cb permissive 1 (ReadBytes ?s) sample_watcher sample_shared
        sample_sys = Inr (w, sh, sample_sys)"
    and enq: "enqueued sample_shared [l] sh"
    by (auto simp: feed)
  have "length ?s \<le> BUFFER_SIZE - 1" using ok by linarith
  then have read: "fifo_read (fifo_bytes ?m) = (ReadBytes ?s, [])"
    by (simp add: fifo_read_def)
  obtain jss m' where m': "run (fine permissive room acts) ?m (Checks # Enters # Reads # map Turns jss) m'"
      "m' = ?m\<lparr>shares := sh, sock := w, fifo_bytes := [], log_sys := sample_sys\<rparr>"
    using callback_run [of ?m permissive room acts 1, unfolded read] cb m by auto
  have "should_run (shares m')" "queued m' = [l]" "crew m' = crew sample_machine" "spot m' = Polling"
      "fifo_bytes m' = []"
    using m'(2) enq m(1) by (simp_all add: enqueued_def)
  moreover have "run (fine permissive room acts) sample_machine
      (ClientPuts ?s # Checks # Enters # Reads # map Turns jss) m'"
    using run.go [OF writes m'(1)] .
  ultimately show ?thesis by blast
qed

lemma sample_machine_run:
  "\<exists>jss m. run (fine permissive 4096 None) sample_machine
       (ClientPuts sample_text # Checks # Enters # Reads # map Turns jss) m
     \<and> should_run (shares m) \<and> queued m = [''FETCH a''] \<and> crew m = crew sample_machine \<and> spot m = Polling"
proof -
  have "NUL \<notin> set ''FETCH a'' \<and> newline \<notin> set ''FETCH a'' \<and> length ''FETCH a'' + 2 < BUFFER_SIZE
      \<and> length ''FETCH a'' + 1 \<le> (4096::nat)"
    by code_simp
  from sample_line_run [OF this, of None] show ?thesis unfolding sample_text_def by blast
qed

section \<open>Properties\<close>

text \<open>
  C4: However the threads interleave, with workers taking jobs while the callback enqueues a chunk and
  signals at any place of it, the jobs taken are the jobs enqueued, in the same order and each once,
  followed by those still in the queue; and as long as the daemon runs \<open>url_count\<close> is the number of
  these, at most the capacity.
\<close>

theorem interleaved_jobs:
  assumes "machine_started m\<^sub>0" and "run (fine pl room acts) m\<^sub>0 es m"
  shows "concat (map turned es) = concat (map fetched es) @ fifo_list (queue (shares m))
     \<and> length (fifo_list (queue (shares m))) \<le> capacity (queue (shares m))
     \<and> (should_run (shares m) \<longrightarrow> url_count (shares m) = int (length (fifo_list (queue (shares m)))))"
proof -
  have inv: "machine_inv m" using crew.reachable_inv [OF assms] .
  then have "fifo_wf (queue (shares m))" by (simp add: machine_inv_def)
  then show ?thesis
    using lines.sent_received [OF assms] inv by (simp add: machine_inv_def fifo_wf_def)
qed

theorem interleaved_jobs_witness:
  "\<exists>jss m. run (fine permissive 4096 None) sample_machine
       (ClientPuts sample_text # Checks # Enters # Reads # map Turns jss) m
     \<and> concat jss = [''FETCH a''] \<and> url_count (shares m) = 1"
proof -
  obtain jss m where m: "run (fine permissive 4096 None) sample_machine
       (ClientPuts sample_text # Checks # Enters # Reads # map Turns jss) m"
     "should_run (shares m)" "queued m = [''FETCH a'']"
    using sample_machine_run by blast
  from interleaved_jobs [OF sample_machine_started m(1)] m(2,3)
  have "concat jss = [''FETCH a'']" "url_count (shares m) = 1"
    by (simp_all add: turned_def [of "ClientPuts _"] turned_def [of Checks] turned_def [of Enters]
        turned_def [of Reads] fetched_def [of "ClientPuts _"] fetched_def [of Checks]
        fetched_def [of Enters] fetched_def [of Reads])
  then show ?thesis using m(1) by blast
qed





text \<open>
  C14: All that a round of a worker writes into the FIFO are the \<^verbatim>\<open>CACHE\<close> commands of the pages of the
  action that an \<^verbatim>\<open>UPDATE\<close> job names: one for each page up to the first null pointer or the count of
  the action, without those that are too long; every other job writes nothing.
\<close>

theorem worker_writes:
  assumes "fifo_takes_all out" and "waiting sh (x # xs)" and "locals_ok out loc" and "clean_pages (actions g)"
    and "worker_round pl out g random sh w loc wd = Inr (False, sh', w', loc', wd')"
  shows "pipe wd' = pipe wd @ concat (round_texts (actions g) x)"
  by (rule worker_round_texts [OF assms])

theorem worker_writes_witness:
  "\<exists>sh' w' loc' wd'. worker_round iso_c sample_outside (sample_globals [''http://a'']) 5
       (sample_waiting ''UPDATE home'') sample_worker (worker_locals_init sample_outside) sample_world
       = Inr (False, sh', w', loc', wd')
     \<and> pipe wd' = ''CACHE http://a'' @ [newline]"
proof -
  let ?g = "sample_globals [''http://a'']"
  have wait: "waiting (sample_waiting ''UPDATE home'') [''UPDATE home'']"
    by (rule sample_waiting) (simp_all add: BUFFER_SIZE_def)
  have job: "command_reads_ok iso_c BUFFER_SIZE ''UPDATE home''"
      "parse_job ''UPDATE home'' = (UPDATE, ''home'')"
    by code_simp+
  have list: "page_list (sample_action [''http://a'']) [''http://a'']"
    by (simp add: page_list_def sample_action_def)
  have us: "\<forall>u \<in> set [''http://a'']. NUL \<notin> set u \<and> length u + 7 < BUFFER_SIZE" by code_simp
  from worker_round_pages [OF wait locals_init_ok sample_contention job sample_find list us sample_fifo]
  obtain sh' loc' wd' where round: "worker_round iso_c sample_outside ?g 5
       (sample_waiting ''UPDATE home'') sample_worker (worker_locals_init sample_outside) sample_world
       = Inr (False, sh', sample_worker, loc', wd')"
    by blast
  have clean: "clean_pages (actions ?g)"
    by (auto simp: clean_pages_def sample_globals_def find_action_def sample_action_def str_at_def
        split: if_splits)
  have "round_texts (actions ?g) ''UPDATE home'' = [''CACHE http://a'' @ [newline]]" by code_simp
  then show ?thesis
    using worker_writes [OF sample_fifo wait locals_init_ok clean round] round
    by (auto simp: sample_world_def)
qed

text \<open>
  C25: Whatever \<^verbatim>\<open>pthread_create\<close> returns and whatever the mask of the process is when it starts its
  workers, \<open>create_thread\<close> gives that error back and leaves the mask as it was, and no worker it
  created can be interrupted by a signal: the handler runs in the main thread, and there it does
  unless the signal was blocked before.
\<close>

theorem only_main_interrupted:
  "fst (create_thread answer sigmask) = answer
   \<and> (may_interrupt g (create_threads answers is sigmask) t \<longleftrightarrow> t = None \<and> g \<notin> sigmask)"
  by (cases t) (auto simp: may_interrupt_def create_threads_masks create_thread_def split: if_splits)

end
