(* ===== verification/Shutdown.thy ===== *)
theory Shutdown
  imports Interleaving
begin

text \<open>
  What a signal to stop leads to, in the steps of theory \<open>Interleaving\<close>: which places of the main thread
  it may arrive at, how many steps are left, and the states in which nothing moves any more. It ends the
  daemon when the handler's \<^verbatim>\<open>QUIT\<close> is still in the FIFO when the event loop waits again; otherwise it
  is lost, or the main thread blocks in its own handler, or a worker blocks in its write.
\<close>

section \<open>The steps that are left\<close>

definition spot_effort :: "machine \<Rightarrow> nat" where
  "spot_effort m =
     (case spot m of
        Polling \<Rightarrow> 1 | Unlocked \<Rightarrow> 2 | Reading \<Rightarrow> BUFFER_SIZE + 2
      | Scanning \<Rightarrow> text_length (read_buffer (sock m)) + 2 | _ \<Rightarrow> 0)"

primrec duty_effort :: "duty \<Rightarrow> nat" where
  "duty_effort Waiting = 1"
| "duty_effort (Working ts) = 2 + 2 * length ts"
| "duty_effort (Writing t ts) = 3 + 2 * length ts"
| "duty_effort Left = 0"

definition machine_effort :: "machine \<Rightarrow> nat" where
  "machine_effort m = spot_effort m + sum_list (map (\<lambda>c. duty_effort (duty c)) (crew m))"

text \<open>The steps of the program itself, not of its clients and the kernel.\<close>

definition signals :: "occurrence \<Rightarrow> bool" where
  "signals e = (case e of Signalled g \<Rightarrow> True | SignalledInside g \<Rightarrow> True | _ \<Rightarrow> False)"

definition internal :: "occurrence \<Rightarrow> bool" where
  "internal e \<longleftrightarrow> \<not> signals e \<and> (\<forall>t. e \<noteq> ClientPuts t)"

abbreviation told :: "machine \<Rightarrow> bool" where
  "told m \<equiv> \<not> should_run (shares m)"

lemma machine_effort_sel [simp]:
  "machine_effort (m\<lparr>shares := sh\<rparr>) = machine_effort m"
  "machine_effort (m\<lparr>fifo_bytes := p\<rparr>) = machine_effort m"
  "machine_effort (m\<lparr>log_sys := s\<rparr>) = machine_effort m"
  by (simp_all add: machine_effort_def spot_effort_def split: spot.split)

lemma machine_effort_reassign:
  assumes "crew_at m i d'"
  shows "machine_effort (reassign i d j m) + duty_effort d' = machine_effort m + duty_effort d"
  using sum_list_replace [of i "crew m" "\<lambda>c. duty_effort (duty c)" "\<lparr>duty = d, job_array = j\<rparr>"] assms
  by (simp add: machine_effort_def spot_effort_def reassign_def crew_at_def split: spot.split)

lemma socket_fill_text:
  assumes "socket_fill bytes w = Inr w'"
  shows "text_length (read_buffer w') \<le> length bytes"
proof -
  obtain rb1 rb2 where rb: "store (read_buffer w) 0 (cells bytes) = Inr rb1"
      "put_char rb1 (length bytes) NUL = Inr rb2" "read_buffer w' = rb2"
    using assms by (auto simp: socket_fill_def chk_eq_Inr_iff)
  then obtain r1 where r1: "rb1 = cells bytes @ r1"
    by (auto simp: store_def split: if_splits)
  then have "\<exists>x r. r1 = x # r" using rb(2) by (cases r1) (auto simp: put_char_def store_def)
  then obtain r where "rb2 = cells bytes @ Some NUL # r"
    using rb(2) r1 put_char_layout [of "cells bytes"] by auto
  then show ?thesis
    using rb(3) length_takeWhile_le [of "\<lambda>c. c \<noteq> NUL" bytes]
    by (simp add: text_length_def str_at_def cstr_takeWhile)
qed

lemmas effort_defs = machine_effort_def spot_effort_def

lemma told_main_step:
  assumes inv: "machine_inv m" and told: "told m" and step: "fine pl room acts m e m'"
    and e: "e = Checks \<or> e = Enters \<or> e = Reads \<or> (\<exists>js. e = Turns js)"
  shows "told m' \<and> machine_effort m' < machine_effort m"
  using step
proof cases
  case checks
  then show ?thesis
    using told by (simp add: after_check_def should_socket_worker_run_def effort_defs)
next
  case enters
  then show ?thesis using told by (simp add: effort_defs)
next
  case reads
  then show ?thesis
  proof (cases rule: after_read_cases [of m])
    case (some rb)
    then show ?thesis
      using told reads socket_fill_text [OF some(2)] by (simp add: BUFFER_SIZE_def effort_defs)
  qed (use told reads in \<open>auto simp: effort_defs\<close>)
next
  case turns
  have "fifo_wf (queue (shares m))" using inv by (simp add: machine_inv_def)
  then show ?thesis
  proof (cases rule: after_turn_cases [of m pl])
    case (turn goes_on w sh s ls)
    then show ?thesis
      using told turns socket_turn_shrinks [of pl "sock m" "shares m" "log_sys m" w sh s]
      by (cases goes_on) (auto simp: effort_defs enqueued_def)
  qed (use told turns in \<open>auto simp: effort_defs\<close>)
qed (use e in auto)

lemma told_step:
  assumes inv: "machine_inv m" and told: "told m" and step: "fine pl room acts m e m'"
  shows "told m' \<and> (if internal e then machine_effort m' < machine_effort m
                     else machine_effort m' \<le> machine_effort m)"
  using step
proof cases
  case (takes i sh j x)
  then show ?thesis using told by (simp add: take_job_def)
next
  case (leaves i sh j)
  then show ?thesis
    using told take_job_leave [OF leaves(6)] machine_effort_reassign [of "m\<lparr>shares := sh\<rparr>" i Waiting Left j]
    by (simp add: crew_at_def)
next
  case (opens i t ts)
  then show ?thesis
    using told machine_effort_reassign [OF opens(3), of "Writing t ts" "job_array (crew m ! i)"]
      machine_effort_reassign [OF opens(3), of "Working ts" "job_array (crew m ! i)"]
    by auto
next
  case (puts i t ts)
  then show ?thesis
    using told machine_effort_reassign [of "m\<lparr>fifo_bytes := fifo_bytes m @ t\<rparr>" i "Writing t ts" "Working ts"
        "job_array (crew m ! i)"]
    by (simp add: crew_at_def)
next
  case (ends i j)
  then show ?thesis using told machine_effort_reassign [OF ends(3), of Waiting j] by simp
next
  case (signalled g)
  then show ?thesis
    by (cases rule: after_signal_cases [of room g m])
      (use told in \<open>auto simp: internal_def signals_def effort_defs split: spot.split\<close>)
qed (use told_main_step [OF inv told step] told in
    \<open>auto simp: internal_def signals_def effort_defs split: spot.splits\<close>)

interpretation stopping: closing_phase "fine pl room acts" machine_started machine_inv told machine_effort internal
  by unfold_locales (use told_step in \<open>fastforce+\<close>)

section \<open>Where nothing moves any more\<close>

definition at_rest :: "platform \<Rightarrow> nat \<Rightarrow> action_slot list option \<Rightarrow> machine \<Rightarrow> bool" where
  "at_rest pl room acts m \<longleftrightarrow> (\<forall>e m'. internal e \<longrightarrow> \<not> fine pl room acts m e m')"

text \<open>A worker in \<^verbatim>\<open>write\<close> for which the FIFO has no room.\<close>

definition stalled :: "nat \<Rightarrow> machine \<Rightarrow> crewman \<Rightarrow> bool" where
  "stalled room m c \<longleftrightarrow> (\<exists>t ts. duty c = Writing t ts \<and> room < length (fifo_bytes m) + length t)"

text \<open>The event loop has ended, and every worker left or is stalled.\<close>

definition wound_up :: "nat \<Rightarrow> machine \<Rightarrow> bool" where
  "wound_up room m \<longleftrightarrow> spot m = LoopEnded \<and> (\<forall>c \<in> set (crew m). duty c = Left \<or> stalled room m c)"

lemma internal_simps [simp]:
  "internal Checks" "internal Enters" "internal Reads" "internal (Turns js)" "internal (Takes i j)"
  "internal (Leaves i)" "internal (Opens i)" "internal (Puts i)" "internal (Ends i)"
  "\<not> internal (ClientPuts t)" "\<not> internal (Signalled g)" "\<not> internal (SignalledInside g)"
  by (simp_all add: internal_def signals_def)

lemma at_rest_main:
  assumes "at_rest pl room acts m" and "machine_inv m"
  shows "spot m = Polling \<and> fifo_bytes m = [] \<or> spot m \<in> {LoopEnded, SelfBlocked, PipeBlocked}
     \<or> (\<exists>e. spot m = Faulted e)"
proof (cases "spot m")
  case Polling
  have "fifo_bytes m = []"
  proof (rule ccontr)
    assume "fifo_bytes m \<noteq> []"
    moreover have "loop_running (sock m)" using assms(2) Polling by (auto simp: machine_inv_def)
    ultimately have "fine pl room acts m Checks (after_check m)" using Polling by (intro fine.checks)
    then show False using assms(1) by (auto simp: at_rest_def)
  qed
  then show ?thesis using Polling by simp
next
  case Unlocked
  then show ?thesis using assms(1) fine.enters [OF Unlocked, of pl room acts] by (fastforce simp: at_rest_def)
next
  case Reading
  then show ?thesis using assms(1) fine.reads [OF Reading, of pl room acts] by (fastforce simp: at_rest_def)
next
  case Scanning
  then show ?thesis using assms(1) fine.turns [OF Scanning, of pl room acts] by (fastforce simp: at_rest_def)
qed auto

lemma at_rest_crew:
  assumes rest: "at_rest pl room acts m" and inv: "machine_inv m" and told: "told m"
    and "spot m = LoopEnded" and c: "c \<in> set (crew m)"
  shows "duty c = Left \<or> stalled room m c"
proof -
  obtain i where i: "i < length (crew m)" "crew m ! i = c" using c by (auto simp: in_set_conv_nth)
  have at: "crew_at m i (duty c)" using i by (simp add: crew_at_def)
  have stuck: "\<not> fine pl room acts m e m'" if "internal e" for e m'
    using rest that by (simp add: at_rest_def)
  show ?thesis
  proof (cases "duty c")
    case Waiting
    have "(if duty c = Left then 0 else 1) \<in> set (map (\<lambda>c. if duty c = Left then 0 else (1::nat)) (crew m))"
      using c by auto
    from member_le_sum_list [OF this] have "1 \<le> crew_left m" using Waiting by (simp add: crew_left_def)
    then have "1 \<le> url_count (shares m)" using inv assms(4) by (auto simp: machine_inv_def)
    moreover have "lock_free m" using assms(4) by (simp add: lock_free_def)
    ultimately have "fine pl room acts m (Leaves i)
        (reassign i Left (job_array (crew m ! i)) (m\<lparr>shares := (shares m)\<lparr>url_count := url_count (shares m) - 1\<rparr>\<rparr>))"
      using at Waiting take_job_stops [OF told] by (intro fine.leaves) auto
    then show ?thesis using stuck by auto
  next
    case (Working ts)
    show ?thesis
    proof (cases ts)
      case Nil
      then have "fine pl room acts m (Ends i) (reassign i Waiting (job_array (crew m ! i)) m)"
        using at Working crew_at_array [OF inv at] by (intro fine.ends) auto
      then show ?thesis using stuck by auto
    next
      case (Cons t ts')
      then show ?thesis using at Working fine.opens [of m i t ts' pl room acts] stuck by auto
    qed
  next
    case (Writing t ts)
    then show ?thesis
      using at fine.puts [of m i t ts room pl acts] stuck
      by (cases "length (fifo_bytes m) + length t \<le> room") (auto simp: stalled_def)
  qed simp
qed

lemma at_rest_wound_up:
  "at_rest pl room acts m \<Longrightarrow> machine_inv m \<Longrightarrow> told m \<Longrightarrow> spot m = LoopEnded \<Longrightarrow> wound_up room m"
  using at_rest_crew by (simp add: wound_up_def)

section \<open>Signals that are heard\<close>

text \<open>The \<^verbatim>\<open>QUIT\<close>, or what came behind it, will be in the FIFO when the event loop waits again.\<close>

definition homeward :: "machine \<Rightarrow> bool" where
  "homeward m \<longleftrightarrow> told m \<and> (spot m = LoopEnded \<or> spot m \<in> {Polling, Unlocked} \<and> fifo_bytes m \<noteq> [])"

definition heard :: "machine \<Rightarrow> bool" where
  "heard m \<longleftrightarrow> homeward m \<or> told m \<and> ((\<exists>e. spot m = Faulted e) \<or> spot m = Scanning \<and> fifo_bytes m \<noteq> []
     \<or> spot m = Reading \<and> BUFFER_SIZE \<le> length (fifo_bytes m))"

lemma told_after:
  "told m \<Longrightarrow> machine_inv m \<Longrightarrow> fine pl room acts m e m' \<Longrightarrow> told m'"
  using told_step by blast

lemma homeward_step:
  assumes home: "homeward m" and step: "fine pl room acts m e m'" and "\<not> signals e"
  shows "homeward m'"
  using step
proof cases
  case (takes i sh j x)
  then show ?thesis using home by (simp add: homeward_def take_job_def)
next
  case (leaves i sh j)
  then show ?thesis using home take_job_leave [OF leaves(6)] by (simp add: homeward_def)
qed (use home assms(3) in \<open>auto simp: homeward_def after_check_def should_socket_worker_run_def signals_def\<close>)

lemma heard_step:
  assumes heard: "heard m" and inv: "machine_inv m" and step: "fine pl room acts m e m'" and "\<not> signals e"
  shows "heard m'"
proof (cases "homeward m")
  case True
  then show ?thesis using homeward_step [OF True step assms(4)] by (simp add: heard_def)
next
  case False
  have told: "told m" "told m'"
    using heard told_after [OF _ inv step] by (auto simp: heard_def homeward_def)
  show ?thesis
    using step
  proof cases
    case reads
    then show ?thesis
      by (cases rule: after_read_cases [of m])
        (use heard told reads in \<open>auto simp: heard_def homeward_def BUFFER_SIZE_def\<close>)
  next
    case turns
    have "fifo_wf (queue (shares m))" using inv by (simp add: machine_inv_def)
    then show ?thesis
      by (cases rule: after_turn_cases [of m pl])
        (use heard told turns in \<open>auto simp: heard_def homeward_def\<close>)
  qed (use heard told False assms(4) in \<open>auto simp: heard_def homeward_def signals_def\<close>)
qed

interpretation way_home: invariant_of "\<lambda>m e m'. fine pl room acts m e m' \<and> \<not> signals e" homeward homeward
  by unfold_locales (auto intro: homeward_step)

interpretation hearing: invariant_of "\<lambda>m e m'. fine pl room acts m e m' \<and> \<not> signals e"
    "\<lambda>m. heard m \<and> machine_inv m" "\<lambda>m. heard m \<and> machine_inv m"
  by unfold_locales (auto intro: heard_step fine_inv)

section \<open>Room for what the workers have yet to write\<close>

primrec texts_left :: "duty \<Rightarrow> string list" where
  "texts_left Waiting = []"
| "texts_left (Working ts) = ts"
| "texts_left (Writing t ts) = t # ts"
| "texts_left Left = []"

definition unwritten :: "machine \<Rightarrow> nat" where
  "unwritten m = sum_list (map (\<lambda>c. length (concat (texts_left (duty c)))) (crew m))"

definition roomy :: "nat \<Rightarrow> machine \<Rightarrow> bool" where
  "roomy room m \<longleftrightarrow> told m \<and> length (fifo_bytes m) + unwritten m \<le> room"

lemma unwritten_sel [simp]:
  "unwritten (m\<lparr>shares := sh\<rparr>) = unwritten m" "unwritten (m\<lparr>sock := w\<rparr>) = unwritten m"
  "unwritten (m\<lparr>spot := c\<rparr>) = unwritten m" "unwritten (m\<lparr>fifo_bytes := p\<rparr>) = unwritten m"
  "unwritten (m\<lparr>log_sys := s\<rparr>) = unwritten m"
  by (simp_all add: unwritten_def)

lemma unwritten_reassign:
  "crew_at m i d' \<Longrightarrow> unwritten (reassign i d j m) + length (concat (texts_left d'))
     = unwritten m + length (concat (texts_left d))"
  using sum_list_replace [of i "crew m" "\<lambda>c. length (concat (texts_left (duty c)))" "\<lparr>duty = d, job_array = j\<rparr>"]
  by (simp add: unwritten_def reassign_def crew_at_def)

lemma idle_unwritten:
  assumes "\<forall>c \<in> set (crew m). duty c \<in> {Waiting, Left}"
  shows "unwritten m = 0"
proof -
  have "length (concat (texts_left (duty c))) = 0" if "c \<in> set (crew m)" for c
    using assms that by fastforce
  then show ?thesis by (simp add: unwritten_def)
qed

lemma roomy_step:
  assumes roomy: "roomy room m" and inv: "machine_inv m" and step: "fine pl room acts m e m'" and "internal e"
  shows "roomy room m'"
proof -
  have told: "told m" "told m'" using roomy told_after [OF _ inv step] by (auto simp: roomy_def)
  show ?thesis
    using step
  proof cases
    case reads
    then show ?thesis
      by (cases rule: after_read_cases [of m]) (use roomy told reads in \<open>auto simp: roomy_def\<close>)
  next
    case turns
    have "fifo_wf (queue (shares m))" using inv by (simp add: machine_inv_def)
    then show ?thesis
      by (cases rule: after_turn_cases [of m pl]) (use roomy told turns in \<open>auto simp: roomy_def\<close>)
  next
    case (takes i sh j x)
    then show ?thesis using told by (simp add: take_job_def)
  next
    case (leaves i sh j)
    then show ?thesis
      using roomy told unwritten_reassign [of "m\<lparr>shares := sh\<rparr>" i Waiting Left j]
      by (simp add: roomy_def crew_at_def)
  next
    case (opens i t ts)
    then show ?thesis
      using roomy told unwritten_reassign [OF opens(3), of "Writing t ts" "job_array (crew m ! i)"]
        unwritten_reassign [OF opens(3), of "Working ts" "job_array (crew m ! i)"]
      by (auto simp: roomy_def)
  next
    case (puts i t ts)
    then show ?thesis
      using roomy told unwritten_reassign [of "m\<lparr>fifo_bytes := fifo_bytes m @ t\<rparr>" i "Writing t ts" "Working ts"
          "job_array (crew m ! i)"]
      by (simp add: roomy_def crew_at_def)
  next
    case (ends i j)
    then show ?thesis using roomy told unwritten_reassign [OF ends(3), of Waiting j] by (simp add: roomy_def)
  qed (use roomy told assms(4) in \<open>auto simp: roomy_def after_check_def should_socket_worker_run_def\<close>)
qed

interpretation space: invariant_of "\<lambda>m e m'. fine pl room acts m e m' \<and> internal e"
    "\<lambda>m. roomy room m \<and> machine_inv m" "\<lambda>m. roomy room m \<and> machine_inv m"
  by unfold_locales (auto intro: roomy_step fine_inv)

lemma roomy_none_stalled:
  assumes "roomy room m" and "c \<in> set (crew m)"
  shows "\<not> stalled room m c"
proof -
  have "length (concat (texts_left (duty c))) \<in> set (map (\<lambda>c. length (concat (texts_left (duty c)))) (crew m))"
    using assms(2) by auto
  from member_le_sum_list [OF this] have "length (concat (texts_left (duty c))) \<le> unwritten m"
    by (simp add: unwritten_def)
  then show ?thesis using assms(1) by (auto simp: stalled_def roomy_def)
qed

section \<open>Signals that are not heard\<close>

text \<open>A callback that has read, or is about to read, all that would wake up the event loop.\<close>

definition unheard :: "machine \<Rightarrow> bool" where
  "unheard m \<longleftrightarrow> told m \<and> loop_running (sock m)
     \<and> ((\<exists>e. spot m = Faulted e) \<or> spot m \<in> {Scanning, Polling} \<and> fifo_bytes m = []
        \<or> spot m = Reading \<and> length (fifo_bytes m) < BUFFER_SIZE)"

definition rouses :: "occurrence \<Rightarrow> bool" where
  "rouses e = (case e of Puts i \<Rightarrow> True | ClientPuts t \<Rightarrow> t \<noteq> [] | Signalled g \<Rightarrow> stop_signal g
     | SignalledInside g \<Rightarrow> True | _ \<Rightarrow> False)"

lemma unheard_step:
  assumes unheard: "unheard m" and inv: "machine_inv m" and step: "fine pl room acts m e m'" and "\<not> rouses e"
  shows "unheard m'"
proof -
  have told: "told m" "told m'" using unheard told_after [OF _ inv step] by (auto simp: unheard_def)
  show ?thesis
    using step
  proof cases
    case reads
    then show ?thesis
      by (cases rule: after_read_cases [of m]) (use unheard told reads in \<open>auto simp: unheard_def\<close>)
  next
    case turns
    have "fifo_wf (queue (shares m))" using inv by (simp add: machine_inv_def)
    then show ?thesis
      by (cases rule: after_turn_cases [of m pl]) (use unheard told turns in \<open>auto simp: unheard_def\<close>)
  next
    case (signalled g)
    then show ?thesis
      by (cases rule: after_signal_cases [of room g m])
        (use unheard told assms(4) signalled in \<open>auto simp: unheard_def rouses_def\<close>)
  qed (use unheard told assms(4) in \<open>auto simp: unheard_def rouses_def\<close>)
qed

interpretation silence: invariant_of "\<lambda>m e m'. fine pl room acts m e m' \<and> \<not> rouses e"
    "\<lambda>m. unheard m \<and> machine_inv m" "\<lambda>m. unheard m \<and> machine_inv m"
  by unfold_locales (auto intro: unheard_step fine_inv)

section \<open>Threads that block for good\<close>

definition blocked :: "machine \<Rightarrow> bool" where
  "blocked m \<longleftrightarrow> spot m \<in> {SelfBlocked, PipeBlocked}"

text \<open>The steps of workers that need no mutex, and those of clients.\<close>

definition lockless :: "occurrence \<Rightarrow> bool" where
  "lockless e = (case e of Opens i \<Rightarrow> True | Puts i \<Rightarrow> True | Ends i \<Rightarrow> True | ClientPuts t \<Rightarrow> True | _ \<Rightarrow> False)"

lemma blocked_step:
  "blocked m \<Longrightarrow> fine pl room acts m e m' \<Longrightarrow> lockless e \<and> spot m' = spot m \<and> shares m' = shares m"
  by (erule fine.cases) (auto simp: blocked_def lockless_def lock_free_def locks_next_def)

lemma blocked_run:
  "run (fine pl room acts) m es m' \<Longrightarrow> blocked m \<Longrightarrow>
   list_all lockless es \<and> spot m' = spot m \<and> shares m' = shares m"
proof (induction rule: run.induct)
  case (go m e m1 es m')
  from blocked_step [OF go.prems go.hyps(1)] go.IH go.prems show ?case by (simp add: blocked_def)
qed simp

text \<open>A worker stalled behind the end of the event loop.\<close>

definition stranded :: "nat \<Rightarrow> nat \<Rightarrow> machine \<Rightarrow> bool" where
  "stranded room i m \<longleftrightarrow> \<not> fifo_linked (sock m) \<and> (spot m = LoopEnded \<or> (\<exists>e. spot m = Faulted e))
     \<and> i < length (crew m) \<and> stalled room m (crew m ! i)"

lemma reassign_other: "k \<noteq> i \<Longrightarrow> crew (reassign k d j m) ! i = crew m ! i"
  by (simp add: reassign_def)

lemma stranded_step:
  assumes "stranded room i m" and step: "fine pl room acts m e m'"
  shows "stranded room i m' \<and> e \<noteq> Leaves i"
proof -
  obtain t ts where d: "i < length (crew m)" "duty (crew m ! i) = Writing t ts"
      "room < length (fifo_bytes m) + length t" "spot m = LoopEnded \<or> (\<exists>e. spot m = Faulted e)"
      "\<not> fifo_linked (sock m)"
    using assms(1) by (auto simp: stranded_def stalled_def)
  show ?thesis
    using step
  proof cases
    case (signalled g)
    then show ?thesis
      by (cases rule: after_signal_cases [of room g m])
        (use assms(1) d in \<open>auto simp: stranded_def stalled_def\<close>)
  next
    case (takes k sh j x)
    then have "k \<noteq> i" using d(2) by (auto simp: crew_at_def)
    then show ?thesis using d takes(1,2) by (auto simp: stranded_def stalled_def reassign_other)
  next
    case (leaves k sh j)
    then have "k \<noteq> i" using d(2) by (auto simp: crew_at_def)
    then show ?thesis using d leaves(1,2) by (auto simp: stranded_def stalled_def reassign_other)
  next
    case (opens k t' ts')
    then have "k \<noteq> i" using d(2) by (auto simp: crew_at_def)
    then show ?thesis using d opens(1,2) by (auto simp: stranded_def stalled_def reassign_other)
  next
    case (puts k t' ts')
    then have "k \<noteq> i" using d(2,3) by (auto simp: crew_at_def)
    then show ?thesis using d puts(1,2) by (auto simp: stranded_def stalled_def reassign_other)
  next
    case (ends k j)
    then have "k \<noteq> i" using d(2) by (auto simp: crew_at_def)
    then show ?thesis using d ends(1,2) by (auto simp: stranded_def stalled_def reassign_other)
  qed (use d in \<open>auto simp: stranded_def stalled_def locks_next_def\<close>)
qed

lemma stranded_run:
  "run (fine pl room acts) m es m' \<Longrightarrow> stranded room i m \<Longrightarrow> stranded room i m' \<and> Leaves i \<notin> set es"
proof (induction rule: run.induct)
  case (go m e m1 es m')
  from stranded_step [OF go.prems go.hyps(1)] go.IH show ?case by auto
qed simp

lemma after_signal_room:
  assumes "stop_signal g" and "fifo_linked (sock m)" and "length (fifo_bytes m) + length ''QUIT'' \<le> room"
  shows "after_signal room g m
    = m\<lparr>shares := (shares m)\<lparr>should_run := False\<rparr>, fifo_bytes := fifo_bytes m @ ''QUIT''\<rparr>"
  using assms
  by (auto simp: after_signal_def outcome_def signal_handler_def write_fifo_def stop_signal_def)

lemma linked_in_loop:
  "machine_inv m \<Longrightarrow> spot m \<in> {Polling, Unlocked, Reading, Scanning} \<Longrightarrow> fifo_linked (sock m)"
  by (auto simp: machine_inv_def)

inductive_cases fine_signalled: "fine pl room acts m (Signalled g) m'"
inductive_cases fine_inside: "fine pl room acts m (SignalledInside g) m'"

section \<open>From the signal to the end\<close>

lemma signal_heard:
  assumes inv: "machine_inv m" and step: "fine pl room acts m (Signalled g) m\<^sub>1" and stop: "stop_signal g"
    and spot: "spot m \<in> {Polling, Unlocked, Reading, Scanning}"
    and room: "length (fifo_bytes m) + length ''QUIT'' \<le> room"
    and read: "spot m = Reading \<longrightarrow> BUFFER_SIZE \<le> length (fifo_bytes m) + length ''QUIT''"
  shows "machine_inv m\<^sub>1" and "told m\<^sub>1" and "heard m\<^sub>1"
    and "spot m \<in> {Polling, Unlocked} \<Longrightarrow> homeward m\<^sub>1"
    and "fifo_bytes m\<^sub>1 = fifo_bytes m @ ''QUIT''" and "unwritten m\<^sub>1 = unwritten m"
proof -
  have m1: "m\<^sub>1 = m\<lparr>shares := (shares m)\<lparr>should_run := False\<rparr>, fifo_bytes := fifo_bytes m @ ''QUIT''\<rparr>"
    using step after_signal_room [OF stop linked_in_loop [OF inv spot] room] by (auto elim: fine_signalled)
  show "machine_inv m\<^sub>1" using fine_inv [OF inv step] .
  show "told m\<^sub>1" "heard m\<^sub>1" "fifo_bytes m\<^sub>1 = fifo_bytes m @ ''QUIT''" "unwritten m\<^sub>1 = unwritten m"
    using spot read by (auto simp: m1 heard_def homeward_def)
  show "homeward m\<^sub>1" if "spot m \<in> {Polling, Unlocked}" using that by (auto simp: m1 homeward_def)
qed

lemma quiet_run:
  assumes run: "run (fine pl room acts) m fs m'" and quiet: "\<forall>e \<in> set fs. \<not> signals e"
    and inv: "machine_inv m" and "heard m"
  shows "machine_inv m'" and "heard m'" and "homeward m \<Longrightarrow> homeward m'"
proof -
  note r = run_restrict [OF run quiet]
  show "machine_inv m'" "heard m'" using hearing.run_inv [OF r] assms(3,4) by simp_all
  show "homeward m'" if "homeward m" using way_home.run_inv [OF r that] .
qed

lemma heard_at_rest:
  assumes rest: "at_rest pl room acts m" and inv: "machine_inv m" and "heard m"
  shows "wound_up room m \<or> (\<exists>e. spot m = Faulted e)" and "homeward m \<Longrightarrow> wound_up room m"
proof -
  have told: "told m" using assms(3) by (auto simp: heard_def homeward_def)
  show "wound_up room m \<or> (\<exists>e. spot m = Faulted e)" "homeward m \<Longrightarrow> wound_up room m"
    using at_rest_main [OF rest inv] at_rest_wound_up [OF rest inv told] assms(3)
    by (auto simp: heard_def homeward_def)
qed

lemma roomy_run:
  assumes run: "run (fine pl room acts) m fs m'" and own: "list_all internal fs" and inv: "machine_inv m"
    and "roomy room m" and up: "wound_up room m'" and c: "c \<in> set (crew m')"
  shows "duty c = Left"
proof -
  have "run (\<lambda>m e m'. fine pl room acts m e m' \<and> internal e) m fs m'"
    using run_restrict [OF run] own by (simp add: list_all_iff)
  then have "roomy room m'" using space.run_inv inv assms(4) by blast
  then show ?thesis using roomy_none_stalled [OF _ c] up c by (auto simp: wound_up_def)
qed

text \<open>A signal that finds the main thread in the event loop, with room for all that is still to be written.\<close>

lemma way_to_rest:
  assumes "machine_started m\<^sub>0" and "run (fine pl room acts) m\<^sub>0 es m" and "spot m \<in> {Polling, Unlocked}"
    and "stop_signal g" and "fine pl room acts m (Signalled g) m\<^sub>1"
    and "length (fifo_bytes m) + length ''QUIT'' + unwritten m \<le> room"
  shows "\<exists>fs m\<^sub>2. run (fine pl room acts) m\<^sub>1 fs m\<^sub>2 \<and> list_all internal fs \<and> at_rest pl room acts m\<^sub>2"
proof -
  have "length (fifo_bytes m) + length ''QUIT'' \<le> room" using assms(6) by simp
  from signal_heard [OF crew.reachable_inv [OF assms(1,2)] assms(5,4) _ this] assms(3)
  have "machine_inv m\<^sub>1" "told m\<^sub>1" by auto
  from stopping.run_exhausts [OF this] show ?thesis by (auto simp: at_rest_def)
qed

lemma end_of_way:
  assumes "machine_started m\<^sub>0" and "run (fine pl room acts) m\<^sub>0 es m" and "spot m \<in> {Polling, Unlocked}"
    and "stop_signal g" and "fine pl room acts m (Signalled g) m\<^sub>1"
    and "length (fifo_bytes m) + length ''QUIT'' + unwritten m \<le> room"
    and "run (fine pl room acts) m\<^sub>1 fs m\<^sub>2" and "list_all internal fs" and "at_rest pl room acts m\<^sub>2"
  shows "spot m\<^sub>2 = LoopEnded" and "\<forall>c \<in> set (crew m\<^sub>2). duty c = Left"
proof -
  have room: "length (fifo_bytes m) + length ''QUIT'' \<le> room" using assms(6) by simp
  have spot: "spot m \<in> {Polling, Unlocked, Reading, Scanning}"
      "spot m = Reading \<longrightarrow> BUFFER_SIZE \<le> length (fifo_bytes m) + length ''QUIT''"
    using assms(3) by auto
  note h = signal_heard [OF crew.reachable_inv [OF assms(1,2)] assms(5,4) spot(1) room spot(2)]
  have quiet: "\<forall>e \<in> set fs. \<not> signals e" using assms(8) by (auto simp: list_all_iff internal_def)
  note q = quiet_run [OF assms(7) quiet h(1,3)]
  have up: "wound_up room m\<^sub>2" using heard_at_rest(2) [OF assms(9) q(1,2) q(3) [OF h(4) [OF assms(3)]]] .
  have "roomy room m\<^sub>1" using h(2,5,6) assms(6) by (simp add: roomy_def)
  then show "\<forall>c \<in> set (crew m\<^sub>2). duty c = Left"
    using roomy_run [OF assms(7,8) h(1) _ up] by blast
  show "spot m\<^sub>2 = LoopEnded" using up by (simp add: wound_up_def)
qed

section \<open>Properties\<close>

text \<open>
  C8: A signal to stop is heard wherever it finds the main thread outside its critical sections, except
  between the check and a read that swallows the \<^verbatim>\<open>QUIT\<close>, provided that the FIFO has room. Then, whatever
  clients write, a bounded number of steps is left, they can be made until nothing moves, and then the
  event loop has ended and every worker has left, or is stalled in its write to the FIFO that nobody
  reads any more; none is stalled when there was room for all they had yet to write. (A chunk that was
  being enqueued may end in a fault instead.)
\<close>

theorem stop_signal_ends:
  assumes "machine_started m\<^sub>0" and "run (fine pl room acts) m\<^sub>0 es m"
    and "fine pl room acts m (Signalled g) m\<^sub>1" and "stop_signal g"
    and "spot m \<in> {Polling, Unlocked, Reading, Scanning}"
    and "length (fifo_bytes m) + length ''QUIT'' \<le> room"
    and "spot m = Reading \<longrightarrow> BUFFER_SIZE \<le> length (fifo_bytes m) + length ''QUIT''"
    and "run (fine pl room acts) m\<^sub>1 fs m\<^sub>2" and "\<forall>e \<in> set fs. \<not> signals e"
  shows "length (filter internal fs) \<le> machine_effort m\<^sub>1
     \<and> (\<exists>gs m\<^sub>3. run (fine pl room acts) m\<^sub>2 gs m\<^sub>3 \<and> list_all internal gs \<and> at_rest pl room acts m\<^sub>3)
     \<and> (at_rest pl room acts m\<^sub>2 \<longrightarrow>
          wound_up room m\<^sub>2 \<or> spot m \<in> {Reading, Scanning} \<and> (\<exists>e. spot m\<^sub>2 = Faulted e))
     \<and> (wound_up room m\<^sub>2 \<and> list_all internal fs \<and> length (fifo_bytes m\<^sub>1) + unwritten m\<^sub>1 \<le> room \<longrightarrow>
          (\<forall>c \<in> set (crew m\<^sub>2). duty c = Left))"
proof -
  note h = signal_heard [OF crew.reachable_inv [OF assms(1,2)] assms(3-7)]
  note q = quiet_run [OF assms(8,9) h(1,3)]
  have told: "told m\<^sub>2" and bound: "length (filter internal fs) \<le> machine_effort m\<^sub>1"
    using stopping.run_bounded [OF assms(8) h(1,2)] by simp_all
  have "wound_up room m\<^sub>2 \<or> spot m \<in> {Reading, Scanning} \<and> (\<exists>e. spot m\<^sub>2 = Faulted e)"
    if "at_rest pl room acts m\<^sub>2"
    using heard_at_rest [OF that q(1,2)] q(3) h(4) assms(5) by auto
  moreover have "duty c = Left"
    if "wound_up room m\<^sub>2" "list_all internal fs" "length (fifo_bytes m\<^sub>1) + unwritten m\<^sub>1 \<le> room"
      "c \<in> set (crew m\<^sub>2)" for c
    using roomy_run [OF assms(8) that(2) h(1) _ that(1,4)] that(3) h(2) by (simp add: roomy_def)
  ultimately show ?thesis
    using bound stopping.run_exhausts [OF q(1) told] by (auto simp: at_rest_def)
qed

lemma sample_signalled:
  assumes "length (fifo_bytes m) = 0" and "spot m \<in> {Polling, Reading}" and "fifo_linked (sock m)"
  shows "fine permissive 4096 None m (Signalled SIGTERM)
      (m\<lparr>shares := (shares m)\<lparr>should_run := False\<rparr>, fifo_bytes := ''QUIT''\<rparr>)"
  using fine.signalled [of m permissive 4096 None SIGTERM] after_signal_room [of SIGTERM m 4096] assms
  by (auto simp: lock_free_def stop_signal_def)

lemma sample_machine_at:
  "spot sample_machine = Polling" "fifo_bytes sample_machine = []" "fifo_linked (sock sample_machine)"
  "loop_running (sock sample_machine)" "should_run (shares sample_machine)"
  using sample_machine_started by (simp_all add: machine_started_def)

theorem stop_signal_ends_witness:
  "\<exists>m\<^sub>1 gs m\<^sub>3. fine permissive 4096 None sample_machine (Signalled SIGTERM) m\<^sub>1
     \<and> run (fine permissive 4096 None) m\<^sub>1 gs m\<^sub>3 \<and> spot m\<^sub>3 = LoopEnded
     \<and> (\<forall>c \<in> set (crew m\<^sub>3). duty c = Left)"
proof -
  let ?step = "fine permissive 4096 None"
  let ?m1 = "sample_machine\<lparr>shares := (shares sample_machine)\<lparr>should_run := False\<rparr>, fifo_bytes := ''QUIT''\<rparr>"
  have step: "?step sample_machine (Signalled SIGTERM) ?m1"
    using sample_signalled [of sample_machine] by (simp add: sample_machine_at)
  have here: "run ?step sample_machine [] sample_machine" "stop_signal SIGTERM"
      "spot sample_machine \<in> {Polling, Unlocked, Reading, Scanning}"
      "length (fifo_bytes sample_machine) + length ''QUIT'' \<le> 4096"
      "spot sample_machine = Reading \<longrightarrow> BUFFER_SIZE \<le> length (fifo_bytes sample_machine) + length ''QUIT''"
    by (simp_all add: sample_machine_at stop_signal_def)
  note ends = stop_signal_ends [OF sample_machine_started here(1) step here(2-5)]
  have "run ?step ?m1 [] ?m1" "\<forall>e \<in> set []. \<not> signals e" by simp_all
  from ends [OF this] obtain gs m3 where gs: "run ?step ?m1 gs m3" "list_all internal gs"
      "at_rest permissive 4096 None m3"
    by blast
  have "\<forall>e \<in> set gs. \<not> signals e" using gs(2) by (auto simp: list_all_iff internal_def)
  moreover have "unwritten ?m1 = 0"
    by (simp add: unwritten_def sample_machine_def machine_of_def sample_daemon_def)
  ultimately have "wound_up 4096 m3" "\<forall>c \<in> set (crew m3). duty c = Left"
    using ends [OF gs(1)] gs(2,3) by (auto simp: sample_machine_at)
  then show ?thesis using step gs(1) by (auto simp: wound_up_def)
qed

text \<open>
  C24: A signal to stop that arrives between the check of the callback and its read is lost when what is
  in the FIFO, with the \<^verbatim>\<open>QUIT\<close>, fits one read: the event loop runs on, and comes to rest waiting, until
  somebody writes to the FIFO or another signal comes.
\<close>

theorem stop_signal_lost:
  assumes "machine_started m\<^sub>0" and "run (fine pl room acts) m\<^sub>0 es m"
    and "fine pl room acts m (Signalled g) m\<^sub>1" and "stop_signal g" and "spot m = Reading"
    and "length (fifo_bytes m) + length ''QUIT'' \<le> room"
    and "length (fifo_bytes m) + length ''QUIT'' < BUFFER_SIZE"
    and "run (fine pl room acts) m\<^sub>1 fs m\<^sub>2" and "\<forall>e \<in> set fs. \<not> rouses e"
  shows "\<not> should_run (shares m\<^sub>2) \<and> loop_running (sock m\<^sub>2) \<and> spot m\<^sub>2 \<noteq> LoopEnded
     \<and> (at_rest pl room acts m\<^sub>2 \<longrightarrow> spot m\<^sub>2 = Polling \<and> fifo_bytes m\<^sub>2 = [] \<or> (\<exists>e. spot m\<^sub>2 = Faulted e))"
proof -
  have inv: "machine_inv m" using crew.reachable_inv [OF assms(1,2)] .
  have linked: "fifo_linked (sock m)" "loop_running (sock m)"
    using inv assms(5) by (auto simp: machine_inv_def)
  have m1: "m\<^sub>1 = m\<lparr>shares := (shares m)\<lparr>should_run := False\<rparr>, fifo_bytes := fifo_bytes m @ ''QUIT''\<rparr>"
    using assms(3) after_signal_room [OF assms(4) linked(1) assms(6)] by (auto elim: fine_signalled)
  have inv1: "machine_inv m\<^sub>1" using fine_inv [OF inv assms(3)] .
  have "unheard m\<^sub>1" using linked(2) assms(5,7) by (simp add: m1 unheard_def)
  then have "unheard m\<^sub>2" "machine_inv m\<^sub>2"
    using silence.run_inv [OF run_restrict [OF assms(8,9)]] inv1 by blast+
  then show ?thesis using at_rest_main [of pl room acts m\<^sub>2] by (auto simp: unheard_def)
qed

theorem stop_signal_lost_witness:
  "\<exists>m m\<^sub>1 m\<^sub>2. run (fine permissive 4096 None) sample_machine [ClientPuts ''x'', Checks, Enters] m
     \<and> fine permissive 4096 None m (Signalled SIGTERM) m\<^sub>1 \<and> fine permissive 4096 None m\<^sub>1 Reads m\<^sub>2
     \<and> loop_running (sock m\<^sub>2) \<and> \<not> should_run (shares m\<^sub>2)"
proof -
  let ?step = "fine permissive 4096 None"
  let ?a = "sample_machine\<lparr>fifo_bytes := ''x''\<rparr>" let ?m = "?a\<lparr>spot := Reading\<rparr>"
  let ?m1 = "?m\<lparr>shares := (shares ?m)\<lparr>should_run := False\<rparr>, fifo_bytes := ''xQUIT''\<rparr>"
  have "?step sample_machine (ClientPuts ''x'') ?a"
    using fine.client_puts [of "''x''" sample_machine 4096 permissive None] by (simp add: sample_machine_at)
  moreover have "?step ?a Checks (?a\<lparr>spot := Unlocked\<rparr>)"
    using fine.checks [of ?a permissive 4096 None] sample_machine_at
    by (simp add: after_check_def should_socket_worker_run_def)
  moreover have "?step (?a\<lparr>spot := Unlocked\<rparr>) Enters ?m"
    using fine.enters [of "?a\<lparr>spot := Unlocked\<rparr>" permissive 4096 None] sample_machine_at by simp
  ultimately have es: "run ?step sample_machine [ClientPuts ''x'', Checks, Enters] ?m"
    unfolding run_Cons run_Nil by blast
  have step: "?step ?m (Signalled SIGTERM) ?m1"
    using fine.signalled [of ?m permissive 4096 None SIGTERM] after_signal_room [of SIGTERM ?m 4096]
    by (simp add: lock_free_def stop_signal_def sample_machine_at)
  have reads: "?step ?m1 Reads (after_read ?m1)" by (rule fine.reads) simp
  then have "run ?step ?m1 [Reads] (after_read ?m1)" by (auto simp: run_Cons)
  moreover have "stop_signal SIGTERM" "spot ?m = Reading" "length (fifo_bytes ?m) + length ''QUIT'' \<le> 4096"
      "length (fifo_bytes ?m) + length ''QUIT'' < BUFFER_SIZE" "\<forall>e \<in> set [Reads]. \<not> rouses e"
    by (simp_all add: stop_signal_def BUFFER_SIZE_def rouses_def)
  ultimately show ?thesis
    using stop_signal_lost [OF sample_machine_started es step] es step reads by blast
qed



text \<open>
  C26: A worker whose write finds no room in the FIFO when the event loop has ended never leaves, so that
  \<^verbatim>\<open>main\<close> waits for it forever: nobody reads the FIFO any more, and although its name is gone the worker
  had opened it before.
\<close>

theorem stalled_worker_stays:
  assumes "machine_started m\<^sub>0" and "run (fine pl room acts) m\<^sub>0 es m" and "spot m = LoopEnded"
    and "i < length (crew m)" and "stalled room m (crew m ! i)"
    and "run (fine pl room acts) m fs m'"
  shows "i < length (crew m') \<and> duty (crew m' ! i) \<noteq> Left \<and> Leaves i \<notin> set fs"
proof -
  have "machine_inv m" using crew.reachable_inv [OF assms(1,2)] .
  then have "stranded room i m" using assms(3-5) by (auto simp: stranded_def machine_inv_def)
  from stranded_run [OF assms(6) this] show ?thesis by (auto simp: stranded_def stalled_def)
qed

text \<open>A machine whose worker is in its write of a command when the event loop ends, in a FIFO of 20 bytes.\<close>

definition sample_actions :: "action_slot list option" where
  "sample_actions = actions (sample_globals [''http://a''])"

lemma sample_stalled:
  "\<exists>es m. run (fine permissive 20 sample_actions) sample_machine es m \<and> spot m = LoopEnded
     \<and> 0 < length (crew m) \<and> stalled 20 m (crew m ! 0)"
proof -
  let ?step = "fine permissive 20 sample_actions" let ?t = "''CACHE http://a'' @ [newline]"
  have line: "NUL \<notin> set ''UPDATE home'' \<and> newline \<notin> set ''UPDATE home''
      \<and> length ''UPDATE home'' + 2 < BUFFER_SIZE \<and> length ''UPDATE home'' + 1 \<le> (20::nat)"
    by code_simp
  obtain es m where m: "run ?step sample_machine es m" "should_run (shares m)"
      "queued m = [''UPDATE home'']" "crew m = crew sample_machine" "spot m = Polling" "fifo_bytes m = []"
    using sample_line_run [OF line, of sample_actions] by blast
  have inv: "machine_inv m" using crew.reachable_inv [OF sample_machine_started m(1)] .
  have crew: "crew m = [\<lparr>duty = Waiting, job_array = fresh BUFFER_SIZE\<rparr>]"
    by (simp add: m(4) sample_machine_def machine_of_def sample_daemon_def)
  then have at: "crew_at m 0 Waiting" by (simp add: crew_at_def)
  have "1 \<le> url_count (shares m)" using inv m(2,3) by (simp add: machine_inv_def)
  from take_job_step [OF inv m(2) this crew_at_array [OF inv at]] m(3)
  obtain sh j where take: "take_job (shares m) (job_array (crew m ! 0)) = Inr (False, sh, j)"
      "str_at j 0 = Inr ''UPDATE home''" "waiting sh []"
    by auto
  have texts: "round_texts sample_actions ''UPDATE home'' = [?t]" by code_simp
  let ?m1 = "reassign 0 (Working [?t]) j (m\<lparr>shares := sh\<rparr>)"
  let ?m2 = "reassign 0 (Writing ?t []) j (m\<lparr>shares := sh\<rparr>)"
  let ?m3 = "?m2\<lparr>fifo_bytes := ''0123456789''\<rparr>"
  let ?m4 = "?m3\<lparr>shares := sh\<lparr>should_run := False\<rparr>, fifo_bytes := ''0123456789QUIT''\<rparr>"
  have linked: "fifo_linked (sock m)" "loop_running (sock m)" using inv m(5) by (auto simp: machine_inv_def)
  have s1: "?step m (Takes 0 j) ?m1"
    using fine.takes [OF _ at _ take(1,2), of permissive 20 sample_actions] m(5)
      \<open>1 \<le> url_count (shares m)\<close> texts by (simp add: lock_free_def)
  have s2: "?step ?m1 (Opens 0) ?m2"
    using fine.opens [of ?m1 0 ?t "[]" permissive 20 sample_actions] linked(1) crew
    by (simp add: crew_at_def reassign_def)
  have s3: "?step ?m2 (ClientPuts ''0123456789'') ?m3"
    using fine.client_puts [of "''0123456789''" ?m2 20 permissive sample_actions] m(6) by simp
  have s4: "?step ?m3 (Signalled SIGTERM) ?m4"
    using fine.signalled [of ?m3 permissive 20 sample_actions SIGTERM] m(5) linked(1)
      after_signal_room [of SIGTERM ?m3 20]
    by (simp add: lock_free_def stop_signal_def)
  have s5: "?step ?m4 Checks (after_check ?m4)"
    using m(5) linked(2) by (intro fine.checks) simp_all
  have "spot (after_check ?m4) = LoopEnded \<and> 0 < length (crew (after_check ?m4))
      \<and> stalled 20 (after_check ?m4) (crew (after_check ?m4) ! 0)"
    using crew by (simp add: after_check_def should_socket_worker_run_def stalled_def reassign_def)
  moreover have "run ?step sample_machine
      (es @ [Takes 0 j, Opens 0, ClientPuts ''0123456789'', Signalled SIGTERM, Checks]) (after_check ?m4)"
    unfolding run_append run_Cons run_Nil using m(1) s1 s2 s3 s4 s5 by blast
  ultimately show ?thesis by blast
qed

theorem stalled_worker_stays_witness:
  "\<exists>es m. run (fine permissive 20 sample_actions) sample_machine es m \<and> spot m = LoopEnded
     \<and> (\<forall>fs m'. run (fine permissive 20 sample_actions) m fs m' \<longrightarrow> duty (crew m' ! 0) \<noteq> Left)"
proof -
  obtain es m where m: "run (fine permissive 20 sample_actions) sample_machine es m" "spot m = LoopEnded"
      "0 < length (crew m)" "stalled 20 m (crew m ! 0)"
    using sample_stalled by blast
  then show ?thesis using stalled_worker_stays [OF sample_machine_started m] by blast
qed

end
