(* ===== verification/Mutex.thy ===== *)
theory Mutex
  imports Transition_Interface
begin

text \<open>
  Who holds \<^verbatim>\<open>mutex\<close> of \<^verbatim>\<open>src/src/queral.c\<close>. The main thread locks it in
  \<^verbatim>\<open>should_socket_worker_run\<close> and around each enqueue of \<^verbatim>\<open>socket_cb\<close>, a worker around the wait for a
  job and the dequeue, and \<^verbatim>\<open>signal_handler\<close> in whatever code of the main thread the signal
  interrupts (\<^verbatim>\<open>create_thread\<close> blocks all signals in the workers, and the handler's mask is full, so
  it is not interrupted itself). The mutex is of the default kind: a thread that locks it a second
  time blocks. The theories \<open>Protocol\<close> and \<open>Interleaving\<close> take each critical section as one step; this theory
  looks at the steps between lock and unlock.
\<close>

section \<open>State and steps\<close>

datatype thread_id = MainThread | WorkerThread nat

datatype place = Outside | Inside

text \<open>\<open>Interrupted c h\<close>: the handler runs, itself at \<open>h\<close>, and will return to code that is at \<open>c\<close>.\<close>

datatype main_pc = Running place | Interrupted place place

record lock_state =
  owner :: "thread_id option"
  main_at :: main_pc
  workers_at :: "place list"

datatype lock_event =
  MainLock | MainUnlock | SignalArrives | HandlerLock | HandlerUnlock
  | WorkerLock nat | WorkerUnlock nat

inductive lock_step :: "lock_state \<Rightarrow> lock_event \<Rightarrow> lock_state \<Rightarrow> bool" where
  main_lock: "owner s = None \<Longrightarrow> main_at s = Running Outside \<Longrightarrow>
    lock_step s MainLock (s\<lparr>owner := Some MainThread, main_at := Running Inside\<rparr>)"
| main_unlock: "main_at s = Running Inside \<Longrightarrow>
    lock_step s MainUnlock (s\<lparr>owner := None, main_at := Running Outside\<rparr>)"
| interrupt: "main_at s = Running c \<Longrightarrow>
    lock_step s SignalArrives (s\<lparr>main_at := Interrupted c Outside\<rparr>)"
| handler_lock: "owner s = None \<Longrightarrow> main_at s = Interrupted c Outside \<Longrightarrow>
    lock_step s HandlerLock (s\<lparr>owner := Some MainThread, main_at := Interrupted c Inside\<rparr>)"
| handler_unlock: "main_at s = Interrupted c Inside \<Longrightarrow>
    lock_step s HandlerUnlock (s\<lparr>owner := None, main_at := Running c\<rparr>)"
| worker_lock: "owner s = None \<Longrightarrow> i < length (workers_at s) \<Longrightarrow> workers_at s ! i = Outside \<Longrightarrow>
    lock_step s (WorkerLock i)
      (s\<lparr>owner := Some (WorkerThread i), workers_at := (workers_at s)[i := Inside]\<rparr>)"
| worker_unlock: "i < length (workers_at s) \<Longrightarrow> workers_at s ! i = Inside \<Longrightarrow>
    lock_step s (WorkerUnlock i)
      (s\<lparr>owner := None, workers_at := (workers_at s)[i := Outside]\<rparr>)"

definition unlocked :: "lock_state \<Rightarrow> bool" where
  "unlocked s \<longleftrightarrow> owner s = None \<and> main_at s = Running Outside
     \<and> (\<forall>c \<in> set (workers_at s). c = Outside)"

section \<open>The owner is the thread inside\<close>

definition main_inside :: "main_pc \<Rightarrow> bool" where
  "main_inside pc = (case pc of Running c \<Rightarrow> c = Inside | Interrupted c h \<Rightarrow> c = Inside \<or> h = Inside)"

definition lock_inv :: "lock_state \<Rightarrow> bool" where
  "lock_inv s \<longleftrightarrow>
     (owner s = Some MainThread \<longleftrightarrow> main_inside (main_at s)) \<and> main_at s \<noteq> Interrupted Inside Inside
     \<and> (\<forall>i < length (workers_at s). workers_at s ! i = Inside \<longleftrightarrow> owner s = Some (WorkerThread i))
     \<and> (\<forall>i. owner s = Some (WorkerThread i) \<longrightarrow> i < length (workers_at s))"

lemma lock_step_inv: "lock_inv s \<Longrightarrow> lock_step s e s' \<Longrightarrow> lock_inv s'"
  by (erule lock_step.cases; cases "main_at s")
    (auto simp: lock_inv_def main_inside_def nth_list_update split: if_splits)

lemma all_outside: "\<forall>c \<in> set cs. c = Outside \<Longrightarrow> i < length cs \<Longrightarrow> cs ! i \<noteq> Inside"
  using nth_mem [of i cs] by force

lemma unlocked_inv: "unlocked s \<Longrightarrow> lock_inv s"
  by (auto simp: unlocked_def lock_inv_def main_inside_def all_outside)

interpretation mutex: invariant_of lock_step unlocked lock_inv
  by unfold_locales (rule unlocked_inv, assumption, rule lock_step_inv)

lemma not_Inside: "c \<noteq> Inside \<longleftrightarrow> c = Outside"
  by (cases c) simp_all

text \<open>The state of a main thread that waits for itself, and that it is never left.\<close>

definition self_blocked :: "lock_state \<Rightarrow> bool" where
  "self_blocked s \<longleftrightarrow> owner s = Some MainThread \<and> main_at s = Interrupted Inside Outside
     \<and> (\<forall>c \<in> set (workers_at s). c = Outside)"

lemma self_blocked_stuck: "self_blocked s \<Longrightarrow> \<not> lock_step s e s'"
  by (auto simp: self_blocked_def elim!: lock_step.cases dest: all_outside)

section \<open>Properties\<close>

text \<open>
  The mutex excludes: in every reachable state at most one thread is inside a critical section,
  and a worker never is while the main thread or its signal handler is.
\<close>

lemma critical_sections_exclude:
  assumes "unlocked s\<^sub>0" and "run lock_step s\<^sub>0 es s" and "i < length (workers_at s)"
    and "workers_at s ! i = Inside"
  shows "\<not> main_inside (main_at s)
     \<and> (\<forall>j < length (workers_at s). workers_at s ! j = Inside \<longrightarrow> j = i)"
  using mutex.reachable_inv [OF assms(1,2)] assms(3,4) by (auto simp: lock_inv_def)

text \<open>
  A signal that arrives while the main thread is inside one of its critical sections blocks the
  daemon for good: the handler waits for the mutex its own thread holds, and no thread can make a
  step on the mutex any more.
\<close>

lemma signal_inside_deadlocks:
  assumes "unlocked s\<^sub>0" and "run lock_step s\<^sub>0 es s" and "main_at s = Running Inside"
    and "lock_step s SignalArrives s'"
  shows "main_at s' = Interrupted Inside Outside \<and> (\<forall>fs s''. run lock_step s' fs s'' \<longrightarrow> fs = [] \<and> s'' = s')"
proof -
  have inv: "lock_inv s" using mutex.reachable_inv [OF assms(1,2)] .
  then have own: "owner s = Some MainThread" using assms(3) by (simp add: lock_inv_def main_inside_def)
  have s': "s' = s\<lparr>main_at := Interrupted Inside Outside\<rparr>"
    using assms(3,4) by (auto elim: lock_step.cases)
  have "c = Outside" if "c \<in> set (workers_at s)" for c
    using that inv own by (auto simp: lock_inv_def in_set_conv_nth not_Inside)
  then have "self_blocked s'" using s' own by (simp add: self_blocked_def)
  then have "fs = [] \<and> s'' = s'" if "run lock_step s' fs s''" for fs s''
    using that self_blocked_stuck by (cases fs) (auto simp: run_Cons)
  then show ?thesis using s' by simp
qed

end
