(* ===== verification/Daemon_Utils.thy ===== *)
theory Daemon_Utils
  imports Config_Lists "HOL-Library.Word" "HOL-Library.While_Combinator"
begin

text \<open>
  \<^verbatim>\<open>src/src/daemon_utils.c\<close>: becoming a daemon. The kernel's answers are collected in the record
  \<open>os\<close>; what the calls change is the record \<open>host\<close>. A file is opened at the lowest free descriptor,
  as POSIX prescribes. The results of \<^verbatim>\<open>ftruncate\<close> and \<^verbatim>\<open>write\<close> on the lock file are ignored by the
  code; both are taken to succeed. The loop that closes the descriptors counts in 32 bits up to a
  64-bit limit, so \<open>daemonize\<close> is a \<open>run\<close> that may not return.
\<close>

section \<open>The kernel\<close>

text \<open>The outcomes of \<^verbatim>\<open>fcntl(fd, F_SETLK, ...)\<close>: success, \<^verbatim>\<open>EACCES\<close> or \<^verbatim>\<open>EAGAIN\<close>, another error.\<close>

datatype lock_result = LockGranted | LockBusy | LockError

record os =
  nofile_limit :: "64 word option"
  fork_answer :: int
  setsid_answer :: int
  sigaction_answer :: int
  chdir_answer :: int
  can_open :: "string \<Rightarrow> bool"
  lock_answer :: lock_result
  own_pid :: int

record host =
  descriptors :: "nat list"
  mask_cleared :: bool
  session_leader :: bool
  hup_ignored :: bool
  working_dir :: string
  lock_held :: bool
  lock_text :: string

definition lowest_free :: "nat list \<Rightarrow> nat" where
  "lowest_free fds = hd (filter (\<lambda>n. n \<notin> set fds) [0..<Suc (length fds)])"

definition open_file :: "os \<Rightarrow> string \<Rightarrow> host \<Rightarrow> int \<times> host" where
  "open_file k name h =
     (if can_open k name
      then (int (lowest_free (descriptors h)),
            h\<lparr>descriptors := lowest_free (descriptors h) # descriptors h\<rparr>)
      else (-1, h))"

section \<open>The code\<close>

definition DAEMON_WORKING_DIR :: string where
  "DAEMON_WORKING_DIR = ''/''"

definition DAEMON_STD_FILE :: string where
  "DAEMON_STD_FILE = ''/dev/null''"

definition lockfile :: "os \<Rightarrow> host \<Rightarrow> int \<times> host" where
  "lockfile k h =
     (case lock_answer k of LockGranted \<Rightarrow> (0, h\<lparr>lock_held := True\<rparr>) | _ \<Rightarrow> (-1, h))"

definition already_running :: "os \<Rightarrow> string \<Rightarrow> host \<Rightarrow> sys \<Rightarrow> (int \<times> host \<times> sys) res" where
  "already_running k lock_file h s =
     (let (fd, h) = open_file k lock_file h in
      if fd < 0 then
        chk (log_error (''Failed to open the lock file: '' @ quoted ''%s'') [AStr lock_file] s) (\<lambda>s.
        Inr (1, h, s))
      else
        let (locked, h) = lockfile k h in
        if locked < 0 then
          (if lock_answer k = LockBusy then
             Inr (1, h\<lparr>descriptors := removeAll (nat fd) (descriptors h)\<rparr>, s)
           else
             chk (log_error ''Failed to lock the daemon'' [] s) (\<lambda>s.
             Inr (1, h, s)))
        else
          let h = h\<lparr>lock_text := []\<rparr> in
          chk (printf_from ''%ld'' [AInt (own_pid k)]) (\<lambda>t.
          chk (strcpy (fresh 16) 0 t) (\<lambda>buf.
          chk (str_at buf 0) (\<lambda>text.
          Inr (0, h\<lparr>lock_text := text @ [NUL]\<rparr>, s)))))"

text \<open>The loop over the descriptors, and \<^verbatim>\<open>RLIM_INFINITY\<close>.\<close>

definition close_all :: "64 word \<Rightarrow> nat list \<Rightarrow> (32 word \<times> nat list) option" where
  "close_all rlim_max fds =
     while_option (\<lambda>(i, fds). (ucast i :: 64 word) < rlim_max) (\<lambda>(i, fds). (i + 1, removeAll (unat i) fds))
       (0, fds)"

definition RLIM_INFINITY :: "64 word" where
  "RLIM_INFINITY = -1"

datatype outcome = Exits int | Returns int

definition daemonize :: "os \<Rightarrow> string \<Rightarrow> host \<Rightarrow> sys \<Rightarrow> (outcome \<times> host \<times> sys) run" where
  "daemonize k pidfile h s =
     (let h = h\<lparr>mask_cleared := True\<rparr>;
          failed = (\<lambda>message h. andthen (Some (log_error message [] s)) (\<lambda>s. Some (Inr (Returns (-1), h, s))))
      in case nofile_limit k of
        None \<Rightarrow> failed ''Failed to get file limit'' h
      | Some rlim_max \<Rightarrow>
          if fork_answer k < 0 then failed ''Failed to fork a new process'' h
          else if fork_answer k \<noteq> 0 then Some (Inr (Exits 0, h, s))
          else if setsid_answer k < 0 then
            failed ''Failed to create a new SID for the child process'' h
          else
            let h = h\<lparr>session_leader := True\<rparr> in
            if sigaction_answer k < 0 then failed ''Failed to ignore SIGHUP'' h
            else
              let h = h\<lparr>hup_ignored := True\<rparr> in
              if chdir_answer k < 0 then
                andthen (Some (log_error (''Failed to change the working directory to: '' @ quoted ''%s'')
                                 [AStr DAEMON_WORKING_DIR] s)) (\<lambda>s.
                Some (Inr (Returns (-1), h, s)))
              else
                let h = h\<lparr>working_dir := DAEMON_WORKING_DIR\<rparr>;
                    rlim_max = (if rlim_max = RLIM_INFINITY then 1024 else rlim_max)
                in case close_all rlim_max (descriptors h) of
                  None \<Rightarrow> None
                | Some (_, fds) \<Rightarrow>
                    let h = h\<lparr>descriptors := fds\<rparr>;
                        (fd0, h) = open_file k DAEMON_STD_FILE h;
                        (fd1, h) = open_file k DAEMON_STD_FILE h;
                        (fd2, h) = open_file k DAEMON_STD_FILE h
                    in if fd0 \<noteq> 0 \<or> fd1 \<noteq> 1 \<or> fd2 \<noteq> 2 then
                         failed ''Standard file descriptors were not opened as expected'' h
                       else
                         andthen (Some (already_running k pidfile h s)) (\<lambda>(running, h, s).
                         if running \<noteq> 0 then
                           andthen (Some (log_error ''Failed to run or daemon already running'' [] s)) (\<lambda>s.
                           Some (Inr (Returns (-1), h, s)))
                         else
                           andthen (Some (log_info ''Daemon started'' [] s)) (\<lambda>s.
                           Some (Inr (Returns 1, h, s)))))"

section \<open>Lemmas\<close>

lemma unat_widen: "unat (ucast (i :: 32 word) :: 64 word) = unat i"
  by transfer simp

lemma unat_small_32: "n < 2 ^ 32 \<Longrightarrow> unat (of_nat n :: 32 word) = n"
  by (simp add: unsigned_of_nat take_bit_nat_eq_self)

lemma close_from:
  fixes rlim_max :: "64 word"
  assumes "n \<le> unat rlim_max" and "unat rlim_max < 2 ^ 32"
  shows "while_option (\<lambda>(i, fds). (ucast i :: 64 word) < rlim_max)
       (\<lambda>(i, fds). (i + 1, removeAll (unat i) fds)) (of_nat n :: 32 word, filter (\<lambda>m. n \<le> m) fds)
     = Some (of_nat (unat rlim_max), filter (\<lambda>m. unat rlim_max \<le> m) fds)"
  using assms(1)
proof (induction "unat rlim_max - n" arbitrary: n)
  case 0
  then have n: "n = unat rlim_max" by simp
  then have "unat (of_nat n :: 32 word) = n" using assms(2) by (intro unat_small_32) simp
  then have "unat (ucast (of_nat n :: 32 word) :: 64 word) = unat rlim_max"
    unfolding unat_widen using n by (rule trans)
  then have "(ucast (of_nat n :: 32 word) :: 64 word) = rlim_max" by (rule word_unat_eq_iff [THEN iffD2])
  then show ?case by (simp add: while_option_unfold n)
next
  case (Suc d)
  then have less: "n < unat rlim_max" by simp
  have un: "unat (of_nat n :: 32 word) = n" using less assms(2) by (intro unat_small_32) simp
  have "unat (ucast (of_nat n :: 32 word) :: 64 word) = n"
    using less assms(2) by (simp add: unat_widen un)
  then have "(ucast (of_nat n :: 32 word) :: 64 word) < rlim_max"
    using less by (simp add: word_less_nat_alt)
  moreover have "removeAll n (filter (\<lambda>m. n \<le> m) fds) = filter (\<lambda>m. Suc n \<le> m) fds"
    by (simp add: removeAll_filter_not_eq) (metis Suc_le_eq le_neq_implies_less nat_less_le)
  moreover have "(of_nat n + 1 :: 32 word) = of_nat (Suc n)" by simp
  ultimately show ?case
    using Suc.hyps(1) [of "Suc n"] Suc.hyps(2) less
    by (subst while_option_unfold) (simp add: un del: of_nat_Suc)
qed

lemma close_all_returns:
  "unat rlim_max < 2 ^ 32 \<Longrightarrow>
   close_all rlim_max fds = Some (of_nat (unat rlim_max), filter (\<lambda>m. unat rlim_max \<le> m) fds)"
  using close_from [of 0 rlim_max fds] by (simp add: close_all_def)

lemma close_all_diverges:
  assumes "2 ^ 32 \<le> unat rlim_max"
  shows "close_all rlim_max fds = None"
proof (rule ccontr)
  assume "close_all rlim_max fds \<noteq> None"
  then obtain i fds' where "\<not> (ucast (i :: 32 word) :: 64 word) < rlim_max"
    using while_option_stop [of "\<lambda>(i, fds). (ucast (i :: 32 word) :: 64 word) < rlim_max"]
    by (fastforce simp: close_all_def)
  then have "unat rlim_max \<le> unat i"
    by (simp add: word_less_nat_alt unat_widen not_less)
  moreover have "unat i < 2 ^ 32" using unsigned_less [of i] by simp
  ultimately show False using assms by simp
qed

text \<open>The limit the loop counts up to, and the state when it starts.\<close>

definition file_limit :: "64 word \<Rightarrow> nat" where
  "file_limit r = unat (if r = RLIM_INFINITY then 1024 else r)"

definition detached :: "host \<Rightarrow> host" where
  "detached h = h\<lparr>mask_cleared := True, session_leader := True, hup_ignored := True,
     working_dir := DAEMON_WORKING_DIR\<rparr>"

definition lets_detach :: "os \<Rightarrow> bool" where
  "lets_detach k \<longleftrightarrow> fork_answer k = 0 \<and> 0 \<le> setsid_answer k \<and> 0 \<le> sigaction_answer k
     \<and> 0 \<le> chdir_answer k"

text \<open>The messages of this file.\<close>

lemma daemon_messages:
  "log_fits ''Failed to get file limit'' []" "log_fits ''Failed to fork a new process'' []"
  "log_fits ''Failed to create a new SID for the child process'' []"
  "log_fits ''Failed to ignore SIGHUP'' []"
  "log_fits ''Standard file descriptors were not opened as expected'' []"
  "log_fits ''Failed to lock the daemon'' []" "log_fits ''Failed to run or daemon already running'' []"
  "log_fits ''Daemon started'' []"
  "log_fits (''Failed to change the working directory to: '' @ quoted ''%s'') [AStr DAEMON_WORKING_DIR]"
  by (simp_all add: log_fits_def convert_def DAEMON_WORKING_DIR_def QUERAL_LOG_BUFFER_SIZE_def)

lemmas daemon_log = log_defs daemon_messages [THEN log_write_fits]

lemma andthen_returns:
  "(\<exists>y. andthen (Some r) f = Some y) \<longleftrightarrow> (\<forall>x. r = Inr x \<longrightarrow> (\<exists>y. f x = Some y))"
  by (cases r) simp_all

lemma lowest_free_std:
  "lowest_free [] = 0" "lowest_free [0] = 1" "lowest_free [Suc 0, 0] = 2"
  "lowest_free [2, Suc 0, 0] = 3"
  by (simp_all add: lowest_free_def upt_rec)

lemma already_running_granted:
  assumes "can_open k name" and "descriptors h = [2, 1, 0]" and "lock_answer k = LockGranted"
    and "0 \<le> own_pid k" and "own_pid k < 10 ^ 15"
  shows "already_running k name h s = Inr (0, h\<lparr>descriptors := [3, 2, 1, 0], lock_held := True,
      lock_text := show_int (own_pid k) @ [NUL]\<rparr>, s)"
proof -
  have "length (show_int (own_pid k)) < length (fresh 16)"
    using length_show_int [of "own_pid k" 14] assms(4,5) by simp
  moreover have "printf_from ''%ld'' [AInt (own_pid k)] = Inr (show_int (own_pid k))"
    by (simp add: convert_def)
  ultimately show ?thesis
    using assms
    by (simp add: already_running_def open_file_def lowest_free_std lockfile_def strcpy_start
        del: printf_from.simps)
qed

lemma already_running_denied:
  assumes "can_open k name" and "descriptors h = [2, 1, 0]" and "lock_answer k \<noteq> LockGranted"
  shows "\<exists>s'. already_running k name h s
       = Inr (1, h\<lparr>descriptors := if lock_answer k = LockBusy then [2, 1, 0] else [3, 2, 1, 0]\<rparr>, s')"
  using assms
  by (cases "lock_answer k")
    (simp_all add: already_running_def open_file_def lowest_free_std lockfile_def daemon_log)

lemma daemonize_detached:
  assumes "nofile_limit k = Some r" and "lets_detach k" and "file_limit r < 2 ^ 32"
    and "\<forall>d \<in> set (descriptors h). d < file_limit r" and "can_open k DAEMON_STD_FILE"
  shows "daemonize k pidfile h s
     = andthen (Some (already_running k pidfile ((detached h)\<lparr>descriptors := [2, 1, 0]\<rparr>) s)) (\<lambda>(running, h, s).
       if running \<noteq> 0 then
         andthen (Some (log_error ''Failed to run or daemon already running'' [] s)) (\<lambda>s.
         Some (Inr (Returns (-1), h, s)))
       else
         andthen (Some (log_info ''Daemon started'' [] s)) (\<lambda>s.
         Some (Inr (Returns 1, h, s))))"
proof -
  have "filter (\<lambda>m. file_limit r \<le> m) (descriptors h) = []"
    using assms(4) by (auto simp: filter_empty_conv not_le)
  moreover obtain i where "close_all (if r = RLIM_INFINITY then 1024 else r) (descriptors h)
      = Some (i, filter (\<lambda>m. file_limit r \<le> m) (descriptors h))"
    using close_all_returns [of "if r = RLIM_INFINITY then 1024 else r"] assms(3)
    unfolding file_limit_def by blast
  ultimately show ?thesis
    using assms(1,2,5)
    by (simp add: daemonize_def lets_detach_def detached_def open_file_def lowest_free_std Let_def)
qed

section \<open>Properties\<close>

text \<open>
  C28: When the kernel lets the daemon detach and all its descriptors are below the limit, the standard
  descriptors are reopened as 0, 1 and 2 and the lock file decides: granted, it holds the process id
  and the function returns 1; held by another daemon, its text is left alone and the function
  returns -1 with nothing left open; for another error the descriptor of the lock file stays open.
\<close>

theorem daemonize_outcome:
  assumes "nofile_limit k = Some r" and "lets_detach k" and "file_limit r < 2 ^ 32"
    and "\<forall>d \<in> set (descriptors h). d < file_limit r" and "can_open k DAEMON_STD_FILE"
    and "can_open k pidfile" and "0 \<le> own_pid k" and "own_pid k < 10 ^ 15"
  shows "\<exists>s'. daemonize k pidfile h s
     = Some (Inr (case lock_answer k of
         LockGranted \<Rightarrow> (Returns 1, (detached h)\<lparr>descriptors := [3, 2, 1, 0], lock_held := True,
                           lock_text := show_int (own_pid k) @ [NUL]\<rparr>, s')
       | LockBusy \<Rightarrow> (Returns (-1), (detached h)\<lparr>descriptors := [2, 1, 0]\<rparr>, s')
       | LockError \<Rightarrow> (Returns (-1), (detached h)\<lparr>descriptors := [3, 2, 1, 0]\<rparr>, s')))"
proof -
  let ?h = "(detached h)\<lparr>descriptors := [2, 1, 0]\<rparr>"
  have h: "descriptors ?h = [2, 1, 0]" by simp
  show ?thesis
  proof (cases "lock_answer k = LockGranted")
    case True
    from already_running_granted [OF assms(6) h True assms(7,8), of s] True show ?thesis
      unfolding daemonize_detached [OF assms(1-5)] by (simp add: daemon_log)
  next
    case False
    from already_running_denied [OF assms(6) h False, of s] False show ?thesis
      unfolding daemonize_detached [OF assms(1-5)]
      by (cases "lock_answer k") (auto simp: daemon_log)
  qed
qed

text \<open>A kernel and a host to evaluate on.\<close>

definition sample_os :: "64 word \<Rightarrow> lock_result \<Rightarrow> os" where
  "sample_os r l = \<lparr>nofile_limit = Some r, fork_answer = 0, setsid_answer = 7, sigaction_answer = 0,
     chdir_answer = 0, can_open = (\<lambda>_. True), lock_answer = l, own_pid = 7\<rparr>"

definition sample_host :: host where
  "sample_host = \<lparr>descriptors = [0, 1, 2, 9], mask_cleared = False, session_leader = False,
     hup_ignored = False, working_dir = ''/home'', lock_held = False, lock_text = ''99''\<rparr>"

theorem daemonize_outcome_witness:
  "(\<exists>h' s'. daemonize (sample_os RLIM_INFINITY LockGranted) ''pid'' sample_host sample_sys
       = Some (Inr (Returns 1, h', s')) \<and> descriptors h' = [3, 2, 1, 0] \<and> lock_text h' = ''7'' @ [NUL])
   \<and> (\<exists>h' s'. daemonize (sample_os 16 LockBusy) ''pid'' sample_host sample_sys
       = Some (Inr (Returns (-1), h', s')) \<and> descriptors h' = [2, 1, 0] \<and> lock_text h' = ''99'')"
proof -
  have lim: "file_limit RLIM_INFINITY = 1024" "file_limit 16 = 16"
    by (simp_all add: file_limit_def RLIM_INFINITY_def)
  have go: "nofile_limit (sample_os r l) = Some r" "lets_detach (sample_os r l)"
      "can_open (sample_os r l) f" "own_pid (sample_os r l) = 7" "lock_answer (sample_os r l) = l" for r l f
    by (simp_all add: sample_os_def lets_detach_def)
  have low: "\<forall>d \<in> set (descriptors sample_host). d < file_limit RLIM_INFINITY"
      "\<forall>d \<in> set (descriptors sample_host). d < file_limit 16"
    unfolding lim by (simp_all add: sample_host_def)
  have shown: "show_int 7 = ''7''" by (simp add: show_int_def show_nat.simps digit_char_def)
  have kept: "lock_text (detached sample_host) = ''99''" by (simp add: detached_def sample_host_def)
  have "file_limit RLIM_INFINITY < 2 ^ 32" "file_limit 16 < 2 ^ 32" unfolding lim by simp_all
  note limits = this
  have "\<exists>h' s'. daemonize (sample_os RLIM_INFINITY LockGranted) ''pid'' sample_host sample_sys
       = Some (Inr (Returns 1, h', s')) \<and> descriptors h' = [3, 2, 1, 0] \<and> lock_text h' = ''7'' @ [NUL]"
    using daemonize_outcome [OF go(1,2) limits(1) low(1) go(3,3), of LockGranted "''pid''" sample_sys]
    unfolding go shown lock_result.case by fastforce
  moreover have "\<exists>h' s'. daemonize (sample_os 16 LockBusy) ''pid'' sample_host sample_sys
       = Some (Inr (Returns (-1), h', s')) \<and> descriptors h' = [2, 1, 0] \<and> lock_text h' = ''99''"
    using daemonize_outcome [OF go(1,2) limits(2) low(2) go(3,3), of LockBusy "''pid''" sample_sys] kept
    unfolding go lock_result.case by fastforce
  ultimately show ?thesis by (rule conjI)
qed

text \<open>
  C29: \<open>daemonize\<close>, once detached, returns exactly when the limit of descriptors is below 2 to the 32:
  its loop counts in 32 bits and never reaches a larger one.
\<close>

theorem daemonize_terminates:
  assumes "nofile_limit k = Some r" and "lets_detach k"
  shows "daemonize k pidfile h s = None \<longleftrightarrow> 2 ^ 32 \<le> file_limit r"
proof (cases "file_limit r < 2 ^ 32")
  case True
  then obtain c where "close_all (if r = RLIM_INFINITY then 1024 else r) (descriptors h) = Some c"
    using close_all_returns unfolding file_limit_def by blast
  then show ?thesis
    using True assms
    by (auto simp: daemonize_def lets_detach_def andthen_returns Let_def split: prod.splits)
next
  case False
  then have "close_all (if r = RLIM_INFINITY then 1024 else r) (descriptors h) = None"
    unfolding file_limit_def by (intro close_all_diverges) simp
  then show ?thesis using False assms by (simp add: daemonize_def lets_detach_def Let_def)
qed

theorem daemonize_terminates_witness:
  "daemonize (sample_os 0x100000000 LockGranted) ''pid'' sample_host sample_sys = None
   \<and> daemonize (sample_os 0xFFFFFFFF LockGranted) ''pid'' sample_host sample_sys \<noteq> None"
proof -
  have go: "nofile_limit (sample_os r LockGranted) = Some r" "lets_detach (sample_os r LockGranted)" for r
    by (simp_all add: sample_os_def lets_detach_def)
  have lim: "2 ^ 32 \<le> file_limit 0x100000000" "\<not> 2 ^ 32 \<le> file_limit 0xFFFFFFFF"
    by (simp_all add: file_limit_def RLIM_INFINITY_def)
  then show ?thesis using daemonize_terminates [OF go] by blast
qed

end
