(* ===== verification/Startup.thy ===== *)
theory Startup
  imports Action File_Utils
begin

text \<open>
  The first half of \<^verbatim>\<open>main\<close> in \<^verbatim>\<open>src/src/queral.c\<close>: the command line (\<open>parse_arguments\<close>), the settings
  with their defaults (\<open>read_settings\<close>), the actions of the included files (\<open>load_secondary\<close>), and the
  ways out (\<open>exit_daemon\<close>, \<open>usage\<close>). The outcomes of libconfig and of the file system are collected in
  the record \<open>files_seen\<close>. Theory \<open>Main_Thread\<close> holds the second half.
\<close>

section \<open>Constants\<close>

definition CONFIG_FILENAME :: string where
  "CONFIG_FILENAME = ''/etc/queral.conf''"

definition DEFAULT_FIFO_FILENAME :: string where
  "DEFAULT_FIFO_FILENAME = ''/var/run/queral/queral.fifo''"

definition DEFAULT_PIDFILE_FILENAME :: string where
  "DEFAULT_PIDFILE_FILENAME = ''/var/run/queral/queral.pid''"

definition DEFAULT_MEMCACHED_KEY_PREFIX :: string where
  "DEFAULT_MEMCACHED_KEY_PREFIX = ''__memc_''"

definition DEDAULT_CONF_FILE_EXTENSION :: string where
  "DEDAULT_CONF_FILE_EXTENSION = ''.conf''"

definition DEFAULT_MEMCACHE_EXPIRATION_SECONDS :: int where
  "DEFAULT_MEMCACHE_EXPIRATION_SECONDS = 7200"

definition DEFAULT_WORKERS :: int where
  "DEFAULT_WORKERS = 2"

definition MAX_WORKERS :: int where
  "MAX_WORKERS = 8"

definition DEFAULT_WORKER_CONTENTION_MILLIS :: int where
  "DEFAULT_WORKER_CONTENTION_MILLIS = 100"

definition MAX_WORKER_CONTENTION_MILLIS :: int where
  "MAX_WORKER_CONTENTION_MILLIS = 600000"

definition QUERAL_VERSION :: string where
  "QUERAL_VERSION = ''1.0''"

section \<open>Ways out\<close>

text \<open>A phase of \<^verbatim>\<open>main\<close> ends the process with a status, or gets ready for the next one.\<close>

datatype 'a startup = Exited int | Ready 'a

definition exit_daemon ::
  "string_list \<Rightarrow> int \<Rightarrow> action_slot list option \<Rightarrow> int \<Rightarrow> sys \<Rightarrow> ('a startup \<times> sys) res" where
  "exit_daemon memcached_servers server_count actions exit_code s =
     chk (destroy_actions actions s) (\<lambda>s.
     chk (destroy_string_list memcached_servers server_count s) (\<lambda>s.
     chk (log_notice ''Terminated with status %d'' [AInt exit_code] s) (\<lambda>s.
     Inr (Exited exit_code, s))))"

definition usage :: "string \<Rightarrow> sys \<Rightarrow> sys res" where
  "usage program s = log_info ''Usage: %s [-f config] [-v]'' [AStr program] s"

section \<open>The command line\<close>

text \<open>The loop over the arguments: whether the usage is shown, the configuration file, and the
  verbosity.\<close>

fun parse_arguments :: "string list \<Rightarrow> bool \<Rightarrow> cbuf \<Rightarrow> bool \<Rightarrow> (bool \<times> cbuf \<times> bool) res" where
  "parse_arguments [] skip config_filename verbose = Inr (False, config_filename, verbose)"
| "parse_arguments (arg # args) skip config_filename verbose =
     (if \<not> skip then
        (if arg = ''-v'' then parse_arguments args False config_filename True
         else if arg = ''-f'' then
           (case args of
              [] \<Rightarrow> Inr (True, config_filename, verbose)
            | name # _ \<Rightarrow>
                chk (strcpy config_filename 0 name) (\<lambda>config_filename.
                parse_arguments args True config_filename verbose))
         else parse_arguments args False config_filename verbose)
      else parse_arguments args False config_filename verbose)"

section \<open>The settings\<close>

record settings =
  pidfile_filename :: cbuf
  fifo_file :: cbuf
  workers_count :: int
  contention :: int
  memcached_servers :: string_list
  servers_listed :: int
  memc_expiration :: int
  memc_prefix :: cbuf

text \<open>The pattern for numbers: the setting, cut to a greatest value where there is one, or the default
  with a notice.\<close>

definition adopt_number ::
  "('cfg \<Rightarrow> int \<Rightarrow> sys \<Rightarrow> (int \<times> int \<times> sys) res) \<Rightarrow> 'cfg \<Rightarrow> int option \<Rightarrow> int \<Rightarrow> string \<Rightarrow> sys
   \<Rightarrow> (int \<times> sys) res" where
  "adopt_number read cfg greatest fallback message s =
     chk (read cfg 0 s) (\<lambda>(code, n, s).
     if code \<noteq> -1 then
       Inr (case greatest of None \<Rightarrow> n | Some m \<Rightarrow> if m < n then m else n, s)
     else
       chk (log_notice message [AInt fallback] s) (\<lambda>s. Inr (fallback, s)))"

text \<open>The messages about defaults that are strings.\<close>

definition pid_notice :: string where
  "pid_notice = ''Using default pid file: '' @ quoted ''%s''"

definition fifo_notice :: string where
  "fifo_notice = ''Using default fifo file: '' @ quoted ''%s''"

definition prefix_notice :: string where
  "prefix_notice = ''Using default memcached key prefix: '' @ quoted ''%s''"

definition read_settings ::
  "config \<Rightarrow> string option \<Rightarrow> sys \<Rightarrow> (settings startup \<times> string option \<times> sys) res" where
  "read_settings cfg str s =
     chk (adopt_setting read_pidfile_filename cfg DEFAULT_PIDFILE_FILENAME
            pid_notice (fresh PATH_MAX) str s) (\<lambda>(pidfile, str, s).
     chk (adopt_setting read_socket_filename cfg DEFAULT_FIFO_FILENAME
            fifo_notice (fresh PATH_MAX) str s) (\<lambda>(fifo, str, s).
     chk (adopt_number read_workers_count cfg (Some MAX_WORKERS) DEFAULT_WORKERS
            ''Using default number of workers: %d'' s) (\<lambda>(workers, s).
     chk (adopt_number read_worker_contention cfg (Some MAX_WORKER_CONTENTION_MILLIS)
            DEFAULT_WORKER_CONTENTION_MILLIS ''Using default contention: %d'' s) (\<lambda>(pause, s).
     chk (read_memcached_servers cfg 0 s) (\<lambda>(servers, count, s).
     if servers = None then
       chk (exit_daemon servers count None 1 s) (\<lambda>(x, s). Inr (x, str, s))
     else
       chk (adopt_number read_memcached_expiration cfg None DEFAULT_MEMCACHE_EXPIRATION_SECONDS
              ''Using default memcached expiration: %d'' s) (\<lambda>(expiration, s).
       chk (adopt_setting read_memcached_key_prefix cfg DEFAULT_MEMCACHED_KEY_PREFIX
              prefix_notice
              (replicate MAX_KEY_PREFIX_LENGTH (Some NUL)) str s) (\<lambda>(prefix, str, s).
       Inr (Ready \<lparr>pidfile_filename = pidfile, fifo_file = fifo, workers_count = workers,
                   contention = pause, memcached_servers = servers, servers_listed = count,
                   memc_expiration = expiration, memc_prefix = prefix\<rparr>, str, s))))))))"

section \<open>The actions\<close>

record files_seen =
  config_file_at :: config_files
  directory_at :: "string \<Rightarrow> dir_result"
  kind_at :: "string \<Rightarrow> file_kind"

text \<open>The files that were found; \<open>load_secondary\<close> finds them.\<close>

definition load_files ::
  "platform \<Rightarrow> files_seen \<Rightarrow> string_list \<Rightarrow> int \<Rightarrow> string option list \<Rightarrow> sys
   \<Rightarrow> (action_slot list option startup \<times> sys) run" where
  "load_files pl seen servers count include_files s =
     andthen (Some (create_actions pl include_files s)) (\<lambda>(actions, s).
     case actions of
       None \<Rightarrow> Some (exit_daemon servers count None 1 s)
     | Some slots \<Rightarrow>
         andthen (load_actions pl (config_file_at seen) QUERAL_VERSION include_files 0 slots s)
           (\<lambda>(loaded, slots, i, s).
         if \<not> loaded then Some (exit_daemon servers count (Some slots) 1 s)
         else
           andthen (Some (destroy_string_list (Some include_files) (int i) s)) (\<lambda>s.
           Some (Inr (Ready (Some slots), s)))))"

definition load_secondary ::
  "platform \<Rightarrow> files_seen \<Rightarrow> config \<Rightarrow> string_list \<Rightarrow> int \<Rightarrow> string option \<Rightarrow> sys
   \<Rightarrow> (action_slot list option startup \<times> sys) run" where
  "load_secondary pl seen cfg servers count str s =
     andthen (Some (read_include_dir cfg str s)) (\<lambda>(code, str, s).
     andthen (Some (if code \<noteq> -1
                    then (case str of None \<Rightarrow> Inl NullPointer
                          | Some v \<Rightarrow> strcpy (replicate PATH_MAX (Some NUL)) 0 v)
                    else Inr (replicate PATH_MAX (Some NUL)))) (\<lambda>buffer.
     andthen (Some (str_at buffer 0)) (\<lambda>include_dir.
     if 0 < length include_dir then
       andthen (Some (list_files (directory_at seen) (kind_at seen) include_dir
                        (Some DEDAULT_CONF_FILE_EXTENSION) s)) (\<lambda>(include_files, s).
       case include_files of
         None \<Rightarrow>
           andthen (Some (log_warning (''Failed to load configuration files from: '' @ quoted ''%s'')
                            [AStr include_dir] s)) (\<lambda>s.
           Some (Inr (Ready None, s)))
       | Some fs \<Rightarrow>
           load_files pl seen servers count fs s)
     else Some (Inr (Ready None, s)))))"

section \<open>The first half of main\<close>

definition main_configure ::
  "platform \<Rightarrow> files_seen \<Rightarrow> string \<Rightarrow> string list \<Rightarrow> sys
   \<Rightarrow> ((settings \<times> action_slot list option) startup \<times> sys) run" where
  "main_configure pl seen program args s =
     andthen (Some (strcpy (fresh PATH_MAX) 0 CONFIG_FILENAME)) (\<lambda>config_filename.
     andthen (Some (parse_arguments args False config_filename False))
       (\<lambda>(misused, config_filename, verbose).
     if misused then
       andthen (Some (usage program s)) (\<lambda>s. Some (exit_daemon None 0 None 1 s))
     else
       let s = (if \<not> verbose then log_init_quiet s else log_init_verbose s) in
       andthen (Some (log_notice ''Initializing daemon'' [] s)) (\<lambda>s.
       andthen (Some (str_at config_filename 0)) (\<lambda>name.
       andthen (Some (load_config (config_file_at seen) name s)) (\<lambda>(code, cfg, s).
       case cfg of
         None \<Rightarrow> Some (exit_daemon None 0 None 1 s)
       | Some cfg \<Rightarrow>
           andthen (Some (check_version cfg None QUERAL_VERSION s)) (\<lambda>(code, str, s).
           if code = -1 then Some (exit_daemon None 0 None 1 s)
           else
             andthen (Some (read_settings cfg str s)) (\<lambda>(st, str, s).
             case st of
               Exited status \<Rightarrow> Some (Inr (Exited status, s))
             | Ready st \<Rightarrow>
                 andthen (load_secondary pl seen cfg (memcached_servers st) (servers_listed st) str s)
                   (\<lambda>(actions, s).
                 case actions of
                   Exited status \<Rightarrow> Some (Inr (Exited status, s))
                 | Ready actions \<Rightarrow> Some (Inr (Ready (st, actions), s))))))))))"

section \<open>Lemmas\<close>

subsection \<open>The command line\<close>

text \<open>A command line as a sequence of options; an argument that is not an option is ignored.\<close>

datatype item = Verbose | Config string | Ignored string

fun render :: "item list \<Rightarrow> string list" where
  "render [] = []"
| "render (Verbose # items) = ''-v'' # render items"
| "render (Config f # items) = ''-f'' # f # render items"
| "render (Ignored a # items) = a # render items"

definition item_fits :: "item \<Rightarrow> bool" where
  "item_fits x \<longleftrightarrow>
     (case x of Verbose \<Rightarrow> True | Config f \<Rightarrow> NUL \<notin> set f \<and> length f < PATH_MAX
      | Ignored a \<Rightarrow> a \<noteq> ''-v'' \<and> a \<noteq> ''-f'')"

fun last_config :: "string \<Rightarrow> item list \<Rightarrow> string" where
  "last_config f [] = f"
| "last_config f (Config g # items) = last_config g items"
| "last_config f (_ # items) = last_config f items"

lemma parse_arguments_items:
  assumes "str_at b 0 = Inr f" and "length b = PATH_MAX" and "\<forall>x \<in> set items. item_fits x"
  shows "\<exists>b'. parse_arguments (render items @ rest) False b v
       = parse_arguments rest False b' (v \<or> Verbose \<in> set items)
     \<and> str_at b' 0 = Inr (last_config f items) \<and> length b' = PATH_MAX"
  using assms
proof (induction items arbitrary: b f v)
  case Nil
  then show ?case by auto
next
  case (Cons x items)
  have rest: "\<forall>x \<in> set items. item_fits x" using Cons.prems(3) by simp
  show ?case
  proof (cases x)
    case Verbose
    then show ?thesis using Cons.IH [OF Cons.prems(1,2) rest, of True] by simp
  next
    case (Config g)
    then have g: "NUL \<notin> set g" "length g < length b"
      using Cons.prems(2,3) by (simp_all add: item_fits_def)
    obtain b1 where b1: "strcpy b 0 g = Inr b1" "str_at b1 0 = Inr g" "length b1 = length b"
      using strcpy_fits [OF g] .
    have len: "length b1 = PATH_MAX" using b1(3) Cons.prems(2) by simp
    show ?thesis
      using Config b1(1) Cons.IH [OF b1(2) len rest, of v] by simp
  next
    case (Ignored a)
    then show ?thesis
      using Cons.IH [OF Cons.prems(1,2) rest, of v] Cons.prems(3) by (simp add: item_fits_def)
  qed
qed

subsection \<open>The settings\<close>

lemma adopt_messages:
  "log_fits pid_notice [AStr DEFAULT_PIDFILE_FILENAME]"
  "log_fits fifo_notice [AStr DEFAULT_FIFO_FILENAME]"
  "log_fits prefix_notice [AStr DEFAULT_MEMCACHED_KEY_PREFIX]"
  "log_fits ''Using default number of workers: %d'' [AInt DEFAULT_WORKERS]"
  "log_fits ''Using default contention: %d'' [AInt DEFAULT_WORKER_CONTENTION_MILLIS]"
  "log_fits ''Using default memcached expiration: %d'' [AInt DEFAULT_MEMCACHE_EXPIRATION_SECONDS]"
  by (simp_all add: pid_notice_def fifo_notice_def prefix_notice_def log_fits_def convert_def
      QUERAL_LOG_BUFFER_SIZE_def DEFAULT_PIDFILE_FILENAME_def
      DEFAULT_FIFO_FILENAME_def DEFAULT_MEMCACHED_KEY_PREFIX_def DEFAULT_WORKERS_def
      DEFAULT_WORKER_CONTENTION_MILLIS_def DEFAULT_MEMCACHE_EXPIRATION_SECONDS_def show_int_def
      show_nat.simps digit_char_def)

lemma exit_message: "log_fits ''Terminated with status %d'' [AInt 1]"
  by (simp add: log_fits_def convert_def QUERAL_LOG_BUFFER_SIZE_def show_int_def show_nat.simps
      digit_char_def)

text \<open>The configured value of a number, and the strings that may be used.\<close>

definition configured_number :: "config \<Rightarrow> string \<Rightarrow> (int \<Rightarrow> int) \<Rightarrow> int \<Rightarrow> int" where
  "configured_number cfg key adjust fallback =
     (case lookup_int cfg key of None \<Rightarrow> fallback | Some v \<Rightarrow> adjust v)"

definition configured_string :: "config \<Rightarrow> string \<Rightarrow> nat \<Rightarrow> string \<Rightarrow> string" where
  "configured_string cfg key bound fallback = effective_setting (lookup_string cfg key) bound fallback"

definition strings_ok :: "config \<Rightarrow> bool" where
  "strings_ok cfg \<longleftrightarrow> (\<forall>k v. lookup_string cfg k = Some v \<longrightarrow> NUL \<notin> set v)"

definition agrees :: "config \<Rightarrow> settings \<Rightarrow> bool" where
  "agrees cfg st \<longleftrightarrow>
     str_at (pidfile_filename st) 0
       = Inr (configured_string cfg ''pidfile.filename'' PATH_MAX DEFAULT_PIDFILE_FILENAME)
     \<and> str_at (fifo_file st) 0
       = Inr (configured_string cfg ''socket.filename'' PATH_MAX DEFAULT_FIFO_FILENAME)
     \<and> str_at (memc_prefix st) 0
       = Inr (configured_string cfg ''memcached.key.prefix'' MAX_KEY_PREFIX_LENGTH
                DEFAULT_MEMCACHED_KEY_PREFIX)
     \<and> workers_count st = configured_number cfg ''worker.threads'' (min MAX_WORKERS) DEFAULT_WORKERS
     \<and> contention st = configured_number cfg ''worker.contention'' (min MAX_WORKER_CONTENTION_MILLIS)
                         DEFAULT_WORKER_CONTENTION_MILLIS
     \<and> memc_expiration st = configured_number cfg ''memcached.expiration''
         (\<lambda>v. if v < 0 then DEFAULT_MEMCACHE_EXPIRATION_SECONDS else v)
         DEFAULT_MEMCACHE_EXPIRATION_SECONDS"

lemma adopt_pidfile:
  assumes "strings_ok cfg"
  shows "\<exists>b str' s'. adopt_setting read_pidfile_filename cfg DEFAULT_PIDFILE_FILENAME
        pid_notice (fresh PATH_MAX) str s = Inr (b, str', s')
     \<and> str_at b 0 = Inr (configured_string cfg ''pidfile.filename'' PATH_MAX DEFAULT_PIDFILE_FILENAME)
     \<and> same_heap s s'"
  using pidfile.adopt_fits [of "fresh PATH_MAX" DEFAULT_PIDFILE_FILENAME _ cfg str s]
    adopt_messages(1) assms
  by (simp add: configured_string_def strings_ok_def DEFAULT_PIDFILE_FILENAME_def PATH_MAX_def) blast

lemma adopt_fifo_file:
  assumes "strings_ok cfg"
  shows "\<exists>b str' s'. adopt_setting read_socket_filename cfg DEFAULT_FIFO_FILENAME
        fifo_notice (fresh PATH_MAX) str s = Inr (b, str', s')
     \<and> str_at b 0 = Inr (configured_string cfg ''socket.filename'' PATH_MAX DEFAULT_FIFO_FILENAME)
     \<and> same_heap s s'"
  using socket_file.adopt_fits [of "fresh PATH_MAX" DEFAULT_FIFO_FILENAME _ cfg str s]
    adopt_messages(2) assms
  by (simp add: configured_string_def strings_ok_def DEFAULT_FIFO_FILENAME_def PATH_MAX_def) blast

lemma adopt_key_prefix:
  assumes "strings_ok cfg"
  shows "\<exists>b str' s'. adopt_setting read_memcached_key_prefix cfg DEFAULT_MEMCACHED_KEY_PREFIX
        prefix_notice
        (replicate MAX_KEY_PREFIX_LENGTH (Some NUL)) str s = Inr (b, str', s')
     \<and> str_at b 0 = Inr (configured_string cfg ''memcached.key.prefix'' MAX_KEY_PREFIX_LENGTH
                           DEFAULT_MEMCACHED_KEY_PREFIX)
     \<and> same_heap s s'"
  using key_prefix.adopt_fits [of "replicate MAX_KEY_PREFIX_LENGTH (Some NUL)"
      DEFAULT_MEMCACHED_KEY_PREFIX _ cfg str s] adopt_messages(3) assms
  by (simp add: configured_string_def strings_ok_def DEFAULT_MEMCACHED_KEY_PREFIX_def
      MAX_KEY_PREFIX_LENGTH_def) blast

lemma adopt_workers:
  "\<exists>s'. adopt_number read_workers_count cfg (Some MAX_WORKERS) DEFAULT_WORKERS
        ''Using default number of workers: %d'' s
     = Inr (configured_number cfg ''worker.threads'' (min MAX_WORKERS) DEFAULT_WORKERS, s')
     \<and> same_heap s s'"
  using read_workers_count_eq [of cfg 0 s] log_write_fits [OF adopt_messages(4)]
  by (auto simp: adopt_number_def configured_number_def log_notice_def min_def split: option.splits)

lemma adopt_contention:
  "\<exists>s'. adopt_number read_worker_contention cfg (Some MAX_WORKER_CONTENTION_MILLIS)
        DEFAULT_WORKER_CONTENTION_MILLIS ''Using default contention: %d'' s
     = Inr (configured_number cfg ''worker.contention'' (min MAX_WORKER_CONTENTION_MILLIS)
              DEFAULT_WORKER_CONTENTION_MILLIS, s')
     \<and> same_heap s s'"
  using read_worker_contention_eq [of cfg 0 s] log_write_fits [OF adopt_messages(5)]
  by (auto simp: adopt_number_def configured_number_def log_notice_def min_def split: option.splits)

lemma adopt_expiration:
  "\<exists>s'. adopt_number read_memcached_expiration cfg None DEFAULT_MEMCACHE_EXPIRATION_SECONDS
        ''Using default memcached expiration: %d'' s
     = Inr (configured_number cfg ''memcached.expiration''
              (\<lambda>v. if v < 0 then DEFAULT_MEMCACHE_EXPIRATION_SECONDS else v)
              DEFAULT_MEMCACHE_EXPIRATION_SECONDS, s')
     \<and> same_heap s s'"
  using read_memcached_expiration_eq [of cfg 0 s] log_write_fits [OF adopt_messages(6)]
  by (auto simp: adopt_number_def configured_number_def log_notice_def split: option.splits if_splits)


text \<open>With a usable server list the settings agree with the file; without one the daemon exits.\<close>

lemma read_settings_ready:
  assumes "strings_ok cfg" and "lookup_list cfg ''memcached.servers'' = Some xs" and "xs \<noteq> []"
    and "\<forall>x \<in> set xs. server_good x" and "plenty s"
  shows "\<exists>st str' s'. read_settings cfg str s = Inr (Ready st, str', s') \<and> agrees cfg st
     \<and> memcached_servers st = Some (map Some (usable server_name xs)
         @ replicate (length xs - length (usable server_name xs)) None)
     \<and> servers_listed st = int (length xs)
     \<and> grown (Suc (length (usable server_name xs))) s s'"
proof -
  obtain b1 str1 s1 where 1: "adopt_setting read_pidfile_filename cfg DEFAULT_PIDFILE_FILENAME
        pid_notice (fresh PATH_MAX) str s = Inr (b1, str1, s1)"
      "str_at b1 0 = Inr (configured_string cfg ''pidfile.filename'' PATH_MAX DEFAULT_PIDFILE_FILENAME)"
      "same_heap s s1"
    using adopt_pidfile [OF assms(1)] by blast
  obtain b2 str2 s2 where 2: "adopt_setting read_socket_filename cfg DEFAULT_FIFO_FILENAME
        fifo_notice (fresh PATH_MAX) str1 s1 = Inr (b2, str2, s2)"
      "str_at b2 0 = Inr (configured_string cfg ''socket.filename'' PATH_MAX DEFAULT_FIFO_FILENAME)"
      "same_heap s1 s2"
    using adopt_fifo_file [OF assms(1)] by blast
  obtain s3 where 3: "adopt_number read_workers_count cfg (Some MAX_WORKERS) DEFAULT_WORKERS
        ''Using default number of workers: %d'' s2
      = Inr (configured_number cfg ''worker.threads'' (min MAX_WORKERS) DEFAULT_WORKERS, s3)"
      "same_heap s2 s3"
    using adopt_workers by blast
  obtain s4 where 4: "adopt_number read_worker_contention cfg (Some MAX_WORKER_CONTENTION_MILLIS)
        DEFAULT_WORKER_CONTENTION_MILLIS ''Using default contention: %d'' s3
      = Inr (configured_number cfg ''worker.contention'' (min MAX_WORKER_CONTENTION_MILLIS)
              DEFAULT_WORKER_CONTENTION_MILLIS, s4)"
      "same_heap s3 s4"
    using adopt_contention by blast
  have same: "same_heap s s4"
    using 1(3) 2(3) 3(2) 4(2) by (blast intro: same_heap_trans)
  then have "plenty s4" using assms(5) by (simp add: same_heap_plenty)
  then obtain s5 where 5: "read_memcached_servers cfg 0 s4
      = Inr (Some (map Some (usable server_name xs)
               @ replicate (length xs - length (usable server_name xs)) None), int (length xs), s5)"
      "grown (Suc (length (usable server_name xs))) s4 s5"
    using read_servers_fills [OF assms(2-4)] by blast
  obtain s6 where 6: "adopt_number read_memcached_expiration cfg None DEFAULT_MEMCACHE_EXPIRATION_SECONDS
        ''Using default memcached expiration: %d'' s5
      = Inr (configured_number cfg ''memcached.expiration''
               (\<lambda>v. if v < 0 then DEFAULT_MEMCACHE_EXPIRATION_SECONDS else v)
               DEFAULT_MEMCACHE_EXPIRATION_SECONDS, s6)" "same_heap s5 s6"
    using adopt_expiration by blast
  obtain b7 str7 s7 where 7: "adopt_setting read_memcached_key_prefix cfg DEFAULT_MEMCACHED_KEY_PREFIX
        prefix_notice
        (replicate MAX_KEY_PREFIX_LENGTH (Some NUL)) str2 s6 = Inr (b7, str7, s7)"
      "str_at b7 0 = Inr (configured_string cfg ''memcached.key.prefix'' MAX_KEY_PREFIX_LENGTH
                            DEFAULT_MEMCACHED_KEY_PREFIX)" "same_heap s6 s7"
    using adopt_key_prefix [OF assms(1)] by blast
  have "grown (Suc (length (usable server_name xs))) s s7"
    using 5(2) same same_heap_trans [OF 6(2) 7(3)] by (simp add: grown_def same_heap_def plenty_def)
  then show ?thesis
    using 1(2) 2(2) 7(2)
    by (simp add: read_settings_def 1(1) 2(1) 3(1) 4(1) 5(1) 6(1) 7(1) agrees_def)
qed

lemma no_servers:
  "lookup_list cfg ''memcached.servers'' \<in> {None, Some []} \<Longrightarrow>
   \<exists>s'. read_memcached_servers cfg n s = Inr (None, if lookup_list cfg ''memcached.servers'' = None then n else 0, s')
      \<and> same_heap s s'"
  by (auto simp: read_memcached_servers_def init_string_list_def reader_log)

lemma read_settings_exit:
  assumes "strings_ok cfg" and "lookup_list cfg ''memcached.servers'' \<in> {None, Some []}"
  shows "\<exists>str' s'. read_settings cfg str s = Inr (Exited 1, str', s') \<and> same_heap s s'"
proof -
  obtain b1 str1 s1 where 1: "adopt_setting read_pidfile_filename cfg DEFAULT_PIDFILE_FILENAME
        pid_notice (fresh PATH_MAX) str s = Inr (b1, str1, s1)"
      "same_heap s s1"
    using adopt_pidfile [OF assms(1)] by blast
  obtain b2 str2 s2 where 2: "adopt_setting read_socket_filename cfg DEFAULT_FIFO_FILENAME
        fifo_notice (fresh PATH_MAX) str1 s1 = Inr (b2, str2, s2)"
      "same_heap s1 s2"
    using adopt_fifo_file [OF assms(1)] by blast
  obtain n s3 where 3: "adopt_number read_workers_count cfg (Some MAX_WORKERS) DEFAULT_WORKERS
        ''Using default number of workers: %d'' s2 = Inr (n, s3)" "same_heap s2 s3"
    using adopt_workers by blast
  obtain m s4 where 4: "adopt_number read_worker_contention cfg (Some MAX_WORKER_CONTENTION_MILLIS)
        DEFAULT_WORKER_CONTENTION_MILLIS ''Using default contention: %d'' s3 = Inr (m, s4)"
      "same_heap s3 s4"
    using adopt_contention by blast
  obtain c s5 where 5: "read_memcached_servers cfg 0 s4 = Inr (None, c, s5)" "same_heap s4 s5"
    using no_servers [OF assms(2)] by blast
  have "same_heap s s5"
    using 1(2) 2(2) 3(2) 4(2) 5(2) by (blast intro: same_heap_trans)
  then show ?thesis
    using log_write_fits [OF exit_message]
    by (simp add: read_settings_def 1(1) 2(1) 3(1) 4(1) 5(1) exit_daemon_def destroy_actions_def
        destroy_string_list_def log_notice_def)
qed

subsection \<open>The actions\<close>

lemma free_entries_listed:
  "free_entries (map Some fs @ rest) (int (length fs)) h = Inr (h\<lparr>live := live h - int (length fs)\<rparr>)"
proof (induction fs arbitrary: h)
  case Nil
  then show ?case by (cases rest) simp_all
next
  case (Cons f fs)
  then show ?case by (simp add: free_block_def algebra_simps)
qed

lemma load_secondary_files:
  assumes "strings_ok cfg" and "lookup_string cfg ''include_dir'' = Some dir"
    and "directory_at seen dir = DirEntries names" and "dir \<noteq> []" and "length dir + 1 < PATH_MAX"
    and "\<forall>name \<in> set names. name_fits (kind_at seen) dir name" and "plenty s"
    and "log_fits (''Maximum number of files exceeded on '' @ quoted ''%s'' @ '': %d'')
           [AStr dir, AInt (int MAX_NUM_FILES)]"
    and "length (wanted (kind_at seen) ''.conf'' dir names) < MAX_NUM_FILES"
  shows "\<exists>s1. load_secondary pl seen cfg servers count str s
       = load_files pl seen servers count (map Some (wanted (kind_at seen) ''.conf'' dir names)
           @ replicate (MAX_NUM_FILES - length (wanted (kind_at seen) ''.conf'' dir names)) None) s1
     \<and> live s1 = live s + 1 + int (length (wanted (kind_at seen) ''.conf'' dir names)) \<and> plenty s1"
proof -
  let ?fs = "wanted (kind_at seen) ''.conf'' dir names"
  define listed where "listed = map Some ?fs @ replicate (MAX_NUM_FILES - length ?fs) (None :: string option)"
  have nul: "NUL \<notin> set dir" using assms(1,2) by (simp add: strings_ok_def)
  have reads: "read_include_dir cfg str s = Inr (1, Some dir, s)"
    using assms(2,5) by (simp add: read_include_dir_def)
  obtain b where b: "strcpy (replicate PATH_MAX (Some NUL)) 0 dir = Inr b" "str_at b 0 = Inr dir"
    using strcpy_fits [OF nul, of "replicate PATH_MAX (Some NUL)"] assms(5) by auto
  obtain s1 where s1: "list_files (directory_at seen) (kind_at seen) dir (Some ''.conf'') s
      = Inr (Some listed, s1)" "live s1 = live s + 1 + int (length ?fs)" "plenty s1"
    using list_files_runs [where dirs = "directory_at seen" and kind = "kind_at seen" and ext = "''.conf''",
        OF assms(3,4) nul assms(5-8)] assms(9) by (auto simp: listed_def)
  have "load_secondary pl seen cfg servers count str s
      = load_files pl seen servers count listed s1"
    using assms(4) b
    by (simp add: load_secondary_def reads s1(1) DEDAULT_CONF_FILE_EXTENSION_def)
  then show ?thesis using s1(2,3) unfolding listed_def by blast
qed

text \<open>The array of actions when all files were loaded, and what \<open>find_action\<close> finds in it.\<close>

definition loaded_slots :: "action list \<Rightarrow> action_slot list \<Rightarrow> action_slot list" where
  "loaded_slots as spares = map (\<lambda>a. Some (Some a)) as @ Some None # spares"

lemma find_loaded:
  "list_all2 matches as specs \<Longrightarrow>
   find_action (Some (loaded_slots as spares)) name = Inr (find (\<lambda>a. named a name) as)"
  by (simp add: find_action_def loaded_slots_def find_from_terminated [OF matches_named])

lemma load_files_loads:
  assumes "list_all2 (loadable pl v QUERAL_VERSION (config_file_at seen)) fs specs" and "plenty s"
    and "garbage pl" and "0 < spare pl (length fs)" and "fs \<noteq> []"
  shows "\<exists>as spares s'. load_files pl seen servers count (map Some fs @ None # rest) s
       = Some (Inr (Ready (Some (loaded_slots as spares)), s'))
     \<and> list_all2 matches as specs
     \<and> live s' = live s - int (length fs) + int (sum_list (map cost specs)) \<and> plenty s'"
proof -
  let ?actions = "(replicate (length fs + spare pl (length fs)) None)[0 := Some None]"
  let ?s = "s\<lparr>live := live s + 1\<rparr>" let ?list = "map Some fs @ None # rest"
  have create: "create_actions pl ?list s = Inr (Some ?actions, ?s)"
    using create_actions_files [OF assms(2,5)] .
  have "plenty ?s" "0 + length fs < length ?actions" using assms(2,4) by simp_all
  from load_actions_ok [OF assms(1) this assms(3,5), of "None # rest"]
  obtain as s3 where as: "load_actions pl (config_file_at seen) QUERAL_VERSION ?list 0 ?actions ?s
      = Some (Inr (True, map (\<lambda>a. Some (Some a)) as @ Some None # drop (length fs + 1) ?actions,
                   length fs, s3))"
    "list_all2 matches as specs" "grown (sum_list (map cost specs)) ?s s3"
    by auto
  have "load_files pl seen servers count (map Some fs @ None # rest) s
      = Some (Inr (Ready (Some (loaded_slots as (drop (length fs + 1) ?actions))),
          free_block (s3\<lparr>live := live s3 - int (length fs)\<rparr>)))"
    by (simp add: load_files_def create as(1) destroy_string_list_def free_entries_listed loaded_slots_def)
  moreover have "live (free_block (s3\<lparr>live := live s3 - int (length fs)\<rparr>))
      = live s - int (length fs) + int (sum_list (map cost specs))"
    using as(3) by (simp add: grown_def free_block_def)
  moreover have "plenty (free_block (s3\<lparr>live := live s3 - int (length fs)\<rparr>))"
    using grown_plenty [OF as(3)] by (simp add: free_block_def plenty_def)
  ultimately show ?thesis using as(2) by blast
qed

text \<open>An include directory whose files are all sound.\<close>

definition sound_files :: "platform \<Rightarrow> nat \<Rightarrow> files_seen \<Rightarrow> config \<Rightarrow> action_spec list \<Rightarrow> bool" where
  "sound_files pl v seen cfg specs \<longleftrightarrow>
     (\<exists>dir names. lookup_string cfg ''include_dir'' = Some dir \<and> directory_at seen dir = DirEntries names
        \<and> dir \<noteq> [] \<and> length dir + 1 < PATH_MAX
        \<and> (\<forall>name \<in> set names. name_fits (kind_at seen) dir name)
        \<and> log_fits (''Maximum number of files exceeded on '' @ quoted ''%s'' @ '': %d'')
             [AStr dir, AInt (int MAX_NUM_FILES)]
        \<and> length (wanted (kind_at seen) ''.conf'' dir names) < MAX_NUM_FILES
        \<and> wanted (kind_at seen) ''.conf'' dir names \<noteq> []
        \<and> list_all2 (loadable pl v QUERAL_VERSION (config_file_at seen))
             (wanted (kind_at seen) ''.conf'' dir names) specs
        \<and> garbage pl \<and> 0 < spare pl (length (wanted (kind_at seen) ''.conf'' dir names)))"

lemma load_secondary_ready:
  assumes "strings_ok cfg" and "sound_files pl v seen cfg specs" and "plenty s"
  shows "\<exists>as spares s'. load_secondary pl seen cfg servers count str s
       = Some (Inr (Ready (Some (loaded_slots as spares)), s'))
     \<and> list_all2 matches as specs
     \<and> live s' = live s + int (sum_list (map cost specs) + 1) \<and> plenty s'"
proof -
  obtain dir names where d: "lookup_string cfg ''include_dir'' = Some dir"
      "directory_at seen dir = DirEntries names" "dir \<noteq> []" "length dir + 1 < PATH_MAX"
      "\<forall>name \<in> set names. name_fits (kind_at seen) dir name"
    and fits: "log_fits (''Maximum number of files exceeded on '' @ quoted ''%s'' @ '': %d'')
         [AStr dir, AInt (int MAX_NUM_FILES)]"
      "length (wanted (kind_at seen) ''.conf'' dir names) < MAX_NUM_FILES"
    and load: "wanted (kind_at seen) ''.conf'' dir names \<noteq> []"
      "list_all2 (loadable pl v QUERAL_VERSION (config_file_at seen))
         (wanted (kind_at seen) ''.conf'' dir names) specs"
      "garbage pl" "0 < spare pl (length (wanted (kind_at seen) ''.conf'' dir names))"
    using assms(2) unfolding sound_files_def by blast
  let ?fs = "wanted (kind_at seen) ''.conf'' dir names"
  obtain s1 where s1: "load_secondary pl seen cfg servers count str s
      = load_files pl seen servers count (map Some ?fs @ replicate (MAX_NUM_FILES - length ?fs) None) s1"
      "live s1 = live s + 1 + int (length ?fs)" "plenty s1"
    using load_secondary_files [OF assms(1) d assms(3) fits, of pl servers count str] by blast
  obtain k where k: "MAX_NUM_FILES - length ?fs = Suc k" using fits(2) by (metis Suc_diff_Suc)
  from load_files_loads [OF load(2) s1(3) load(3,4,1), of servers count "replicate k None"]
  obtain as spares s' where "load_files pl seen servers count (map Some ?fs @ None # replicate k None) s1
        = Some (Inr (Ready (Some (loaded_slots as spares)), s'))" "list_all2 matches as specs"
      "live s' = live s1 - int (length ?fs) + int (sum_list (map cost specs))" "plenty s'"
    by blast
  then show ?thesis
    unfolding s1(1) k using s1(2) by (intro exI [of _ as] exI [of _ spares] exI [of _ s']) simp
qed

text \<open>A configuration with which \<^verbatim>\<open>main\<close> gets through its first half.\<close>

definition sound_config ::
  "platform \<Rightarrow> nat \<Rightarrow> files_seen \<Rightarrow> config \<Rightarrow> string list \<Rightarrow> action_spec list \<Rightarrow> bool" where
  "sound_config pl v seen cfg names specs \<longleftrightarrow>
     strings_ok cfg \<and> lookup_string cfg ''version'' = Some QUERAL_VERSION
     \<and> (\<exists>xs. lookup_list cfg ''memcached.servers'' = Some xs \<and> (\<forall>x \<in> set xs. server_good x)
          \<and> usable server_name xs = names)
     \<and> names \<noteq> [] \<and> sound_files pl v seen cfg specs"

lemma usable_server_names: "n \<in> set (usable server_name xs) \<Longrightarrow> n \<noteq> []"
  by (induction xs) (auto simp: server_name_def split: option.splits prod.splits)

lemma log_init_plenty: "live (log_init_quiet s) = live s" "plenty (log_init_quiet s) = plenty s"
    "live (log_init_verbose s) = live s" "plenty (log_init_verbose s) = plenty s"
  by (simp_all add: log_init_quiet_def log_init_verbose_def log_init_def plenty_def)

lemma main_configure_ready:
  assumes "\<forall>x \<in> set items. item_fits x"
    and "config_file_at seen (last_config CONFIG_FILENAME items) = Parsed cfg"
    and "sound_config pl v seen cfg names specs" and "plenty s"
  shows "\<exists>st k as spares s'. main_configure pl seen program (render items) s
       = Some (Inr (Ready (st, Some (loaded_slots as spares)), s'))
     \<and> agrees cfg st \<and> memcached_servers st = Some (map Some names @ replicate k None)
     \<and> servers_listed st = int (length names + k) \<and> list_all2 matches as specs
     \<and> live s' = live s + int (length names + 1) + int (sum_list (map cost specs) + 1) \<and> plenty s'"
proof -
  obtain xs where cfg: "strings_ok cfg" "lookup_string cfg ''version'' = Some QUERAL_VERSION"
      "lookup_list cfg ''memcached.servers'' = Some xs" "\<forall>x \<in> set xs. server_good x"
      "usable server_name xs = names" "names \<noteq> []" "sound_files pl v seen cfg specs"
    using assms(3) unfolding sound_config_def by blast
  obtain b where b: "strcpy (fresh PATH_MAX) 0 CONFIG_FILENAME = Inr b" "str_at b 0 = Inr CONFIG_FILENAME"
      "length b = PATH_MAX"
    using strcpy_fits [of CONFIG_FILENAME "fresh PATH_MAX"] by (auto simp: CONFIG_FILENAME_def PATH_MAX_def)
  obtain b' where b': "parse_arguments (render items) False b False = Inr (False, b', Verbose \<in> set items)"
      "str_at b' 0 = Inr (last_config CONFIG_FILENAME items)"
    using parse_arguments_items [OF b(2,3) assms(1), of "[]" False] by auto
  let ?s = "if Verbose \<notin> set items then log_init_quiet s else log_init_verbose s"
  have "log_fits ''Initializing daemon'' []" by (simp add: log_fits_def QUERAL_LOG_BUFFER_SIZE_def)
  then obtain s1 where s1: "log_notice ''Initializing daemon'' [] ?s = Inr s1" "live s1 = live s" "plenty s1"
    using assms(4) by (auto simp: log_notice_def log_write_fits log_init_plenty)
  have "xs \<noteq> []" using cfg(5,6) by auto
  then obtain st str' s2 where st: "read_settings cfg (Some QUERAL_VERSION) s1 = Inr (Ready st, str', s2)"
      "agrees cfg st" "memcached_servers st = Some (map Some names @ replicate (length xs - length names) None)"
      "servers_listed st = int (length xs)" "grown (Suc (length names)) s1 s2"
    using read_settings_ready [OF cfg(1,3) _ cfg(4) s1(3), of "Some QUERAL_VERSION"] unfolding cfg(5) by blast
  obtain as spares s3 where as: "load_secondary pl seen cfg (memcached_servers st) (servers_listed st) str' s2
        = Some (Inr (Ready (Some (loaded_slots as spares)), s3))" "list_all2 matches as specs"
      "live s3 = live s2 + int (sum_list (map cost specs) + 1)" "plenty s3"
    using load_secondary_ready [OF cfg(1,7) grown_plenty [OF st(5)]] by blast
  have "main_configure pl seen program (render items) s
      = Some (Inr (Ready (st, Some (loaded_slots as spares)), s3))"
    using b(1) b' s1(1) assms(2) cfg(2) st(1) as(1)
    by (simp add: main_configure_def load_config_def check_version_def del: if_not_P)
  moreover have "length names \<le> length xs" using length_usable [of server_name xs] cfg(5) by simp
  ultimately show ?thesis
    using st(2-5) as(2-4) s1(2)
    by (intro exI [of _ st] exI [of _ "length xs - length names"] exI [of _ as] exI [of _ spares] exI [of _ s3])
      (simp add: grown_def)
qed

section \<open>Properties\<close>

text \<open>
  C33: On any command line of options the last \<^verbatim>\<open>-f\<close> names the configuration file and \<^verbatim>\<open>-v\<close> anywhere
  makes the log verbose; a \<^verbatim>\<open>-f\<close> at the end asks for the usage. The name's length is not checked: one of
  \<^verbatim>\<open>PATH_MAX\<close> bytes or more overruns the array.
\<close>

theorem parse_arguments_options:
  assumes "str_at b 0 = Inr f" and "length b = PATH_MAX" and "\<forall>x \<in> set items. item_fits x"
  shows "(\<forall>tail \<in> {[], [''-f'']}. \<exists>b'. parse_arguments (render items @ tail) False b v
         = Inr (tail \<noteq> [], b', v \<or> Verbose \<in> set items) \<and> str_at b' 0 = Inr (last_config f items))
     \<and> (PATH_MAX \<le> length g \<longrightarrow>
          parse_arguments (render (items @ [Config g]) @ others) False b v = Inl OutOfBounds)"
proof -
  have app: "render (items @ [Config g]) = render items @ [''-f'', g]"
    by (induction items rule: render.induct) simp_all
  obtain b1 where b1: "parse_arguments (render items @ ''-f'' # g # others) False b v
       = parse_arguments (''-f'' # g # others) False b1 (v \<or> Verbose \<in> set items)"
      "length b1 = PATH_MAX"
    using parse_arguments_items [OF assms, of "''-f'' # g # others" v] by blast
  have "parse_arguments (render (items @ [Config g]) @ others) False b v = Inl OutOfBounds"
    if "PATH_MAX \<le> length g"
    using that b1 strcpy_start_overflow [of b1 g] unfolding app by simp
  moreover have "\<exists>b'. parse_arguments (render items @ tail) False b v
       = Inr (tail \<noteq> [], b', v \<or> Verbose \<in> set items) \<and> str_at b' 0 = Inr (last_config f items)"
    if "tail \<in> {[], [''-f'']}" for tail
    using that parse_arguments_items [OF assms, of tail v] by auto
  ultimately show ?thesis by blast
qed

theorem parse_arguments_options_witness:
  "\<exists>b'. parse_arguments [''-v'', ''x'', ''-f'', ''-v'', ''-f'', ''q.conf''] False
       (cells CONFIG_FILENAME @ Some NUL # fresh (PATH_MAX - 17)) False = Inr (False, b', True)
     \<and> str_at b' 0 = Inr ''q.conf''"
proof -
  let ?b = "cells CONFIG_FILENAME @ Some NUL # fresh (PATH_MAX - 17)"
  let ?items = "[Verbose, Ignored ''x'', Config ''-v'', Config ''q.conf'']"
  have b: "str_at ?b 0 = Inr CONFIG_FILENAME" "length ?b = PATH_MAX"
    by (rule str_at_0, simp_all add: CONFIG_FILENAME_def PATH_MAX_def)
  have items: "\<forall>x \<in> set ?items. item_fits x" by (simp add: item_fits_def PATH_MAX_def)
  from parse_arguments_options [OF b items, of False] show ?thesis by simp
qed



text \<open>
  C12: With an include directory whose files (fewer than 32 have the extension) are all sound, one
  action per file is loaded in directory order and \<open>find_action\<close> finds them; the list of files is given
  back. A directory without such files ends the daemon with status 1.
\<close>

theorem load_secondary_loads:
  assumes "strings_ok cfg" and "lookup_string cfg ''include_dir'' = Some dir"
    and "directory_at seen dir = DirEntries names" and "dir \<noteq> []" and "length dir + 1 < PATH_MAX"
    and "\<forall>name \<in> set names. name_fits (kind_at seen) dir name" and "plenty s"
    and "log_fits (''Maximum number of files exceeded on '' @ quoted ''%s'' @ '': %d'')
           [AStr dir, AInt (int MAX_NUM_FILES)]"
    and "length (wanted (kind_at seen) ''.conf'' dir names) < MAX_NUM_FILES"
    and "list_all2 (loadable pl v QUERAL_VERSION (config_file_at seen))
           (wanted (kind_at seen) ''.conf'' dir names) specs"
    and "garbage pl" and "0 < spare pl (length (wanted (kind_at seen) ''.conf'' dir names))"
    and "\<forall>xs. servers = Some xs \<longrightarrow> packed xs \<and> count = int (length xs)"
  shows "if wanted (kind_at seen) ''.conf'' dir names = []
     then \<exists>s'. load_secondary pl seen cfg servers count str s = Some (Inr (Exited 1, s'))
     else \<exists>as slots s'. load_secondary pl seen cfg servers count str s = Some (Inr (Ready (Some slots), s'))
       \<and> list_all2 matches as specs
       \<and> (\<forall>name. find_action (Some slots) name = Inr (find (\<lambda>a. named a name) as))
       \<and> live s' = live s + int (sum_list (map cost specs) + 1)"
proof (cases "wanted (kind_at seen) ''.conf'' dir names = []")
  case True
  note files = load_secondary_files [OF assms(1-9), where pl = pl and servers = servers and count = count
      and str = str]
  from files obtain s1 where
    load: "load_secondary pl seen cfg servers count str s
      = load_files pl seen servers count (replicate (MAX_NUM_FILES - 0) None) s1"
    unfolding True by auto
  have "\<exists>s'. destroy_string_list servers count s1 = Inr s'"
    using assms(13) destroy_packed by (cases servers) (auto simp: destroy_string_list_def [of None])
  then show ?thesis
    unfolding load load_files_def using True
    by (auto simp: create_actions_def MAX_NUM_FILES_def numeral_eq_Suc exit_daemon_def
        destroy_actions_def log_notice_def log_write_fits [OF exit_message])
next
  case False
  then have "sound_files pl v seen cfg specs"
    unfolding sound_files_def using assms(2-6,8-12) by blast
  from load_secondary_ready [OF assms(1) this assms(7), of servers count str] show ?thesis
    using False find_loaded by (auto intro: find_loaded)
qed

theorem load_secondary_loads_witness:
  "\<exists>as slots s'. load_secondary permissive
       \<lparr>config_file_at = sample_files, directory_at = (\<lambda>_. DirEntries [''a.conf'', ''b.txt'', ''c.conf'']),
        kind_at = (\<lambda>_. RegularFile)\<rparr>
       (sample_config\<lparr>lookup_string := (\<lambda>_. Some ''/d'')\<rparr>) None 0 None sample_sys
       = Some (Inr (Ready (Some slots), s'))
     \<and> list_all2 matches as [sample_spec, sample_spec] \<and> find_action (Some slots) ''home'' = Inr (Some (hd as))"
proof -
  let ?seen = "\<lparr>config_file_at = sample_files,
      directory_at = (\<lambda>_. DirEntries [''a.conf'', ''b.txt'', ''c.conf'']), kind_at = (\<lambda>_. RegularFile)\<rparr>"
  let ?cfg = "sample_config\<lparr>lookup_string := (\<lambda>_. Some ''/d'')\<rparr>"
  let ?names = "[''a.conf'', ''b.txt'', ''c.conf'']"
  have ok: "strings_ok ?cfg" "lookup_string ?cfg ''include_dir'' = Some ''/d''"
      "directory_at ?seen ''/d'' = DirEntries ?names" "''/d'' \<noteq> []" "length ''/d'' + 1 < PATH_MAX"
    by (simp_all add: strings_ok_def PATH_MAX_def)
  have names: "\<forall>name \<in> set ?names. name_fits (kind_at ?seen) ''/d'' name"
    by (simp add: name_fits_def dir_prefix_def PATH_MAX_def)
  have fits: "log_fits (''Maximum number of files exceeded on '' @ quoted ''%s'' @ '': %d'')
      [AStr ''/d'', AInt (int MAX_NUM_FILES)]"
    by (simp add: log_fits_def convert_def show_int_def show_nat.simps digit_char_def
        QUERAL_LOG_BUFFER_SIZE_def MAX_NUM_FILES_def)
  have w: "wanted (kind_at ?seen) ''.conf'' ''/d'' ?names = [''/d/a.conf'', ''/d/c.conf'']"
    by (simp add: wanted_eq has_extension_def dir_prefix_def)
  have files: "length (wanted (kind_at ?seen) ''.conf'' ''/d'' ?names) < MAX_NUM_FILES"
      "list_all2 (loadable permissive 9 QUERAL_VERSION (config_file_at ?seen))
         (wanted (kind_at ?seen) ''.conf'' ''/d'' ?names) [sample_spec, sample_spec]"
      "0 < spare permissive (length (wanted (kind_at ?seen) ''.conf'' ''/d'' ?names))"
    unfolding w by (simp_all add: MAX_NUM_FILES_def QUERAL_VERSION_def sample_loadable)
  have none: "\<forall>xs. (None :: string_list) = Some xs \<longrightarrow> packed xs \<and> 0 = int (length xs)" by simp
  obtain as slots s' where r: "load_secondary permissive ?seen ?cfg None 0 None sample_sys
        = Some (Inr (Ready (Some slots), s'))" "list_all2 matches as [sample_spec, sample_spec]"
      "\<forall>name. find_action (Some slots) name = Inr (find (\<lambda>a. named a name) as)"
    using load_secondary_loads [where seen = ?seen and cfg = ?cfg and str = None, OF ok names plenty_sample
        fits files(1,2) platform_sel(7) files(3) none] unfolding w by auto
  obtain a as' where a: "as = a # as'" "matches a sample_spec" using r(2) by (auto simp: list_all2_Cons2)
  have "named a ''home''" using a(2) by (simp add: matches_def sample_spec_def)
  then show ?thesis using r a(1) by auto
qed

end
