(* ===== verification/Main_Thread.thy ===== *)
theory Main_Thread
  imports Startup Worker Protocol Daemon_Utils
begin

text \<open>
  The second half of \<^verbatim>\<open>main\<close> in \<^verbatim>\<open>src/src/queral.c\<close>: \<open>main_prepare\<close> goes from the configuration to the
  event loop (becoming a daemon, \<open>create_fifo\<close>, starting the workers, the queue, the watcher) and
  \<open>main_finish\<close> from the end of the loop to the exit status. What the loop and the threads do between
  them are the steps of the theories \<open>Protocol\<close> and \<open>Interleaving\<close>.
\<close>

section \<open>The FIFO's place in the file system\<close>

datatype node = NoNode | RegularNode | DirectoryNode | FifoNode | OtherNode

type_synonym nodes = "string \<Rightarrow> node"

text \<open>What the kernel permits on the FIFO's name; \<open>open_answer\<close> is the descriptor or -1.\<close>

record fifo_system =
  may_unlink :: bool
  may_create :: bool
  open_answer :: int

text \<open>\<^verbatim>\<open>unlink\<close> removes every node but a directory, and \<^verbatim>\<open>mkfifo\<close> fails on a name in use.\<close>

definition unlink_node :: "fifo_system \<Rightarrow> string \<Rightarrow> nodes \<Rightarrow> nodes" where
  "unlink_node k name nodes =
     (if may_unlink k \<and> nodes name \<noteq> DirectoryNode then nodes(name := NoNode) else nodes)"

definition mkfifo :: "fifo_system \<Rightarrow> string \<Rightarrow> nodes \<Rightarrow> int \<times> nodes" where
  "mkfifo k name nodes =
     (if may_create k \<and> nodes name = NoNode then (0, nodes(name := FifoNode)) else (-1, nodes))"

definition create_fifo :: "fifo_system \<Rightarrow> string \<Rightarrow> nodes \<Rightarrow> sys \<Rightarrow> (int \<times> nodes \<times> sys) res" where
  "create_fifo k fifo nodes s =
     (if nodes fifo = RegularNode then
        chk (log_error (''File '' @ quoted ''%s'' @ '' exist and is not a socket'') [AStr fifo] s) (\<lambda>s.
        Inr (-1, nodes, s))
      else
        let nodes = unlink_node k fifo nodes; (made, nodes) = mkfifo k fifo nodes in
        if made = -1 then
          chk (log_error (''Failed to create the socket: '' @ quoted ''%s'') [AStr fifo] s) (\<lambda>s.
          Inr (-1, nodes, s))
        else
          let socket = open_answer k in
          if socket = -1 then
            chk (log_error (''Failed to open the socket: '' @ quoted ''%s'') [AStr fifo] s) (\<lambda>s.
            Inr (-1, nodes, s))
          else Inr (socket, nodes, s))"

section \<open>The worker threads\<close>

definition QUEUE_CAPACITY :: nat where
  "QUEUE_CAPACITY = 256"

text \<open>An entry of the pool with its element of \<^verbatim>\<open>thread_ids\<close>: the thread was not created, it ended before
  its loop, or it is in its loop.\<close>

datatype pool_entry = NotCreated | Ended worker_t | Looping worker_t

text \<open>An element of the block \<^verbatim>\<open>malloc\<close> returned, with its \<^verbatim>\<open>worker_id\<close> set. The thread writes the
  other fields before it reads them, but for \<open>servers\<close>, which is marked as never set.\<close>

definition new_worker :: "int \<Rightarrow> worker_t" where
  "new_worker i =
     \<lparr>worker_id = i, curl = \<lparr>handle = False, buffer = \<lparr>memory = None, mem_size = 0, enabled = False\<rparr>\<rparr>,
      memcached = \<lparr>memc = False, servers = None\<rparr>\<rparr>"

definition globals_of :: "settings \<Rightarrow> action_slot list option \<Rightarrow> string \<Rightarrow> globals" where
  "globals_of st acts fifo =
     \<lparr>worker_contention = contention st, server_names = memcached_servers st,
      server_count = servers_listed st, expiration = memc_expiration st, key_prefix = memc_prefix st,
      actions = acts, fifo_name = fifo\<rparr>"

text \<open>\<open>errors i\<close> is what \<open>create_thread\<close> returns for the thread \<open>i\<close>, and \<open>outs i\<close> what that thread meets.
  The start of a thread, which touches nothing the others use, is run where it is created.\<close>

fun start_workers ::
  "(nat \<Rightarrow> int) \<Rightarrow> (nat \<Rightarrow> outside) \<Rightarrow> globals \<Rightarrow> nat list \<Rightarrow> sys \<Rightarrow> (pool_entry list \<times> sys) res" where
  "start_workers errors outs g [] s = Inr ([], s)"
| "start_workers errors outs g (i # is) s =
     (if 0 \<noteq> errors i then
        chk (log_error (''Couldn'' @ [CHR 0x27] @ ''t run worker thread %d, errno %d'')
               [AInt (int i), AInt (errors i)] s) (\<lambda>s.
        chk (start_workers errors outs g is s) (\<lambda>(es, s). Inr (NotCreated # es, s)))
      else
        chk (worker_start (outs i) g (new_worker (int i)) s) (\<lambda>(goes_on, w, s).
        chk (start_workers errors outs g is s) (\<lambda>(es, s).
        Inr ((if goes_on then Looping w else Ended w) # es, s))))"

text \<open>What the event loop sees of an entry.\<close>

definition thread_of :: "pool_entry \<Rightarrow> thread" where
  "thread_of e =
     \<lparr>phase = (case e of Looping _ \<Rightarrow> Waits | _ \<Rightarrow> Gone), thread_job = fresh BUFFER_SIZE\<rparr>"

section \<open>From the configuration to the event loop\<close>

text \<open>The array \<^verbatim>\<open>thread_ids\<close> has \<^verbatim>\<open>workers_count\<close> elements: a negative number is undefined. (An empty
  array is taken as GCC does.)\<close>

definition main_prepare ::
  "os \<Rightarrow> fifo_system \<Rightarrow> (nat \<Rightarrow> int) \<Rightarrow> (nat \<Rightarrow> outside) \<Rightarrow> settings \<Rightarrow> action_slot list option
   \<Rightarrow> host \<Rightarrow> nodes \<Rightarrow> sys \<Rightarrow> ((pool_entry list \<times> daemon) startup \<times> host \<times> nodes \<times> sys) run" where
  "main_prepare k fk errors outs st acts h nodes s =
     (let leave = (\<lambda>h nodes s. andthen (Some (exit_daemon (memcached_servers st) (servers_listed st) acts 1 s))
                                 (\<lambda>(x, s). Some (Inr (x, h, nodes, s))))
      in
     andthen (Some (str_at (pidfile_filename st) 0)) (\<lambda>pidfile.
     andthen (daemonize k pidfile h s) (\<lambda>(result, h, s).
     case result of
       Exits status \<Rightarrow> Some (Inr (Exited status, h, nodes, s))
     | Returns r \<Rightarrow>
     if r = -1 then leave h nodes s
     else
       andthen (Some (str_at (fifo_file st) 0)) (\<lambda>fifo.
       andthen (Some (create_fifo fk fifo nodes s)) (\<lambda>(socket, nodes, s).
       if socket = -1 then leave h nodes s
       else
         let (pool, s) = malloc s in
         if workers_count st < 0 then Some (Inl OutOfBounds)
         else if \<not> pool \<and> 0 < workers_count st then Some (Inl NullPointer)
         else
           andthen (Some (start_workers errors outs (globals_of st acts fifo)
                            [0..<nat (workers_count st)] s)) (\<lambda>(fleet, s).
           andthen (Some (fifo_init QUEUE_CAPACITY s)) (\<lambda>(q, s).
           andthen (Some (memset (replicate BUFFER_SIZE (Some NUL)) NUL BUFFER_SIZE)) (\<lambda>cache.
           let (ok, s) = malloc s in
           if \<not> ok then Some (Inl NullPointer)
           else
             andthen (Some (strcpy (fresh (length fifo + 1)) 0 fifo)) (\<lambda>copy.
             andthen (Some (str_at copy 0)) (\<lambda>name.
             Some (Inr (Ready (fleet,
               \<lparr>common = \<lparr>queue = q, url_count = 0, should_run = True\<rparr>,
                watcher = \<lparr>loop_running = True, fifo_linked = True, fifo_filename = name,
                           read_buffer = replicate BUFFER_SIZE (Some NUL), cache_buffer = cache\<rparr>,
                fifo_text = [], threads = map thread_of fleet, daemon_sys = s\<rparr>),
               h, nodes, s))))))))))))"

section \<open>After the event loop\<close>

text \<open>Joining a thread that was never created reads its indeterminate id; a thread in its loop has
  left it by then and runs its end.\<close>

fun join_workers :: "pool_entry list \<Rightarrow> sys \<Rightarrow> sys res" where
  "join_workers [] s = Inr s"
| "join_workers (NotCreated # es) s = Inl Uninitialised"
| "join_workers (Ended w # es) s = join_workers es s"
| "join_workers (Looping w # es) s = chk (worker_end w s) (\<lambda>(w, s). join_workers es s)"

definition main_finish ::
  "settings \<Rightarrow> action_slot list option \<Rightarrow> pool_entry list \<Rightarrow> daemon \<Rightarrow> (int \<times> sys) res" where
  "main_finish st acts fleet d =
     chk (join_workers fleet (daemon_sys d)) (\<lambda>s.
     let s = fifo_destroy (queue (common d)) (free_block s) in
     chk (destroy_actions acts s) (\<lambda>s.
     chk (destroy_string_list (memcached_servers st) (servers_listed st) s) (\<lambda>s.
     chk (log_notice ''Terminated with status %d'' [AInt 0] s) (\<lambda>s. Inr (0, s)))))"

section \<open>Lemmas\<close>

lemma create_fifo_made:
  "nodes fifo \<notin> {RegularNode, DirectoryNode} \<Longrightarrow> may_unlink k \<or> nodes fifo = NoNode \<Longrightarrow> may_create k
   \<Longrightarrow> open_answer k \<noteq> -1 \<Longrightarrow>
   create_fifo k fifo nodes s = Inr (open_answer k, nodes(fifo := FifoNode), s)"
  by (auto simp: create_fifo_def unlink_node_def mkfifo_def Let_def)

lemma log_fits_fifo:
  assumes "NUL \<notin> set fifo" and "length fifo < 200"
  shows "log_fits (''File '' @ quoted ''%s'' @ '' exist and is not a socket'') [AStr fifo]"
    and "log_fits (''Failed to create the socket: '' @ quoted ''%s'') [AStr fifo]"
    and "log_fits (''Failed to open the socket: '' @ quoted ''%s'') [AStr fifo]"
  using assms by (simp_all add: log_fits_def convert_def QUERAL_LOG_BUFFER_SIZE_def)

lemma log_fits_thread:
  assumes "0 \<le> e" and "e < 1000" and "i < 1000"
  shows "log_fits (''Couldn'' @ [CHR 0x27] @ ''t run worker thread %d, errno %d'') [AInt (int i), AInt e]"
proof -
  have "length (show_int e) \<le> 3" "length (show_int (int i)) \<le> 3"
    using length_show_int [of e 2] length_show_int [of "int i" 2] assms by simp_all
  then show ?thesis
    using NUL_notin_show_int [of e] NUL_notin_show_int [of "int i"]
    by (simp add: log_fits_def convert_def QUERAL_LOG_BUFFER_SIZE_def)
qed

subsection \<open>The workers\<close>

text \<open>The servers all answer, and the errors of \<open>create_thread\<close> are numbers below 1000.\<close>

definition servers_up :: "(nat \<Rightarrow> outside) \<Rightarrow> bool" where
  "servers_up outs \<longleftrightarrow> (\<forall>i n. mc_parsed (outs i) n \<and> mc_pushed (outs i) n = None)"

definition errors_fit :: "(nat \<Rightarrow> int) \<Rightarrow> bool" where
  "errors_fit errors \<longleftrightarrow> (\<forall>i. 0 \<le> errors i \<and> errors i < 1000)"

definition manned :: "(nat \<Rightarrow> int) \<Rightarrow> nat \<Rightarrow> pool_entry \<Rightarrow> bool" where
  "manned errors i e \<longleftrightarrow>
     (if errors i = 0
      then \<exists>w. e = Looping w \<and> worker_id w = int i \<and> curl_ready (curl w) \<and> servers (memcached w) = Some False
      else e = NotCreated)"

lemma start_workers_manned:
  assumes "plenty s" and "server_names g = Some names" and "server_count g = int (length names)"
    and "\<exists>m. Some m \<in> set names \<and> m \<noteq> []" and "servers_up outs" and "errors_fit errors"
    and "\<forall>i \<in> set is. i < 1000"
  shows "\<exists>fleet s'. start_workers errors outs g is s = Inr (fleet, s')
     \<and> list_all2 (manned errors) is fleet
     \<and> live s' = live s + int (length (filter (\<lambda>i. errors i = 0) is)) \<and> plenty s'"
  using assms(1,7)
proof (induction "is" arbitrary: s)
  case Nil
  then show ?case by simp
next
  case (Cons i ns)
  have rest: "\<forall>i \<in> set ns. i < 1000" using Cons.prems(2) by simp
  show ?case
  proof (cases "errors i = 0")
    case True
    have names: "names \<noteq> []" using assms(4) by auto
    have up: "\<forall>n. mc_parsed (outs i) n \<and> mc_pushed (outs i) n = None"
      using assms(5) by (simp add: servers_up_def)
    obtain w s1 where w: "worker_start (outs i) g (new_worker (int i)) s = Inr (True, w, s1)"
        "curl_ready (curl w)" "worker_id w = worker_id (new_worker (int i))"
        "memcached w = connected names ((memcached (new_worker (int i)))\<lparr>memc := memcached_init (mc_created (outs i))\<rparr>)"
        "live s1 = live s + 1" "plenty s1"
      using worker_starts [OF Cons.prems(1) assms(2,3) names up, of "new_worker (int i)"] by blast
    have "manned errors i (Looping w)"
      using w(2-4) True assms(4) unfolding manned_def by (simp add: connected_servers new_worker_def)
    moreover obtain fleet s' where "start_workers errors outs g ns s1 = Inr (fleet, s')"
        "list_all2 (manned errors) ns fleet"
        "live s' = live s1 + int (length (filter (\<lambda>i. errors i = 0) ns))" "plenty s'"
      using Cons.IH [OF w(6) rest] by blast
    ultimately show ?thesis
      using True w(1,5) by (intro exI [of _ "Looping w # fleet"] exI [of _ s']) simp
  next
    case False
    have "log_fits (''Couldn'' @ [CHR 0x27] @ ''t run worker thread %d, errno %d'')
        [AInt (int i), AInt (errors i)]"
      using log_fits_thread [of "errors i" i] assms(6) Cons.prems(2) by (simp add: errors_fit_def)
    then obtain s1 where s1: "log_error (''Couldn'' @ [CHR 0x27] @ ''t run worker thread %d, errno %d'')
        [AInt (int i), AInt (errors i)] s = Inr s1" "live s1 = live s" "plenty s1"
      using Cons.prems(1) by (simp add: log_error_def log_write_fits)
    obtain fleet s' where "start_workers errors outs g ns s1 = Inr (fleet, s')"
        "list_all2 (manned errors) ns fleet"
        "live s' = live s1 + int (length (filter (\<lambda>i. errors i = 0) ns))" "plenty s'"
      using Cons.IH [OF s1(3) rest] by blast
    moreover have "manned errors i NotCreated" using False by (simp add: manned_def)
    ultimately show ?thesis
      using False s1(1,2) by (intro exI [of _ "NotCreated # fleet"] exI [of _ s']) simp
  qed
qed

lemma join_workers_all:
  "list_all2 (manned errors) is fleet \<Longrightarrow> \<forall>i \<in> set is. errors i = 0 \<Longrightarrow>
   join_workers fleet s = Inr (s\<lparr>live := live s - int (length is)\<rparr>)"
proof (induction arbitrary: s rule: list_all2_induct)
  case (Cons i "is" e fleet)
  then obtain w where w: "e = Looping w" "curl_ready (curl w)" "servers (memcached w) = Some False"
    by (auto simp: manned_def)
  then obtain w' where "worker_end w s = Inr (w', free_block s)"
    using worker_end_frees [of w s] by auto
  then show ?case using w(1) Cons by (simp add: free_block_def algebra_simps)
qed simp

lemma join_workers_missing:
  "list_all2 (manned errors) is fleet \<Longrightarrow> \<exists>i \<in> set is. errors i \<noteq> 0 \<Longrightarrow>
   join_workers fleet s = Inl Uninitialised"
proof (induction arbitrary: s rule: list_all2_induct)
  case (Cons i "is" e fleet)
  show ?case
  proof (cases "errors i = 0")
    case True
    then obtain w where w: "e = Looping w" "curl_ready (curl w)" "servers (memcached w) = Some False"
      using Cons by (auto simp: manned_def)
    then obtain w' where "worker_end w s = Inr (w', free_block s)"
      using worker_end_frees [of w s] by auto
    then show ?thesis using w(1) True Cons by simp
  next
    case False
    then show ?thesis using Cons by (simp add: manned_def)
  qed
qed simp

subsection \<open>The way to the event loop\<close>

text \<open>Kernels that let the daemon detach, lock its file and make its FIFO.\<close>

definition host_ok :: "os \<Rightarrow> string \<Rightarrow> host \<Rightarrow> bool" where
  "host_ok k pidfile h \<longleftrightarrow>
     (case nofile_limit k of
        None \<Rightarrow> False
      | Some r \<Rightarrow> file_limit r < 2 ^ 32 \<and> (\<forall>d \<in> set (descriptors h). d < file_limit r))
     \<and> lets_detach k \<and> can_open k DAEMON_STD_FILE \<and> can_open k pidfile \<and> lock_answer k = LockGranted
     \<and> 0 \<le> own_pid k \<and> own_pid k < 10 ^ 15"

definition fifo_ok :: "fifo_system \<Rightarrow> string \<Rightarrow> nodes \<Rightarrow> bool" where
  "fifo_ok k fifo nodes \<longleftrightarrow> nodes fifo \<notin> {RegularNode, DirectoryNode}
     \<and> (may_unlink k \<or> nodes fifo = NoNode) \<and> may_create k \<and> open_answer k \<noteq> -1"

lemma daemonize_granted:
  assumes "host_ok k pidfile h"
  shows "\<exists>h' s'. daemonize k pidfile h s = Some (Inr (Returns 1, h', s'))
     \<and> lock_held h' \<and> lock_text h' = show_int (own_pid k) @ [NUL] \<and> same_heap s s'"
proof -
  obtain r where r: "nofile_limit k = Some r" "file_limit r < 2 ^ 32"
      "\<forall>d \<in> set (descriptors h). d < file_limit r"
    using assms by (auto simp: host_ok_def split: option.splits)
  have k: "lets_detach k" "can_open k DAEMON_STD_FILE" "can_open k pidfile"
      "lock_answer k = LockGranted" "0 \<le> own_pid k" "own_pid k < 10 ^ 15"
    using assms by (simp_all add: host_ok_def)
  have h: "descriptors ((detached h)\<lparr>descriptors := [2, 1, 0]\<rparr>) = [2, 1, 0]" by simp
  show ?thesis
    unfolding daemonize_detached [OF r(1) k(1) r(2,3) k(2)] already_running_granted [OF k(3) h k(4-6)]
    by (simp add: daemon_log same_heap_def)
qed

lemma main_prepare_ready:
  assumes "str_at (pidfile_filename st) 0 = Inr pidfile" and "str_at (fifo_file st) 0 = Inr fifo"
    and "host_ok k pidfile h" and "fifo_ok fk fifo nodes"
    and "workers_count st = int n" and "n < 1000" and "plenty s"
    and "memcached_servers st = Some names" and "servers_listed st = int (length names)"
    and "\<exists>m. Some m \<in> set names \<and> m \<noteq> []" and "servers_up outs" and "errors_fit errors"
  shows "\<exists>fleet d h'. main_prepare k fk errors outs st acts h nodes s
       = Some (Inr (Ready (fleet, d), h', nodes(fifo := FifoNode), daemon_sys d))
     \<and> started d \<and> list_all2 (manned errors) [0..<n] fleet \<and> threads d = map thread_of fleet
     \<and> capacity (queue (common d)) = QUEUE_CAPACITY \<and> fifo_filename (watcher d) = fifo
     \<and> fifo_linked (watcher d) \<and> length (read_buffer (watcher d)) = BUFFER_SIZE
     \<and> holding (cache_buffer (watcher d)) [] \<and> lock_held h' \<and> lock_text h' = show_int (own_pid k) @ [NUL]
     \<and> live (daemon_sys d) = live s + int (length (filter (\<lambda>i. errors i = 0) [0..<n])) + 259"
proof -
  obtain h' s1 where d: "daemonize k pidfile h s = Some (Inr (Returns 1, h', s1))"
      "lock_held h'" "lock_text h' = show_int (own_pid k) @ [NUL]" "same_heap s s1"
    using daemonize_granted [OF assms(3)] by blast
  have s1: "plenty s1" "live s1 = live s" using d(4) assms(7) by (simp_all add: same_heap_def plenty_def)
  have made: "create_fifo fk fifo nodes s1 = Inr (open_answer fk, nodes(fifo := FifoNode), s1)"
      "open_answer fk \<noteq> -1"
    using assms(4) by (simp_all add: fifo_ok_def create_fifo_made)
  let ?g = "globals_of st acts fifo" let ?s2 = "s1\<lparr>live := live s1 + 1\<rparr>"
  have g: "server_names ?g = Some names" "server_count ?g = int (length names)"
    by (simp_all add: globals_of_def assms(8,9))
  have s2: "plenty ?s2" using s1 by simp
  have small: "\<forall>i \<in> set [0..<n]. i < 1000" using assms(6) by simp
  obtain fleet s3 where f: "start_workers errors outs ?g [0..<n] ?s2 = Inr (fleet, s3)"
      "list_all2 (manned errors) [0..<n] fleet" "plenty s3"
      "live s3 = live ?s2 + int (length (filter (\<lambda>i. errors i = 0) [0..<n]))"
    using start_workers_manned [OF s2 g assms(10-12) small] by blast
  obtain q where q: "fifo_init QUEUE_CAPACITY s3 = Inr (q, s3\<lparr>live := live s3 + int QUEUE_CAPACITY + 1\<rparr>)"
      "fifo_wf q" "fifo_list q = []" "capacity q = QUEUE_CAPACITY"
    using fifo_init_plenty [OF f(3), of QUEUE_CAPACITY] by (auto simp: QUEUE_CAPACITY_def)
  obtain copy where copy: "strcpy (fresh (length fifo + 1)) 0 fifo = Inr copy" "str_at copy 0 = Inr fifo"
    using strcpy_fits [of fifo "fresh (length fifo + 1)"] str_at_0_D [OF assms(2)] by auto
  let ?s4 = "s3\<lparr>live := live s3 + int QUEUE_CAPACITY + 2\<rparr>"
  let ?w = "\<lparr>loop_running = True, fifo_linked = True, fifo_filename = fifo,
      read_buffer = replicate BUFFER_SIZE (Some NUL), cache_buffer = replicate BUFFER_SIZE (Some NUL)\<rparr>"
  let ?d = "\<lparr>common = \<lparr>queue = q, url_count = 0, should_run = True\<rparr>, watcher = ?w,
      fifo_text = [], threads = map thread_of fleet, daemon_sys = ?s4\<rparr>"
  have "main_prepare k fk errors outs st acts h nodes s
      = Some (Inr (Ready (fleet, ?d), h', nodes(fifo := FifoNode), ?s4))"
    using s1(1) f(3) made(2)
    by (simp add: main_prepare_def assms(1,2,5) d(1) made(1) f(1) q(1) copy copy(1) [simplified]
        memset_buffer Let_def add.assoc)
  moreover have "started ?d"
    using q(2,3) by (auto simp: started_def thread_of_def split: pool_entry.splits)
  moreover have "live ?s4 = live s + int (length (filter (\<lambda>i. errors i = 0) [0..<n])) + 259"
    using f(4) s1(2) by (simp add: QUEUE_CAPACITY_def)
  ultimately show ?thesis
    using f(2) q(4) d(2,3) by (intro exI [of _ fleet] exI [of _ ?d] exI [of _ h']) (simp add: holding_zeros)
qed

subsection \<open>What is given back at the end\<close>

text \<open>The number of blocks the actions and the server list take.\<close>

definition owned_actions :: "action_slot list option \<Rightarrow> nat \<Rightarrow> bool" where
  "owned_actions acts n \<longleftrightarrow>
     (case acts of
        None \<Rightarrow> n = 0
      | Some xs \<Rightarrow> \<exists>as specs rest. xs = map (\<lambda>a. Some (Some a)) as @ Some None # rest
          \<and> list_all2 matches as specs \<and> n = sum_list (map cost specs) + 1)"

lemma destroy_owned:
  "owned_actions acts n \<Longrightarrow> destroy_actions acts s = Inr (s\<lparr>live := live s - int n\<rparr>)"
  by (cases acts)
    (auto simp: owned_actions_def destroy_actions_def destroy_from_loaded free_block_def algebra_simps)

definition owned_servers :: "settings \<Rightarrow> nat \<Rightarrow> bool" where
  "owned_servers st n \<longleftrightarrow>
     (\<exists>names. memcached_servers st = Some names \<and> packed names
        \<and> servers_listed st = int (length names) \<and> n = length (entries names) + 1)"

lemma destroy_servers:
  "owned_servers st n \<Longrightarrow>
   destroy_string_list (memcached_servers st) (servers_listed st) s = Inr (s\<lparr>live := live s - int n\<rparr>)"
  by (auto simp: owned_servers_def destroy_packed algebra_simps)

lemma exit_daemon_owned:
  assumes "owned_servers st n" and "owned_actions acts m"
  shows "\<exists>s'. exit_daemon (memcached_servers st) (servers_listed st) acts 1 s = Inr (Exited 1, s')
     \<and> live s' = live s - int (n + m)"
  by (simp add: exit_daemon_def destroy_owned [OF assms(2)] destroy_servers [OF assms(1)]
      log_notice_def log_write_fits [OF exit_message])

lemma log_fits_success: "log_fits ''Terminated with status %d'' [AInt 0]"
  by (simp add: log_fits_def convert_def QUERAL_LOG_BUFFER_SIZE_def show_int_def show_nat.simps
      digit_char_def)

text \<open>The blocks of the queue that \<open>fifo_destroy\<close> leaves behind: its slots, when it is empty.\<close>

definition forgotten :: "fifo_queue \<Rightarrow> nat" where
  "forgotten q = (if fifo_list q = [] then capacity q else 0)"

lemma fifo_destroy_blocks:
  assumes "fifo_wf q"
  shows "fifo_destroy q s = s\<lparr>live := live s - int (capacity q) - 1 + int (forgotten q)\<rparr>"
proof (cases "occupied q = 0")
  case True
  then have "fifo_list q = []" by (simp add: fifo_list_def)
  then show ?thesis using True by (simp add: fifo_destroy_def free_block_def forgotten_def)
next
  case False
  then have "fifo_list q \<noteq> []" using length_fifo_list [of q] by fastforce
  moreover have "slots_ok q" using assms by (simp add: fifo_wf_def)
  ultimately show ?thesis
    using False by (simp add: fifo_destroy_def free_block_def forgotten_def slots_ok_free)
qed

lemma main_finish_all:
  assumes "list_all2 (manned errors) [0..<n] fleet" and "fifo_wf (queue (common d))"
    and "owned_servers st k" and "owned_actions acts m" and "\<forall>i < n. errors i = 0"
  shows "\<exists>s'. main_finish st acts fleet d = Inr (0, s')
     \<and> live s' = live (daemon_sys d) - int (n + k + m + capacity (queue (common d)) + 2)
         + int (forgotten (queue (common d)))"
  using assms(5)
  by (simp add: main_finish_def join_workers_all [OF assms(1)] fifo_destroy_blocks [OF assms(2)]
      destroy_owned [OF assms(4)] destroy_servers [OF assms(3)] log_notice_def
      log_write_fits [OF log_fits_success] free_block_def)

lemma main_finish_missing:
  assumes "list_all2 (manned errors) [0..<n] fleet" and "i < n" and "errors i \<noteq> 0"
  shows "main_finish st acts fleet d = Inl Uninitialised"
proof -
  have "\<exists>i \<in> set [0..<n]. errors i \<noteq> 0" using assms(2,3) by auto
  from join_workers_missing [OF assms(1) this] show ?thesis by (simp add: main_finish_def)
qed

text \<open>Settings and a file system to evaluate on.\<close>

definition sample_settings :: settings where
  "sample_settings = \<lparr>pidfile_filename = cells ''pid'' @ [Some NUL], fifo_file = cells ''fifo'' @ [Some NUL],
     workers_count = 2, contention = 100, memcached_servers = Some [Some ''localhost:11211''],
     servers_listed = 1, memc_expiration = 7200, memc_prefix = cells ''__memc_'' @ [Some NUL]\<rparr>"

definition sample_fifo_system :: fifo_system where
  "sample_fifo_system = \<lparr>may_unlink = True, may_create = True, open_answer = 4\<rparr>"

lemma sample_settings_ok:
  "str_at (pidfile_filename sample_settings) 0 = Inr ''pid''"
  "str_at (fifo_file sample_settings) 0 = Inr ''fifo''"
  "workers_count sample_settings = int 2" "owned_servers sample_settings 2"
  "memcached_servers sample_settings = Some [Some ''localhost:11211'']"
  "servers_listed sample_settings = int (length [Some ''localhost:11211''])"
proof -
  have "packed [Some ''localhost:11211'']"
    unfolding packed_def by (rule exI [of _ "[''localhost:11211'']"], rule exI [of _ 0]) simp
  then show "owned_servers sample_settings 2"
    by (simp add: owned_servers_def sample_settings_def entries_def)
qed (simp_all add: sample_settings_def str_at_def)

lemma sample_host_ok: "host_ok (sample_os 16 LockGranted) f sample_host"
  by (simp add: host_ok_def sample_os_def sample_host_def file_limit_def RLIM_INFINITY_def lets_detach_def)

lemma owned_none: "owned_actions None 0"
  by (simp add: owned_actions_def)

section \<open>Properties\<close>

text \<open>
  \<open>create_fifo\<close> makes a new FIFO under its name, in place of whatever was there, or returns -1; a
  regular file or a directory under that name, and all other names, are left alone.
\<close>

lemma create_fifo_outcome:
  assumes "NUL \<notin> set fifo" and "length fifo < 200"
  shows "\<exists>r nodes' s'. create_fifo k fifo nodes s = Inr (r, nodes', s')
     \<and> (if fifo_ok k fifo nodes then r = open_answer k \<and> nodes' = nodes(fifo := FifoNode) else r = -1)
     \<and> (nodes fifo \<in> {RegularNode, DirectoryNode} \<longrightarrow> nodes' = nodes)
     \<and> (\<forall>f. f \<noteq> fifo \<longrightarrow> nodes' f = nodes f)"
  unfolding create_fifo_def log_error_def log_fits_fifo [OF assms, THEN log_write_fits] chk_Inr
  by (cases "nodes fifo"; cases "may_unlink k"; cases "may_create k"; cases "open_answer k = -1";
      simp add: unlink_node_def mkfifo_def fifo_ok_def Let_def)

text \<open>
  C21: A second daemon on the same lock file exits with status 1 before it touches the FIFO, leaves the
  process id in the lock file alone, and gives back its servers and actions.
\<close>

theorem second_daemon_exits:
  assumes "str_at (pidfile_filename st) 0 = Inr pidfile" and "host_ok (k\<lparr>lock_answer := LockGranted\<rparr>) pidfile h"
    and "lock_answer k = LockBusy" and "owned_servers st n" and "owned_actions acts m"
  shows "\<exists>h' s'. main_prepare k fk errors outs st acts h nodes s = Some (Inr (Exited 1, h', nodes, s'))
     \<and> lock_text h' = lock_text h \<and> lock_held h' = lock_held h \<and> live s' = live s - int (n + m)"
proof -
  have kk: "nofile_limit k = nofile_limit (k\<lparr>lock_answer := LockGranted\<rparr>)" by simp
  obtain r where r: "nofile_limit k = Some r" "file_limit r < 2 ^ 32"
      "\<forall>d \<in> set (descriptors h). d < file_limit r"
    using assms(2) by (auto simp: host_ok_def split: option.splits)
  have k: "lets_detach k" "can_open k DAEMON_STD_FILE" "can_open k pidfile"
    using assms(2) by (simp_all add: host_ok_def lets_detach_def)
  let ?h = "(detached h)\<lparr>descriptors := [2, 1, 0]\<rparr>"
  obtain s1 where run: "already_running k pidfile ?h s = Inr (1, ?h, s1)" "live s1 = live s"
    using k(3) assms(3)
    by (simp add: already_running_def open_file_def lowest_free_std lockfile_def)
  obtain s2 where s2: "daemonize k pidfile h s = Some (Inr (Returns (-1), ?h, s2))" "live s2 = live s"
    using run unfolding daemonize_detached [OF r(1) k(1) r(2,3) k(2)] by (simp add: daemon_log)
  obtain s3 where "exit_daemon (memcached_servers st) (servers_listed st) acts 1 s2
        = Inr (Exited 1 :: (pool_entry list \<times> daemon) startup, s3)"
      "live s3 = live s2 - int (n + m)"
    using exit_daemon_owned [OF assms(4,5)] by blast
  then show ?thesis
    by (intro exI [of _ ?h] exI [of _ s3])
      (simp add: main_prepare_def assms(1) s2 Let_def detached_def)
qed

theorem second_daemon_exits_witness:
  "\<exists>h' s'. main_prepare (sample_os 16 LockBusy) sample_fifo_system (\<lambda>_. 0) (\<lambda>_. sample_outside)
       sample_settings None sample_host (\<lambda>_. FifoNode) (sample_sys\<lparr>live := 2\<rparr>)
       = Some (Inr (Exited 1, h', \<lambda>_. FifoNode, s'))
     \<and> lock_text h' = ''99'' \<and> live s' = 0"
proof -
  have busy: "lock_answer (sample_os 16 LockBusy) = LockBusy" by (simp add: sample_os_def)
  have "(sample_os 16 LockBusy)\<lparr>lock_answer := LockGranted\<rparr> = sample_os 16 LockGranted"
    by (simp add: sample_os_def)
  then have host: "host_ok ((sample_os 16 LockBusy)\<lparr>lock_answer := LockGranted\<rparr>) ''pid'' sample_host"
    by (simp only: sample_host_ok)
  from second_daemon_exits [OF sample_settings_ok(1) host busy sample_settings_ok(4) owned_none,
      where s = "sample_sys\<lparr>live := 2\<rparr>"] show ?thesis
    by (fastforce simp: sample_host_def)
qed

end
