(* ===== verification/Program.thy ===== *)
theory Program
  imports Main_Thread Shutdown Refresh
begin

text \<open>
  \<^verbatim>\<open>main\<close> of \<^verbatim>\<open>src/src/queral.c\<close> as a whole, from its arguments to the event loop: the two halves of the
  theories \<open>Startup\<close> and \<open>Main_Thread\<close> one after the other, and what a sound configuration makes of them.
\<close>

section \<open>From the arguments to the event loop\<close>

definition main_start ::
  "platform \<Rightarrow> files_seen \<Rightarrow> os \<Rightarrow> fifo_system \<Rightarrow> (nat \<Rightarrow> int) \<Rightarrow> (nat \<Rightarrow> outside) \<Rightarrow> string \<Rightarrow> string list
   \<Rightarrow> host \<Rightarrow> nodes \<Rightarrow> sys
   \<Rightarrow> ((settings \<times> action_slot list option \<times> pool_entry list \<times> daemon) startup \<times> host \<times> nodes \<times> sys) run" where
  "main_start pl seen k fk errors outs program args h nodes s =
     andthen (main_configure pl seen program args s) (\<lambda>(configured, s).
     case configured of
       Exited status \<Rightarrow> Some (Inr (Exited status, h, nodes, s))
     | Ready (st, acts) \<Rightarrow>
         andthen (main_prepare k fk errors outs st acts h nodes s) (\<lambda>(prepared, h, nodes, s).
         case prepared of
           Exited status \<Rightarrow> Some (Inr (Exited status, h, nodes, s))
         | Ready (fleet, d) \<Rightarrow> Some (Inr (Ready (st, acts, fleet, d), h, nodes, s))))"

section \<open>A sound configuration\<close>

text \<open>The names and numbers of a configuration file that \<open>main\<close> uses, with their defaults.\<close>

definition pidfile_of :: "config \<Rightarrow> string" where
  "pidfile_of cfg = configured_string cfg ''pidfile.filename'' PATH_MAX DEFAULT_PIDFILE_FILENAME"

definition fifo_of :: "config \<Rightarrow> string" where
  "fifo_of cfg = configured_string cfg ''socket.filename'' PATH_MAX DEFAULT_FIFO_FILENAME"

definition workers_of :: "config \<Rightarrow> int" where
  "workers_of cfg = configured_number cfg ''worker.threads'' (min MAX_WORKERS) DEFAULT_WORKERS"

definition contention_of :: "config \<Rightarrow> int" where
  "contention_of cfg = configured_number cfg ''worker.contention'' (min MAX_WORKER_CONTENTION_MILLIS)
     DEFAULT_WORKER_CONTENTION_MILLIS"

definition prefix_of :: "config \<Rightarrow> string" where
  "prefix_of cfg = configured_string cfg ''memcached.key.prefix'' MAX_KEY_PREFIX_LENGTH
     DEFAULT_MEMCACHED_KEY_PREFIX"

definition expiration_of :: "config \<Rightarrow> int" where
  "expiration_of cfg = configured_number cfg ''memcached.expiration''
     (\<lambda>v. if v < 0 then DEFAULT_MEMCACHE_EXPIRATION_SECONDS else v) DEFAULT_MEMCACHE_EXPIRATION_SECONDS"

text \<open>The pages of an action as its file specifies them, variables substituted.\<close>

definition spec_pages :: "action_spec \<Rightarrow> string list" where
  "spec_pages x = usable (page_url (fst (snd x))) (snd (snd x))"

lemma workers_of_small: "workers_of cfg = int n \<Longrightarrow> n < 1000"
  by (auto simp: workers_of_def configured_number_def MAX_WORKERS_def DEFAULT_WORKERS_def
      split: option.splits)

lemma agrees_names:
  assumes "agrees cfg st"
  shows "str_at (pidfile_filename st) 0 = Inr (pidfile_of cfg)" and "str_at (fifo_file st) 0 = Inr (fifo_of cfg)"
    and "workers_count st = workers_of cfg" and "str_at (memc_prefix st) 0 = Inr (prefix_of cfg)"
    and "contention st = contention_of cfg" and "memc_expiration st = expiration_of cfg"
  using assms
  by (simp_all add: agrees_def pidfile_of_def fifo_of_def workers_of_def prefix_of_def contention_of_def
      expiration_of_def)

text \<open>The blocks that the servers and the actions of the configuration take.\<close>

definition server_blocks :: "string list \<Rightarrow> nat" where
  "server_blocks names = length names + 1"

definition action_blocks :: "action_spec list \<Rightarrow> nat" where
  "action_blocks specs = sum_list (map cost specs) + 1"

lemma main_start_ready:
  assumes args: "\<forall>x \<in> set items. item_fits x"
    and parsed: "config_file_at seen (last_config CONFIG_FILENAME items) = Parsed cfg"
    and sound: "sound_config pl v seen cfg names specs" and n: "workers_of cfg = int n"
    and host: "host_ok k (pidfile_of cfg) h" and fifo: "fifo_ok fk (fifo_of cfg) nodes"
    and s: "plenty s" and up: "servers_up outs" and fit: "errors_fit errors"
  shows "\<exists>st as spares fleet d h'. main_start pl seen k fk errors outs program (render items) h nodes s
       = Some (Inr (Ready (st, Some (loaded_slots as spares), fleet, d), h', nodes(fifo_of cfg := FifoNode),
           daemon_sys d))
     \<and> agrees cfg st \<and> list_all2 matches as specs
     \<and> owned_servers st (server_blocks names)
     \<and> owned_actions (Some (loaded_slots as spares)) (action_blocks specs)
     \<and> started d \<and> list_all2 (manned errors) [0..<n] fleet
     \<and> capacity (queue (common d)) = QUEUE_CAPACITY \<and> fifo_linked (watcher d)
     \<and> length (read_buffer (watcher d)) = BUFFER_SIZE \<and> holding (cache_buffer (watcher d)) []
     \<and> live (daemon_sys d) = live s + int (server_blocks names) + int (action_blocks specs)
         + int (length (filter (\<lambda>i. errors i = 0) [0..<n])) + 259"
proof -
  obtain st j as spares s1 where conf: "main_configure pl seen program (render items) s
        = Some (Inr (Ready (st, Some (loaded_slots as spares)), s1))"
      "agrees cfg st" "memcached_servers st = Some (map Some names @ replicate j None)"
      "servers_listed st = int (length names + j)" "list_all2 matches as specs"
      "live s1 = live s + int (length names + 1) + int (sum_list (map cost specs) + 1)" "plenty s1"
    using main_configure_ready [OF args parsed sound s, of program] by blast
  note names = agrees_names [OF conf(2)]
  obtain x where x: "x \<in> set names" "x \<noteq> []"
    using sound usable_server_names
    unfolding sound_config_def by (metis list.set_intros(1) neq_Nil_conv)
  have owned: "owned_servers st (server_blocks names)"
    unfolding owned_servers_def server_blocks_def
    using conf(3,4) by (intro exI [of _ "map Some names @ replicate j None"]) (auto simp: packed_def)
  have acts: "owned_actions (Some (loaded_slots as spares)) (action_blocks specs)"
    unfolding owned_actions_def action_blocks_def loaded_slots_def using conf(5) by auto
  have w: "workers_count st = int n" "servers_listed st = int (length (map Some names @ replicate j None))"
      "\<exists>m. Some m \<in> set (map Some names @ replicate j None) \<and> m \<noteq> []"
    using names(3) n conf(4) x by auto
  obtain fleet d h' where prep: "main_prepare k fk errors outs st (Some (loaded_slots as spares)) h nodes s1
        = Some (Inr (Ready (fleet, d), h', nodes(fifo_of cfg := FifoNode), daemon_sys d))"
      "started d" "list_all2 (manned errors) [0..<n] fleet" "capacity (queue (common d)) = QUEUE_CAPACITY"
      "fifo_linked (watcher d)" "length (read_buffer (watcher d)) = BUFFER_SIZE"
      "holding (cache_buffer (watcher d)) []"
      "live (daemon_sys d) = live s1 + int (length (filter (\<lambda>i. errors i = 0) [0..<n])) + 259"
    using main_prepare_ready [OF names(1,2) host fifo w(1) workers_of_small [OF n] conf(7,3) w(2,3) up fit,
        of "Some (loaded_slots as spares)"] by blast
  have "main_start pl seen k fk errors outs program (render items) h nodes s
      = Some (Inr (Ready (st, Some (loaded_slots as spares), fleet, d), h', nodes(fifo_of cfg := FifoNode),
          daemon_sys d))"
    by (simp add: main_start_def conf(1) prep(1))
  then show ?thesis
    using conf(2,5,6) owned acts prep(2-8)
    by (intro exI [of _ st] exI [of _ as] exI [of _ spares] exI [of _ fleet] exI [of _ d] exI [of _ h'])
      (simp add: server_blocks_def action_blocks_def)
qed

text \<open>The action that a name finds is that of the first file with this name.\<close>

lemma find_matches:
  assumes "list_all2 matches as specs" and "find (\<lambda>x. fst x = name) specs = Some x"
  obtains a where "find_action (Some (loaded_slots as spares)) name = Inr (Some a)" and "matches a x"
proof -
  have "\<exists>a. find (\<lambda>a. named a name) as = Some a \<and> matches a x"
    using assms by (induction rule: list_all2_induct) (auto simp: matches_def named_def split: if_splits)
  then show thesis using that find_loaded [OF assms(1), of spares name] by auto
qed

lemma matches_pages: "matches a x \<Longrightarrow> page_list a (spec_pages x)"
  using length_usable [of "page_url (fst (snd x))" "snd (snd x)"]
  by (cases "length (snd (snd x)) - length (spec_pages x)")
    (auto simp: matches_def page_list_def spec_pages_def)

lemma sound_pages:
  assumes "sound_config pl v seen cfg names specs" and "x \<in> set specs"
  shows "length (spec_pages x) \<le> QUEUE_CAPACITY"
proof -
  have "\<exists>fs. list_all2 (loadable pl v QUERAL_VERSION (config_file_at seen)) fs specs"
    using assms(1) by (auto simp: sound_config_def sound_files_def)
  then obtain f where "loadable pl v QUERAL_VERSION (config_file_at seen) f x"
    using assms(2) by (metis in_set_conv_nth list_all2_conv_all_nth)
  then have "int (length (snd (snd x))) \<le> URL_MAX_COUNT"
    by (auto simp: loadable_def action_file_def)
  then show ?thesis
    using length_usable [of "page_url (fst (snd x))" "snd (snd x)"]
    by (simp add: spec_pages_def URL_MAX_COUNT_def QUEUE_CAPACITY_def)
qed

section \<open>A configuration to evaluate on\<close>

definition sample_main_config :: config where
  "sample_main_config = sample_config\<lparr>lookup_string :=
     (\<lambda>k. if k = ''include_dir'' then Some ''/d'' else lookup_string sample_config k)\<rparr>"

definition sample_seen :: files_seen where
  "sample_seen = \<lparr>config_file_at = (\<lambda>f. Parsed (if f = CONFIG_FILENAME then sample_main_config else sample_config)),
     directory_at = (\<lambda>_. DirEntries [''a.conf'', ''b.txt'', ''c.conf'']), kind_at = (\<lambda>_. RegularFile)\<rparr>"

lemma sample_seen_loadable:
  "f \<noteq> CONFIG_FILENAME \<Longrightarrow> f \<noteq> ''bad'' \<Longrightarrow>
   loadable permissive 9 QUERAL_VERSION (config_file_at sample_seen) f sample_spec"
  using sample_loadable [of f] by (simp add: loadable_def sample_files_def sample_seen_def QUERAL_VERSION_def)

lemma sample_sound:
  "sound_config permissive 9 sample_seen sample_main_config [''localhost:11211''] [sample_spec, sample_spec]"
proof -
  let ?names = "[''a.conf'', ''b.txt'', ''c.conf'']"
  have w: "wanted (kind_at sample_seen) ''.conf'' ''/d'' ?names = [''/d/a.conf'', ''/d/c.conf'']"
    by (simp add: wanted_eq has_extension_def dir_prefix_def sample_seen_def)
  have fits: "log_fits (''Maximum number of files exceeded on '' @ quoted ''%s'' @ '': %d'')
      [AStr ''/d'', AInt (int MAX_NUM_FILES)]"
    by (simp add: log_fits_def convert_def show_int_def show_nat.simps digit_char_def
        QUERAL_LOG_BUFFER_SIZE_def MAX_NUM_FILES_def)
  have names: "\<forall>name \<in> set ?names. name_fits (kind_at sample_seen) ''/d'' name"
    by (simp add: name_fits_def dir_prefix_def PATH_MAX_def sample_seen_def)
  have load: "list_all2 (loadable permissive 9 QUERAL_VERSION (config_file_at sample_seen))
      [''/d/a.conf'', ''/d/c.conf''] [sample_spec, sample_spec]"
    by (simp add: sample_seen_loadable CONFIG_FILENAME_def)
  have "sound_files permissive 9 sample_seen sample_main_config [sample_spec, sample_spec]"
    unfolding sound_files_def
    by (intro exI [of _ "''/d''"] exI [of _ ?names])
      (use w fits names load in \<open>simp add: sample_main_config_def sample_seen_def PATH_MAX_def MAX_NUM_FILES_def\<close>)
  moreover have servers: "server_name sample_server = Some ''localhost:11211''" "server_name (sample_page []) = None"
    by (simp_all add: server_name_def sample_server_def sample_page_def show_int_def show_nat.simps
        digit_char_def)
  moreover have "strings_ok sample_main_config" "lookup_string sample_main_config ''version'' = Some QUERAL_VERSION"
    by (auto simp: strings_ok_def sample_main_config_def sample_config_def QUERAL_VERSION_def)
  moreover have "lookup_list sample_main_config ''memcached.servers'' = Some [sample_server, sample_page []]"
    by (simp add: sample_main_config_def sample_config_def)
  ultimately show ?thesis by (simp add: sound_config_def server_good_def MAX_LINE_LENGTH_def)
qed

lemma sample_environment:
  "config_file_at sample_seen (last_config CONFIG_FILENAME []) = Parsed sample_main_config"
  "workers_of sample_main_config = int 2" "host_ok (sample_os 16 LockGranted) f sample_host"
  "fifo_ok sample_fifo_system g (\<lambda>_. NoNode)" "servers_up (\<lambda>_. sample_outside)" "errors_fit (\<lambda>_. 0)"
  by (simp_all add: sample_seen_def workers_of_def configured_number_def sample_main_config_def sample_config_def
      DEFAULT_WORKERS_def sample_host_ok fifo_ok_def sample_fifo_system_def servers_up_def sample_outside_def
      errors_fit_def)

end
