(* ===== verification/Spec2Isabelle.thy ===== *)
theory Spec2Isabelle
  imports Command Socket Action Curl_Client Memcached_Client Sleep_Utils File_Utils Worker Refresh
    Protocol Interleaving Shutdown Mutex Daemon_Utils Startup Main_Thread Program
begin

text \<open>
  Verification library of the EasyForetell daemon (the program \<^verbatim>\<open>queral\<close>, \<^verbatim>\<open>src/src/\<close>).

  \<^bold>\<open>The program.\<close> The daemon keeps documents of a web site in memcached. Clients write commands, one per
  line, into a FIFO: \<^verbatim>\<open>FETCH url\<close> visits a page, \<^verbatim>\<open>CACHE url\<close> downloads it and stores it under its URL,
  \<^verbatim>\<open>UPDATE name\<close> writes a \<^verbatim>\<open>CACHE\<close> command for each page of a named action back into the FIFO. The main
  thread runs a libev loop whose callback cuts what it reads into lines and enqueues them; a fixed
  number of worker threads takes the jobs from the queue. \<^verbatim>\<open>SIGTERM\<close> and \<^verbatim>\<open>SIGINT\<close> end the daemon.

  \<^bold>\<open>Theories and sources.\<close>
  \<^item> \<open>Prelude_C\<close>: the part of C the sources use. A \<^verbatim>\<open>char\<close> array is a list of cells that may be
    uninitialised, a pointer into it an offset; \<^verbatim>\<open>strlen\<close>, \<^verbatim>\<open>strcpy\<close>, \<^verbatim>\<open>strcat\<close>, \<^verbatim>\<open>memmove\<close> and their
    kin return \<open>Inl\<close> of a \<open>fault\<close> where ISO C leaves the behaviour undefined. The record \<open>platform\<close>
    names the habits beyond the standard on which the sources rely.
  \<^item> \<open>Logger\<close> (\<^verbatim>\<open>logger.c\<close>): \<^verbatim>\<open>malloc\<close> with a plan of outcomes and a count of live blocks, the conversions
    of \<^verbatim>\<open>printf\<close>, the log calls with their 256-byte buffer; the state \<open>sys\<close> of the process.
  \<^item> \<open>String_Utils\<close> (\<^verbatim>\<open>string_utils.c\<close>), \<open>File_Utils\<close> (\<^verbatim>\<open>file_utils.c\<close>), \<open>Sleep_Utils\<close> (\<^verbatim>\<open>sleep_utils.c\<close>).
  \<^item> \<open>Queue\<close> (\<^verbatim>\<open>queue.c\<close>): the ring buffer, with its contract in the locale of \<open>Queue_Interface\<close>.
  \<^item> \<open>Config_Utils\<close>, \<open>Config_Lists\<close>, \<open>Config_Pages\<close> (\<^verbatim>\<open>config_utils.c\<close>): the readers of single settings,
    the loops that fill lists, and the substitution of variables. What the readers and loops have in
    common are the locales of \<open>Setting_Interface\<close>, interpreted for each reader and each loop.
  \<^item> \<open>Action\<close> (\<^verbatim>\<open>action.c\<close>), \<open>Curl_Client\<close> (\<^verbatim>\<open>curl_client.c\<close>), \<open>Memcached_Client\<close> (\<^verbatim>\<open>memcached_client.c\<close>).
  \<^item> \<open>Command\<close> (\<^verbatim>\<open>get_command\<close> of \<^verbatim>\<open>queral.c\<close>), \<open>Socket\<close> (\<^verbatim>\<open>socket_cb\<close>, \<^verbatim>\<open>should_socket_worker_run\<close>,
    \<^verbatim>\<open>write_fifo\<close>), \<open>Worker\<close> (\<^verbatim>\<open>worker_thread\<close>: its start, one round of its loop, its end),
    \<open>Refresh\<close> (the callbacks and rounds that take a command from the FIFO to the cache).
  \<^item> \<open>Protocol\<close> (\<^verbatim>\<open>signal_handler\<close>, and all threads together): a step relation whose steps are whole
    critical sections, callbacks and handlers, over the contracts of \<open>Transition_Interface\<close> (invariant,
    channel, ending).
  \<^item> \<open>Interleaving\<close> (\<^verbatim>\<open>create_thread\<close>, and all threads again): the steps between which the kernel may switch,
    with the pieces of \<open>socket_cb\<close>, the texts a worker writes, and blocking writes to the FIFO;
    \<open>Shutdown\<close>: what a signal to stop leads to in these steps. \<open>Mutex\<close>: lock and unlock by themselves.
  \<^item> \<open>Daemon_Utils\<close> (\<^verbatim>\<open>daemon_utils.c\<close>), \<open>Startup\<close> (\<^verbatim>\<open>main\<close> up to the actions, \<^verbatim>\<open>exit_\<close>, \<^verbatim>\<open>usage\<close>),
    \<open>Main_Thread\<close> (\<^verbatim>\<open>main\<close> from \<^verbatim>\<open>daemonize\<close> on, \<^verbatim>\<open>create_fifo\<close>), \<open>Program\<close> (all of \<^verbatim>\<open>main\<close> up to the event
    loop). This theory joins them with \<open>Interleaving\<close>, \<open>Shutdown\<close> and \<open>Refresh\<close>.

  \<^bold>\<open>State.\<close> Global variables are records passed through: \<open>shared\<close> (queue, \<open>url_count\<close>, \<open>should_run\<close>, all under
  \<^verbatim>\<open>mutex\<close>), \<open>socket_worker_t\<close>, \<open>globals\<close> (the settings the workers read), \<open>worker_t\<close> and \<open>worker_locals\<close>
  per thread, \<open>sys\<close> (heap and log). Results are values of \<open>fault + 'a\<close>; error codes are the integers of
  the code.

  \<^bold>\<open>Parameters.\<close> Code outside the sources is an argument: the lookups of libconfig (record \<open>config\<close>),
  \<^verbatim>\<open>curl_easy_perform\<close> (a function that may call the write callback; \<open>delivers\<close> states what libcurl
  documents of a download), the outcomes of libmemcached and its limit of the key length, \<^verbatim>\<open>rand()\<close>, directories and
  files, the kernel's answers to \<^verbatim>\<open>open\<close>, \<^verbatim>\<open>write\<close>, \<^verbatim>\<open>fork\<close>, \<^verbatim>\<open>fcntl\<close> and the rest (records \<open>os\<close>,
  \<open>outside\<close>, \<open>files_seen\<close>, \<open>fifo_system\<close>), and the errors of \<^verbatim>\<open>pthread_create\<close>.

  \<^bold>\<open>What the lemmas show.\<close> The operations on strings and buffers are followed to their exact result, on
  every input: which outcome, or which fault. The queue refines a bounded list; \<open>socket_cb\<close> refines
  the cutting of a stream into lines; \<open>get_command\<close> refines a parser with a printer as its inverse; the
  substitution of variables equals a reference expansion. The worker rounds state the requests sent to
  memcached and the commands sent to the FIFO; composed with the callbacks, one \<^verbatim>\<open>UPDATE\<close> refreshes every
  page of its action. For all interleavings the jobs taken are the jobs
  enqueued, in order, \<open>url_count\<close> is the length of the queue, and no wake-up is lost. The places at which
  a signal to stop ends the daemon, is lost, or blocks it for good are told apart, with the number of
  steps that are left. The theorems of this theory follow the program from its command line and its
  configuration to its exit status, with the heap balance, and from the file of an action to the
  records that an \<^verbatim>\<open>UPDATE\<close> of it stores. Theorems whose conclusion is a fault, or \<open>None\<close>, describe defects of the code.

  \<^bold>\<open>Termination.\<close> Loops over lists and lines are total functions; no fuel is used (\<open>worker_rounds\<close> counts the
  rounds of the endless loop of a worker). Two loops may run forever and
  are partial: \<open>replace_all\<close> (a \<open>partial_function\<close>) and \<open>close_all\<close> (\<open>while_option\<close>); the computations
  that contain them return a \<open>run\<close>, whose \<open>None\<close> stands for no return, and it is proved when they
  return. The steps behind a signal to stop are bounded by \<open>machine_effort\<close>: what is left of the callback
  (a read is at most \<open>BUFFER_SIZE\<close> turns), and two steps for each text a worker has yet to write. The
  bounds are those of the code: \<open>BUFFER_SIZE\<close> 255, \<open>QUEUE_CAPACITY\<close> 256, \<open>PATH_MAX\<close>,
  \<open>MAX_LINE_LENGTH\<close> 256, 32 files, variables or pages.

  \<^bold>\<open>Interleaving.\<close> In \<open>Protocol\<close> a callback is one step, so it stands for workers that are slow while a chunk
  is enqueued. In \<open>Interleaving\<close> the callback is cut between the critical section of its check, the
  unlocked \<^verbatim>\<open>return should_run\<close>, its read, and each turn of its loop; a worker between taking its job,
  opening the FIFO, each write, and the end of its round. Each step has at most one critical section,
  and everything outside it works on data of its own thread, except \<open>should_run\<close> and the FIFO, whose
  accesses are steps of their own. A signal finds the main thread between two steps (\<open>Signalled\<close>) or inside a critical
  section (\<open>SignalledInside\<close>); no other thread runs the handler, which \<open>create_thread\<close> ensures. The
  parameter \<open>room\<close> is the capacity of the FIFO in bytes; a write waits until all of its text fits, as
  POSIX has it for texts of at most \<^verbatim>\<open>PIPE_BUF\<close> bytes. Uninterrupted, the steps of the callback are
  \<open>socket_cb\<close> itself (\<open>callback_in_steps\<close>). \<open>fifo_linked\<close> is the FIFO's name, which the end of the loop unlinks.

  \<^bold>\<open>Not modelled.\<close> Builds with \<^verbatim>\<open>DEBUG\<close> or \<^verbatim>\<open>QUERAL_PROFILE\<close>; \<^verbatim>\<open>openlog\<close> and \<^verbatim>\<open>closelog\<close>, easy options of
  libcurl, \<^verbatim>\<open>sigaction\<close> in \<^verbatim>\<open>main\<close> and \<^verbatim>\<open>config_destroy\<close> have no effect on the state above;
  \<^verbatim>\<open>memcached_count_servers\<close> only forwards to the library. In \<open>Interleaving\<close> a round is followed by its
  writes only, and always comes to its end: what it does with its client and the cache, and its faults,
  are in \<open>Worker\<close>, which looks at one round alone. What libev does when a callback destroys its loop, spurious
  wake-ups (a worker that finds no job goes on waiting) and signals before the watcher is started
  (\<open>early_signal_unnoticed\<close> of \<open>Protocol\<close> apart) are left out of it too. What is left of the sources is licence texts,
  includes and prototypes; build files, shell tests and the installed configuration hold no program logic.
\<close>

section \<open>Lemmas\<close>

text \<open>From a state in which the daemon was told to stop it can come to its end.\<close>

lemma daemon_stops:
  assumes "started d\<^sub>0" and "run (step pl) d\<^sub>0 es d" and "\<not> should_run (common d)"
  shows "\<exists>fs d'. run (step pl) d fs d' \<and> run (step pl) d\<^sub>0 (es @ fs) d' \<and> list_all leaving fs
     \<and> \<not> loop_running (watcher d') \<and> (\<forall>t \<in> set (threads d'). phase t = Gone)"
proof -
  obtain fs d' where fs: "run (step pl) d fs d'" "effort d' = 0" "list_all leaving fs"
    using shutdown.run_completes [OF live.reachable_inv [OF assms(1,2)] assms(3)] by blast
  moreover have "run (step pl) d\<^sub>0 (es @ fs) d'" using assms(2) fs(1) by (auto simp: run_append)
  ultimately show ?thesis using effort_zero by blast
qed

text \<open>What the end of \<^verbatim>\<open>main\<close> does when \<open>b\<close> blocks were there before.\<close>

lemma daemon_finishes:
  assumes "list_all2 (manned errors) [0..<n] fleet" and wf: "fifo_wf (queue (common d))"
    and cap: "capacity (queue (common d)) = QUEUE_CAPACITY"
    and live: "live (daemon_sys d) = b + int (length (filter (\<lambda>i. errors i = 0) [0..<n])) + 259"
    and "owned_servers st ns" and "owned_actions acts na"
  shows "if \<forall>i < n. errors i = 0
     then \<exists>s'. main_finish st acts fleet d = Inr (0, s')
       \<and> live s' = b - int (ns + na) + 1 + (if fifo_list (queue (common d)) = [] then 256 else 0)
     else main_finish st acts fleet d = Inl Uninitialised"
proof (cases "\<forall>i < n. errors i = 0")
  case True
  then have "filter (\<lambda>i. errors i = 0) [0..<n] = [0..<n]" by (intro filter_True) simp
  then have n: "live (daemon_sys d) = b + int n + 259" using live by simp
  have cap': "capacity (queue (common d)) = 256" using cap by (simp add: QUEUE_CAPACITY_def)
  obtain s' where s': "main_finish st acts fleet d = Inr (0, s')"
      "live s' = live (daemon_sys d) - int (n + ns + na + capacity (queue (common d)) + 2)
         + int (forgotten (queue (common d)))"
    using main_finish_all [OF assms(1) wf assms(5,6) True] by blast
  have "live s' = b - int (ns + na) + 1 + (if fifo_list (queue (common d)) = [] then 256 else 0)"
    unfolding s'(2) forgotten_def cap' n by simp
  then show ?thesis using True s'(1) by simp
next
  case False
  then obtain i where i: "i < n" "errors i \<noteq> 0" by blast
  show ?thesis using main_finish_missing [OF assms(1) i] False by simp
qed

text \<open>The same in a state that the daemon can reach, in the steps of \<open>Protocol\<close> and of \<open>Interleaving\<close>.\<close>

lemma daemon_finishes_run:
  assumes "started d\<^sub>0" and "run (step pl) d\<^sub>0 es d" and "list_all2 (manned errors) [0..<n] fleet"
    and "capacity (queue (common d\<^sub>0)) = QUEUE_CAPACITY"
    and "live (daemon_sys d\<^sub>0) = b + int (length (filter (\<lambda>i. errors i = 0) [0..<n])) + 259"
    and "owned_servers st ns" and "owned_actions acts na"
  shows "if \<forall>i < n. errors i = 0
     then \<exists>s'. main_finish st acts fleet d = Inr (0, s')
       \<and> live s' = b - int (ns + na) + 1 + (if fifo_list (queue (common d)) = [] then 256 else 0)
     else main_finish st acts fleet d = Inl Uninitialised"
proof -
  have "keeps d\<^sub>0 d" using frame.reachable_inv [OF _ assms(2), of d\<^sub>0] assms(1) by simp
  then have "fifo_wf (queue (common d))" "capacity (queue (common d)) = QUEUE_CAPACITY"
      "live (daemon_sys d) = b + int (length (filter (\<lambda>i. errors i = 0) [0..<n])) + 259"
    using assms(4,5) by (simp_all add: keeps_def daemon_inv_def)
  from daemon_finishes [OF assms(3) this assms(6,7)] show ?thesis .
qed

lemma machine_finishes:
  assumes "machine_started (machine_of d\<^sub>0)" and "run (fine pl room acts') (machine_of d\<^sub>0) es m"
    and "list_all2 (manned errors) [0..<n] fleet" and "capacity (queue (common d\<^sub>0)) = QUEUE_CAPACITY"
    and "live (daemon_sys d\<^sub>0) = b + int (length (filter (\<lambda>i. errors i = 0) [0..<n])) + 259"
    and "owned_servers st ns" and "owned_actions acts na"
  shows "if \<forall>i < n. errors i = 0
     then \<exists>s'. main_finish st acts fleet (daemon_of m) = Inr (0, s')
       \<and> live s' = b - int (ns + na) + 1 + (if fifo_list (queue (shares m)) = [] then 256 else 0)
     else main_finish st acts fleet (daemon_of m) = Inl Uninitialised"
proof -
  have m: "common (daemon_of m) = shares m" "daemon_sys (daemon_of m) = log_sys m"
    by (simp_all add: daemon_of_def)
  have "retains (machine_of d\<^sub>0) m" using balance.reachable_inv [OF _ assms(2)] assms(1) by blast
  then have "fifo_wf (queue (common (daemon_of m)))" "capacity (queue (common (daemon_of m))) = QUEUE_CAPACITY"
      "live (daemon_sys (daemon_of m)) = b + int (length (filter (\<lambda>i. errors i = 0) [0..<n])) + 259"
    using assms(4,5) by (simp_all add: retains_def machine_inv_def m machine_of_def)
  from daemon_finishes [OF assms(3) this assms(6,7)] show ?thesis unfolding m .
qed

text \<open>
  The daemon from its configuration to its end in the steps of \<open>Protocol\<close>. When the kernel lets it detach, lock its file and
  make its FIFO, and the memcached servers answer, it reaches its event loop. Whatever happens then,
  once a signal between two callbacks told it to stop it can come to its end, every job it enqueued
  was taken in order or is still queued, and it exits with status 0 having given back all blocks but
  one (the copy of the FIFO's name), and the slots of the queue when that is empty. If a thread could
  not be created, however, the end joins it all the same, through an id that was never set.
\<close>

lemma daemon_life:
  assumes "str_at (pidfile_filename st) 0 = Inr pidfile" and "str_at (fifo_file st) 0 = Inr fifo"
    and "host_ok k pidfile h" and "fifo_ok fk fifo nodes"
    and "workers_count st = int n" and "n < 1000" and "plenty s"
    and "owned_servers st ns" and "\<exists>names m. memcached_servers st = Some names \<and> Some m \<in> set names \<and> m \<noteq> []"
    and "owned_actions acts na" and "servers_up outs" and "errors_fit errors"
  shows "\<exists>fleet d\<^sub>0 h'. main_prepare k fk errors outs st acts h nodes s
       = Some (Inr (Ready (fleet, d\<^sub>0), h', nodes(fifo := FifoNode), daemon_sys d\<^sub>0))
     \<and> started d\<^sub>0 \<and> capacity (queue (common d\<^sub>0)) = 256
     \<and> (\<forall>es d. run (step pl) d\<^sub>0 es d \<and> \<not> should_run (common d) \<longrightarrow>
         (\<exists>fs d'. run (step pl) d fs d' \<and> list_all leaving fs \<and> \<not> loop_running (watcher d')
            \<and> (\<forall>t \<in> set (threads d'). phase t = Gone)
            \<and> concat (map accepted (es @ fs)) = concat (map taken (es @ fs)) @ fifo_list (queue (common d'))
            \<and> (if \<forall>i < n. errors i = 0
               then \<exists>s'. main_finish st acts fleet d' = Inr (0, s')
                 \<and> live s' = live s - int (ns + na) + 1
                     + (if fifo_list (queue (common d')) = [] then 256 else 0)
               else main_finish st acts fleet d' = Inl Uninitialised)))"
proof -
  obtain names where names: "memcached_servers st = Some names" "servers_listed st = int (length names)"
    using assms(8) by (auto simp: owned_servers_def)
  have named: "\<exists>m. Some m \<in> set names \<and> m \<noteq> []" using assms(9) names(1) by simp
  obtain fleet d\<^sub>0 h' where d: "main_prepare k fk errors outs st acts h nodes s
        = Some (Inr (Ready (fleet, d\<^sub>0), h', nodes(fifo := FifoNode), daemon_sys d\<^sub>0))"
      "started d\<^sub>0" "list_all2 (manned errors) [0..<n] fleet"
      "capacity (queue (common d\<^sub>0)) = QUEUE_CAPACITY"
      "live (daemon_sys d\<^sub>0) = live s + int (length (filter (\<lambda>i. errors i = 0) [0..<n])) + 259"
    using main_prepare_ready [OF assms(1-7) names named assms(11,12)] by blast
  have "\<exists>fs d'. run (step pl) d fs d' \<and> list_all leaving fs \<and> \<not> loop_running (watcher d')
      \<and> (\<forall>t \<in> set (threads d'). phase t = Gone)
      \<and> concat (map accepted (es @ fs)) = concat (map taken (es @ fs)) @ fifo_list (queue (common d'))
      \<and> (if \<forall>i < n. errors i = 0
         then \<exists>s'. main_finish st acts fleet d' = Inr (0, s')
           \<and> live s' = live s - int (ns + na) + 1
               + (if fifo_list (queue (common d')) = [] then 256 else 0)
         else main_finish st acts fleet d' = Inl Uninitialised)"
    if es: "run (step pl) d\<^sub>0 es d" and stop: "\<not> should_run (common d)" for es d
  proof -
    obtain fs d' where fs: "run (step pl) d fs d'" "run (step pl) d\<^sub>0 (es @ fs) d'" "list_all leaving fs"
        "\<not> loop_running (watcher d') \<and> (\<forall>t \<in> set (threads d'). phase t = Gone)"
      using daemon_stops [OF d(2) es stop] by blast
    from jobs.sent_received [OF d(2) fs(2)] daemon_finishes_run [OF d(2) fs(2) d(3-5) assms(8,10)] fs
    show ?thesis by blast
  qed
  then show ?thesis using d(1,2,4) by (fastforce simp: QUEUE_CAPACITY_def)
qed

text \<open>The end of a daemon that hears a signal to stop, by its own steps, in all interleavings.\<close>

lemma machine_winds_up:
  assumes start: "machine_started (machine_of d\<^sub>0)" and fleet: "list_all2 (manned errors) [0..<n] fleet"
    and cap: "capacity (queue (common d\<^sub>0)) = QUEUE_CAPACITY"
    and blocks: "live (daemon_sys d\<^sub>0) = b + int (length (filter (\<lambda>i. errors i = 0) [0..<n])) + 259"
    and owned: "owned_servers st ns" "owned_actions acts na"
    and told: "run (fine pl room acts) (machine_of d\<^sub>0) es m \<and> spot m \<in> {Polling, Unlocked}
          \<and> stop_signal g \<and> fine pl room acts m (Signalled g) m\<^sub>1
          \<and> length (fifo_bytes m) + length ''QUIT'' + unwritten m \<le> room"
  shows "(\<exists>fs m\<^sub>2. run (fine pl room acts) m\<^sub>1 fs m\<^sub>2 \<and> list_all internal fs \<and> at_rest pl room acts m\<^sub>2)
     \<and> (\<forall>fs m\<^sub>2. run (fine pl room acts) m\<^sub>1 fs m\<^sub>2 \<and> list_all internal fs \<and> at_rest pl room acts m\<^sub>2 \<longrightarrow>
         spot m\<^sub>2 = LoopEnded \<and> (\<forall>c \<in> set (crew m\<^sub>2). duty c = Left)
         \<and> concat (map turned (es @ Signalled g # fs))
             = concat (map fetched (es @ Signalled g # fs)) @ fifo_list (queue (shares m\<^sub>2))
         \<and> (if \<forall>i < n. errors i = 0
            then \<exists>s'. main_finish st acts fleet (daemon_of m\<^sub>2) = Inr (0, s')
              \<and> live s' = b - int (ns + na) + 1 + (if fifo_list (queue (shares m\<^sub>2)) = [] then 256 else 0)
            else main_finish st acts fleet (daemon_of m\<^sub>2) = Inl Uninitialised))"
proof (intro conjI allI impI)
  show "\<exists>fs m\<^sub>2. run (fine pl room acts) m\<^sub>1 fs m\<^sub>2 \<and> list_all internal fs \<and> at_rest pl room acts m\<^sub>2"
    using way_to_rest [OF start] told by blast
  fix fs m\<^sub>2
  assume f: "run (fine pl room acts) m\<^sub>1 fs m\<^sub>2 \<and> list_all internal fs \<and> at_rest pl room acts m\<^sub>2"
  have all: "run (fine pl room acts) (machine_of d\<^sub>0) (es @ Signalled g # fs) m\<^sub>2"
    using told f by (auto simp: run_append run_Cons)
  show "spot m\<^sub>2 = LoopEnded" "\<forall>c \<in> set (crew m\<^sub>2). duty c = Left"
    using end_of_way [OF start] told f by blast+
  show "concat (map turned (es @ Signalled g # fs))
      = concat (map fetched (es @ Signalled g # fs)) @ fifo_list (queue (shares m\<^sub>2))"
    using lines.sent_received [OF start all] .
  show "if \<forall>i < n. errors i = 0
      then \<exists>s'. main_finish st acts fleet (daemon_of m\<^sub>2) = Inr (0, s')
        \<and> live s' = b - int (ns + na) + 1 + (if fifo_list (queue (shares m\<^sub>2)) = [] then 256 else 0)
      else main_finish st acts fleet (daemon_of m\<^sub>2) = Inl Uninitialised"
    using machine_finishes [OF start all fleet cap blocks owned] .
qed

text \<open>
  The daemon from its settings to its end in the steps of \<open>Interleaving\<close>, with any server list and any
  actions that \<open>main_finish\<close> can give back.
\<close>

lemma daemon_runs_to_its_end:
  assumes "str_at (pidfile_filename st) 0 = Inr pidfile" and "str_at (fifo_file st) 0 = Inr fifo"
    and "host_ok k pidfile h" and "fifo_ok fk fifo nodes"
    and "workers_count st = int n" and "n < 1000" and "plenty s"
    and "owned_servers st ns" and "\<exists>names m. memcached_servers st = Some names \<and> Some m \<in> set names \<and> m \<noteq> []"
    and "owned_actions acts na" and "servers_up outs" and "errors_fit errors"
  shows "\<exists>fleet d\<^sub>0 h'. main_prepare k fk errors outs st acts h nodes s
       = Some (Inr (Ready (fleet, d\<^sub>0), h', nodes(fifo := FifoNode), daemon_sys d\<^sub>0))
     \<and> machine_started (machine_of d\<^sub>0)
     \<and> (\<forall>es m g m\<^sub>1. run (fine pl room acts) (machine_of d\<^sub>0) es m \<and> spot m \<in> {Polling, Unlocked}
          \<and> stop_signal g \<and> fine pl room acts m (Signalled g) m\<^sub>1
          \<and> length (fifo_bytes m) + length ''QUIT'' + unwritten m \<le> room \<longrightarrow>
         (\<exists>fs m\<^sub>2. run (fine pl room acts) m\<^sub>1 fs m\<^sub>2 \<and> list_all internal fs \<and> at_rest pl room acts m\<^sub>2)
         \<and> (\<forall>fs m\<^sub>2. run (fine pl room acts) m\<^sub>1 fs m\<^sub>2 \<and> list_all internal fs \<and> at_rest pl room acts m\<^sub>2 \<longrightarrow>
             spot m\<^sub>2 = LoopEnded \<and> (\<forall>c \<in> set (crew m\<^sub>2). duty c = Left)
             \<and> concat (map turned (es @ Signalled g # fs))
                 = concat (map fetched (es @ Signalled g # fs)) @ fifo_list (queue (shares m\<^sub>2))
             \<and> (if \<forall>i < n. errors i = 0
                then \<exists>s'. main_finish st acts fleet (daemon_of m\<^sub>2) = Inr (0, s')
                  \<and> live s' = live s - int (ns + na) + 1
                      + (if fifo_list (queue (shares m\<^sub>2)) = [] then 256 else 0)
                else main_finish st acts fleet (daemon_of m\<^sub>2) = Inl Uninitialised)))"
proof -
  obtain names where names: "memcached_servers st = Some names" "servers_listed st = int (length names)"
    using assms(8) by (auto simp: owned_servers_def)
  have named: "\<exists>m. Some m \<in> set names \<and> m \<noteq> []" using assms(9) names(1) by simp
  obtain fleet d\<^sub>0 h' where d: "main_prepare k fk errors outs st acts h nodes s
        = Some (Inr (Ready (fleet, d\<^sub>0), h', nodes(fifo := FifoNode), daemon_sys d\<^sub>0))"
      "started d\<^sub>0" "list_all2 (manned errors) [0..<n] fleet"
      "capacity (queue (common d\<^sub>0)) = QUEUE_CAPACITY"
      "live (daemon_sys d\<^sub>0) = live s + int (length (filter (\<lambda>i. errors i = 0) [0..<n])) + 259"
      "fifo_linked (watcher d\<^sub>0)"
    using main_prepare_ready [OF assms(1-7) names named assms(11,12)] by blast
  have start: "machine_started (machine_of d\<^sub>0)" by (rule started_machine [OF d(2,6)])
  show ?thesis
    using machine_winds_up [OF start d(3-5) assms(8,10)]
    by (intro exI [of _ fleet] exI [of _ d\<^sub>0] exI [of _ h'] conjI [OF d(1)] conjI [OF start] allI impI)
qed

section \<open>Properties\<close>



text \<open>
  C2: From the configuration files to the cache. Once \<^verbatim>\<open>main\<close> has reached its event loop, one \<^verbatim>\<open>UPDATE\<close>
  command for an action of the include directory, written into the FIFO, makes the first worker store
  the document of every page that the file of this action specifies, with its variables substituted,
  under the configured key prefix and with the configured expiration, after deleting its old record.
\<close>

theorem configured_update_refreshes:
  assumes "\<forall>x \<in> set items. item_fits x"
    and "config_file_at seen (last_config CONFIG_FILENAME items) = Parsed cfg"
    and "sound_config pl v seen cfg names specs" and "workers_of cfg = int n"
    and "host_ok k (pidfile_of cfg) h" and "fifo_ok fk (fifo_of cfg) nodes"
    and "plenty s" and "servers_up outs" and "errors_fit errors"
    and "0 < n" and "errors 0 = 0" and "ascending pl" and "fifo_takes_all (outs 0)"
    and "contention_of cfg \<noteq> -1"
    and "find (\<lambda>x. fst x = name) specs = Some x" and "plain_argument name"
    and "\<forall>u \<in> set (spec_pages x). page_served (outs 0) (prefix_of cfg) document u"
  shows "\<exists>st slots w fleet d h' sock' sh' w' loc' wd'.
     main_start pl seen k fk errors outs program (render items) h nodes s
       = Some (Inr (Ready (st, Some slots, Looping w # fleet, d), h', nodes(fifo_of cfg := FifoNode), daemon_sys d))
     \<and> chk (daemon_turn pl (outs 0) (globals_of st (Some slots) (fifo_of cfg)) randoms
              (watcher d, common d, w, worker_locals_init (outs 0),
               \<lparr>requests = [], pipe = UPDATE_COMMAND @ '' '' @ name @ [newline], process = daemon_sys d\<rparr>))
           (daemon_turn pl (outs 0) (globals_of st (Some slots) (fifo_of cfg)) randoms')
         = Inr (sock', sh', w', loc', wd')
     \<and> requests wd' = concat (map (\<lambda>u. cache_requests (prefix_of cfg @ u) (document u) (expiration_of cfg))
                                (spec_pages x))
     \<and> pipe wd' = []"
proof -
  obtain st as spares fleet d h' where d:
      "main_start pl seen k fk errors outs program (render items) h nodes s
        = Some (Inr (Ready (st, Some (loaded_slots as spares), fleet, d), h', nodes(fifo_of cfg := FifoNode),
            daemon_sys d))"
      "agrees cfg st" "list_all2 matches as specs" "started d"
      "list_all2 (manned errors) [0..<n] fleet" "capacity (queue (common d)) = QUEUE_CAPACITY"
      "length (read_buffer (watcher d)) = BUFFER_SIZE" "holding (cache_buffer (watcher d)) []"
    using main_start_ready [OF assms(1-9), of program] by blast
  obtain e crew where "fleet = e # crew" "manned errors 0 e"
    using d(5) assms(10) by (auto simp: upt_conv_Cons list_all2_Cons1)
  then obtain w where w: "fleet = Looping w # crew" "curl_ready (curl w)"
    using assms(11) by (auto simp: manned_def)
  obtain a where a: "find_action (Some (loaded_slots as spares)) name = Inr (Some a)" "page_list a (spec_pages x)"
    using find_matches [OF d(3) assms(15), of spares] matches_pages by metis
  let ?g = "globals_of st (Some (loaded_slots as spares)) (fifo_of cfg)"
  note names = agrees_names [OF d(2)]
  have g: "worker_contention ?g \<noteq> -1" "str_at (key_prefix ?g) 0 = Inr (prefix_of cfg)"
      "find_action (actions ?g) name = Inr (Some a)" "expiration ?g = expiration_of cfg"
    using assms(14) names(4-6) a(1) by (simp_all add: globals_of_def)
  have "x \<in> set specs" using assms(15) by (auto simp: find_Some_iff)
  then have room: "max 1 (length (spec_pages x)) \<le> capacity (queue (common d))"
    using sound_pages [OF assms(3)] d(6) by (simp add: QUEUE_CAPACITY_def)
  have idle: "idle_daemon (outs 0) (watcher d) (common d) w (worker_locals_init (outs 0))"
    using d(4,7,8) w(2) by (simp add: idle_daemon_def started_def waiting_def locals_init_ok)
  let ?wd = "\<lparr>requests = [], pipe = UPDATE_COMMAND @ '' '' @ name @ [newline], process = daemon_sys d\<rparr>"
  have wd: "pipe ?wd = UPDATE_COMMAND @ '' '' @ name @ [newline]" "requests ?wd = []" by simp_all
  from refresh_turns [OF assms(12) idle assms(13) g(1,2) assms(16) g(3) a(2) assms(17) room wd(1),
      of randoms randoms'] d(1)
  show ?thesis unfolding g(4) wd(2) w(1) append_Nil by blast
qed

theorem configured_update_refreshes_witness:
  "\<exists>st slots w fleet d h' nodes r.
     main_start permissive sample_seen (sample_os 16 LockGranted) sample_fifo_system (\<lambda>_. 0) (\<lambda>_. sample_outside)
         ''queral'' [] sample_host (\<lambda>_. NoNode) sample_sys
       = Some (Inr (Ready (st, Some slots, Looping w # fleet, d), h', nodes, daemon_sys d))
     \<and> chk (daemon_turn permissive sample_outside (globals_of st (Some slots) (fifo_of sample_main_config)) (\<lambda>_. 5)
              (watcher d, common d, w, worker_locals_init sample_outside,
               \<lparr>requests = [], pipe = UPDATE_COMMAND @ '' '' @ ''home'' @ [newline], process = daemon_sys d\<rparr>))
           (daemon_turn permissive sample_outside (globals_of st (Some slots) (fifo_of sample_main_config)) (\<lambda>_. 7))
         = Inr r
     \<and> requests (snd (snd (snd (snd r))))
         = [McDelete ''__memc_http://www.a.org/'', McSet ''__memc_http://www.a.org/'' ''<html></html>'' 7200]"
proof -
  let ?doc = "\<lambda>_. ''<html></html>''"
  have items: "\<forall>x \<in> set []. item_fits x" by simp
  have n: "(0::nat) < 2" and no: "(\<lambda>_. 0) (0::nat) = (0::int)" by simp_all
  have conf: "contention_of sample_main_config \<noteq> -1" "prefix_of sample_main_config = ''__memc_''"
      "expiration_of sample_main_config = 7200"
    by (simp_all add: contention_of_def prefix_of_def expiration_of_def configured_number_def
        configured_string_def effective_setting_def sample_main_config_def sample_config_def
        DEFAULT_WORKER_CONTENTION_MILLIS_def DEFAULT_MEMCACHED_KEY_PREFIX_def
        DEFAULT_MEMCACHE_EXPIRATION_SECONDS_def)
  have spec: "find (\<lambda>x. fst x = ''home'') [sample_spec, sample_spec] = Some sample_spec"
    by (simp add: sample_spec_def)
  have name: "plain_argument ''home''" by (simp add: plain_argument_def BUFFER_SIZE_def isspace_def)
  have pages: "spec_pages sample_spec = [''http://www.a.org/'']" by code_simp
  have served: "\<forall>u \<in> set (spec_pages sample_spec). page_served sample_outside (prefix_of sample_main_config) ?doc u"
    unfolding pages conf(2)
    using sample_served [of "''http://www.a.org/''"] by (simp add: plain_argument_def BUFFER_SIZE_def isspace_def)
  have r: "concat (map (\<lambda>u. cache_requests (prefix_of sample_main_config @ u) (?doc u)
        (expiration_of sample_main_config)) (spec_pages sample_spec))
      = [McDelete ''__memc_http://www.a.org/'', McSet ''__memc_http://www.a.org/'' ''<html></html>'' 7200]"
    unfolding pages conf(2,3) by (simp add: cache_requests_def BUFFER_MEMORY_SIZE_def)
  from configured_update_refreshes [where pl = permissive and program = "''queral''",
      OF items sample_environment(1) sample_sound sample_environment(2-4) plenty_sample sample_environment(5,6)
        n no platform_sel(4) sample_fifo conf(1) spec name served, of "\<lambda>_. 5" "\<lambda>_. 7"]
  show ?thesis unfolding r render.simps by force
qed

end
